(* ===== verification/Prelude.thy ===== *)
theory Prelude
  imports Main "HOL-Library.Word"
begin

text \<open>
  Shared vocabulary of the development: the C integer types, the ways a C program can go
  wrong (undefined behaviour as a value), sequencing of fallible computations, the two halves
  of \<open>memcpy\<close> on a bounded byte block, and the list and word facts that the components
  share.  The C target is LP64 (64-bit \<open>size_t\<close>), little endian, with signed \<open>char\<close>.
\<close>

subsection \<open>Integer types\<close>

type_synonym byte = "8 word"
type_synonym uint16 = "16 word"
type_synonym uint32 = "32 word"
type_synonym uint64 = "64 word"
type_synonym size_t = "64 word"

text \<open>Where a C \<open>int\<close> is an \<open>int\<close>: its range.\<close>

definition INT_MAX :: int where "INT_MAX = 2 ^ 31 - 1"
definition INT_MIN :: int where "INT_MIN = - (2 ^ 31)"

subsection \<open>Undefined behaviour and failing computations\<close>

text \<open>
  \<open>Inl e\<close> stands for an execution that runs into the undefined behaviour (or trap) \<open>e\<close>; nothing
  after it is modelled.  \<open>Inr x\<close> is a defined execution that returns \<open>x\<close>.
\<close>

datatype c_error =
    OutOfBounds
  | NullDeref
  | InvalidFree
  | UninitRead
  | ShiftTooWide
  | DivideTrap
  | StackOverflow
  | SignedOverflow
  | Diverges  \<comment> \<open>a loop that makes no progress\<close>

definition bindE :: "('e + 'a) \<Rightarrow> ('a \<Rightarrow> 'e + 'b) \<Rightarrow> 'e + 'b" where
  "bindE x f = (case x of Inl e \<Rightarrow> Inl e | Inr a \<Rightarrow> f a)"

named_theorems errs \<open>Unfolding of sequenced fallible computations\<close>

lemma bindE_Inl [simp]: "bindE (Inl e) f = Inl e"
  by (simp add: bindE_def)

lemma bindE_Inr [simp]: "bindE (Inr a) f = f a"
  by (simp add: bindE_def)

lemma bindE_eq_Inr [errs]: "bindE x f = Inr b \<longleftrightarrow> (\<exists>a. x = Inr a \<and> f a = Inr b)"
  by (cases x) auto

lemma bindE_eq_Inl [errs]:
  "bindE x f = Inl e \<longleftrightarrow> x = Inl e \<or> (\<exists>a. x = Inr a \<and> f a = Inl e)"
  by (cases x) auto

lemma bindE_if: "bindE (if b then x else y) f = (if b then bindE x f else bindE y f)"
  by simp

subsection \<open>Bounded reads and writes of a memory block\<close>

definition mem_read :: "'a list \<Rightarrow> nat \<Rightarrow> nat \<Rightarrow> c_error + 'a list" where
  "mem_read m off n = (if off + n \<le> length m then Inr (take n (drop off m)) else Inl OutOfBounds)"

definition mem_write :: "'a list \<Rightarrow> nat \<Rightarrow> 'a list \<Rightarrow> c_error + 'a list" where
  "mem_write m off xs =
     (if off + length xs \<le> length m
      then Inr (take off m @ xs @ drop (off + length xs) m) else Inl OutOfBounds)"

lemma mem_read_Inr [simp]: "off + n \<le> length m \<Longrightarrow> mem_read m off n = Inr (take n (drop off m))"
  by (simp add: mem_read_def)

lemma mem_write_Inr [simp]:
  "off + length xs \<le> length m \<Longrightarrow>
     mem_write m off xs = Inr (take off m @ xs @ drop (off + length xs) m)"
  by (simp add: mem_write_def)

text \<open>The block after a write: its length, and each of its cells.\<close>

lemma length_splice [simp]:
  "off + length xs \<le> length m \<Longrightarrow>
     length (take off m @ xs @ drop (off + length xs) m) = length m"
  by simp

lemma nth_splice:
  assumes "off + length xs \<le> length m" and "i < length m"
  shows "(take off m @ xs @ drop (off + length xs) m) ! i =
           (if i < off then m ! i else if i < off + length xs then xs ! (i - off) else m ! i)"
  using assms by (auto simp: nth_append)

subsection \<open>Arithmetic shared by ring structures\<close>

lemma mod_inj_window:
  fixes a b m :: nat
  assumes "a mod m = b mod m" and "a \<le> b" and "b < a + m"
  shows "a = b"
proof -
  have "m dvd b - a"
    using assms(1,2) by (metis mod_eq_dvd_iff_nat)
  moreover have "b - a < m"
    using assms(2,3) by simp
  ultimately have "b - a = 0"
    by (metis dvd_imp_le gr0I not_less)
  with assms(2) show ?thesis by simp
qed

lemma ring_index_inj: "a < M \<Longrightarrow> b < M \<Longrightarrow> (w + a) mod M = (w + b) mod M \<longleftrightarrow> a = b" for a b w M :: nat
proof
  assume "a < M" "b < M" "(w + a) mod M = (w + b) mod M"
  then show "a = b"
    using mod_inj_window[of "w + a" M "w + b"] mod_inj_window[of "w + b" M "w + a"]
    by (cases "a \<le> b") auto
qed simp

lemma mod_second_lap: "M \<le> x \<Longrightarrow> x < 2 * M \<Longrightarrow> x mod M = x - M" for x M :: nat
  by (simp add: le_mod_geq)

text \<open>The distance from position \<open>r\<close> to the position \<open>d\<close> further on, in a ring of \<open>M\<close> cells.\<close>

lemma ring_distance:
  fixes r d M :: nat
  assumes "r < M" and "d < M"
  shows "((r + d) mod M + M - r) mod M = d"
proof (cases "r + d < M")
  case True
  then show ?thesis using assms by (simp add: mod_second_lap)
next
  case False
  then show ?thesis using assms by (simp add: mod_second_lap)
qed

lemma mod_shift: "n \<le> k \<Longrightarrow> ((r + n) mod M + (k - n)) mod M = (r + k) mod M" for n k r M :: nat
  by (simp only: mod_add_left_eq) simp

lemma Suc_mod_wrap:
  fixes k m :: nat
  assumes "0 < m"
  shows "Suc k mod m = (if Suc (k mod m) = m then 0 else Suc (k mod m))"
  using mod_Suc[of k m] by simp

subsection \<open>Sums over the threads\<close>

lemma sum_upd: "j < n \<Longrightarrow> (\<Sum>i<n. (f(j := a)) i) + f j = (\<Sum>i<n. f i) + a" for f :: "nat \<Rightarrow> 'a :: comm_monoid_add"
proof -
  assume j: "j < n"
  have "(\<Sum>i<n. f i) = f j + sum f ({..<n} - {j})" using j by (intro sum.remove) auto
  moreover have "(\<Sum>i<n. (f(j := a)) i) = a + sum (f(j := a)) ({..<n} - {j})"
    using j by (subst sum.remove[of _ j]) auto
  moreover have "sum (f(j := a)) ({..<n} - {j}) = sum f ({..<n} - {j})" by (intro sum.cong) auto
  ultimately show ?thesis by (simp add: ac_simps)
qed

text \<open>Thread \<open>p\<close> of \<open>n\<close> moves to the local state \<open>c\<close>.\<close>

lemma sum_thread_upd:
  "p < n \<Longrightarrow> (\<Sum>q<n. w ((g(p := c)) q)) + w (g p) = (\<Sum>q<n. w (g q)) + w c" for p :: nat and w :: "'b \<Rightarrow> 'a :: comm_monoid_add"
  using sum_upd[of p n "\<lambda>q. w (g q)" "w c"] by (simp only: fun_upd_apply if_distrib[of w])

subsection \<open>Words\<close>

lemma unat_sub_le: "b \<le> a \<Longrightarrow> unat (a - b :: 'a::len word) = unat a - unat b"
  by (rule unat_sub)

lemma unat_sub_less: "b < a \<Longrightarrow> unat (a - b :: 'a::len word) = unat a - unat b"
  by (simp add: unat_sub_le)

lemma unat_add_fits:
  "unat a + unat b < 2 ^ LENGTH('a) \<Longrightarrow> unat (a + b :: 'a::len word) = unat a + unat b"
  by (simp add: unat_word_ariths)

lemma unat_less_2p: "unat (a :: 'a::len word) < 2 ^ LENGTH('a)"
  by (rule unsigned_less)

lemma unat_of_nat_fits: "n < 2 ^ LENGTH('a) \<Longrightarrow> unat (of_nat n :: 'a::len word) = n"
  by (simp add: unat_of_nat)

end
