(* ===== verification/Fifo.thy ===== *)
theory Fifo
  imports Prelude
begin

text \<open>
  The contract of a bounded first-in first-out byte channel, and what a client may conclude from
  it: over any session of enqueue and dequeue attempts, the accepted input equals the delivered
  output followed by what is still stored.
\<close>

datatype 'a fifo_op = Enq "'a list" | Deq nat

text \<open>A session: the input accepted, the output delivered and the final queue.\<close>

fun fifo_run ::
  "('q \<Rightarrow> 'a list \<Rightarrow> 'q option) \<Rightarrow> ('q \<Rightarrow> nat \<Rightarrow> ('a list \<times> 'q) option) \<Rightarrow>
     'q \<Rightarrow> 'a fifo_op list \<Rightarrow> 'a list \<times> 'a list \<times> 'q" where
  "fifo_run enq deq q [] = ([], [], q)"
| "fifo_run enq deq q (Enq xs # ops) =
     (case enq q xs of
        None \<Rightarrow> fifo_run enq deq q ops
      | Some q' \<Rightarrow> (case fifo_run enq deq q' ops of (ins, outs, r) \<Rightarrow> (xs @ ins, outs, r)))"
| "fifo_run enq deq q (Deq n # ops) =
     (case deq q n of
        None \<Rightarrow> fifo_run enq deq q ops
      | Some (ys, q') \<Rightarrow> (case fifo_run enq deq q' ops of (ins, outs, r) \<Rightarrow> (ins, ys @ outs, r)))"

locale bounded_fifo =
  fixes enq :: "'q \<Rightarrow> 'a list \<Rightarrow> 'q option"
    and deq :: "'q \<Rightarrow> nat \<Rightarrow> ('a list \<times> 'q) option"
    and cont :: "'q \<Rightarrow> 'a list"
    and cap :: "'q \<Rightarrow> nat"
    and ok :: "'q \<Rightarrow> bool"
  assumes ok_bound: "ok q \<Longrightarrow> length (cont q) \<le> cap q"
    and enq_accepts: "ok q \<Longrightarrow> enq q xs = None \<longleftrightarrow> cap q < length (cont q) + length xs"
    and enq_appends: "ok q \<Longrightarrow> enq q xs = Some q' \<Longrightarrow> ok q' \<and> cont q' = cont q @ xs \<and> cap q' = cap q"
    and deq_accepts: "ok q \<Longrightarrow> deq q n = None \<longleftrightarrow> length (cont q) < n"
    and deq_splits: "ok q \<Longrightarrow> deq q n = Some (ys, q') \<Longrightarrow>
           ok q' \<and> length ys = n \<and> cont q = ys @ cont q' \<and> cap q' = cap q"
begin

lemma session_stream:
  "ok q \<Longrightarrow> fifo_run enq deq q ops = (ins, outs, q') \<Longrightarrow>
     ok q' \<and> cont q @ ins = outs @ cont q' \<and> cap q' = cap q"
proof (induction ops arbitrary: q ins outs)
  case Nil
  then show ?case by simp
next
  case (Cons op ops)
  show ?case
  proof (cases op)
    case (Enq xs)
    show ?thesis
    proof (cases "enq q xs")
      case (Some p)
      then obtain ins' where "fifo_run enq deq p ops = (ins', outs, q')" "ins = xs @ ins'"
        using Cons.prems(2) Enq by (auto split: prod.splits)
      moreover note step = enq_appends[OF Cons.prems(1) Some]
      moreover have "ok p" using step by simp
      ultimately show ?thesis using Cons.IH[of p ins' outs] by simp
    next
      case None
      then have "fifo_run enq deq q ops = (ins, outs, q')"
        using Cons.prems(2) Enq by simp
      then show ?thesis using Cons.IH Cons.prems(1) by blast
    qed
  next
    case (Deq n)
    show ?thesis
    proof (cases "deq q n")
      case (Some r)
      then obtain ys p where r: "deq q n = Some (ys, p)" by (cases r) auto
      then obtain outs' where "fifo_run enq deq p ops = (ins, outs', q')" "outs = ys @ outs'"
        using Cons.prems(2) Deq by (auto split: prod.splits)
      moreover note step = deq_splits[OF Cons.prems(1) r]
      moreover have "ok p" using step by simp
      ultimately show ?thesis using Cons.IH[of p ins outs'] by simp
    next
      case None
      then have "fifo_run enq deq q ops = (ins, outs, q')"
        using Cons.prems(2) Deq by simp
      then show ?thesis using Cons.IH Cons.prems(1) by blast
    qed
  qed
qed

text \<open>What was enqueued into an empty queue comes out of it in one dequeue.\<close>

lemma enq_deq_roundtrip:
  assumes "ok q" and "cont q = []" and "length xs \<le> cap q"
  obtains q' q'' where "enq q xs = Some q'" and "deq q' (length xs) = Some (xs, q'')"
    and "cont q'' = []"
proof -
  obtain q' where q': "enq q xs = Some q'"
    using enq_accepts[of q xs] assms by (cases "enq q xs") auto
  then have c: "ok q'" "cont q' = xs"
    using enq_appends assms by auto
  obtain ys q'' where d: "deq q' (length xs) = Some (ys, q'')"
    using deq_accepts[of q' "length xs"] c by (cases "deq q' (length xs)") auto
  have "length ys = length xs \<and> cont q' = ys @ cont q''"
    using deq_splits[OF c(1) d] by blast
  then have "ys = xs \<and> cont q'' = []"
    unfolding c(2) by (metis append_Nil2 append_eq_append_conv)
  with q' d show thesis by (intro that[of q' q'']) simp_all
qed

end

end
