(* ===== verification/AtomicQueue.thy ===== *)
theory AtomicQueue
  imports Fifo
begin

text \<open>
  The single-producer single-consumer byte queue of \<open>src/atomic/one-to-one-queue.h\<close>: the
  header record, the three operations as sequential code over 64-bit words, the ring invariant,
  the abstraction to a list of bytes, and the refinement of each operation to a bounded FIFO.
\<close>

subsection \<open>State and operations\<close>

record atomic_queue =
  read_offset :: size_t
  write_offset :: size_t
  memory_size :: size_t
  queue_memory :: "byte list"  \<comment> \<open>the bytes that follow the 24-byte header\<close>

definition sizeof_atomic_queue :: size_t where
  "sizeof_atomic_queue = 24"

definition atomic_queue_init :: "byte list \<Rightarrow> size_t \<Rightarrow> atomic_queue option" where
  "atomic_queue_init buffer buffer_size =
     (if buffer_size < sizeof_atomic_queue then None
      else Some \<lparr>read_offset = 0, write_offset = 0,
                 memory_size = buffer_size - sizeof_atomic_queue,
                 queue_memory = drop (unat sizeof_atomic_queue) buffer\<rparr>)"

definition enq_free_space :: "size_t \<Rightarrow> size_t \<Rightarrow> size_t \<Rightarrow> size_t" where
  "enq_free_space msize r_off w_off = (r_off + msize - 1 - w_off) mod msize"

definition deq_available :: "size_t \<Rightarrow> size_t \<Rightarrow> size_t \<Rightarrow> size_t" where
  "deq_available msize w_off r_off = (w_off + msize - r_off) mod msize"

text \<open>The two \<open>memcpy\<close> calls of the enqueue: the new memory and the new write offset.\<close>

definition ring_put ::
  "byte list \<Rightarrow> size_t \<Rightarrow> size_t \<Rightarrow> byte list \<Rightarrow> size_t \<Rightarrow> c_error + (byte list \<times> size_t)" where
  "ring_put mem msize w_off data sz =
     (let right_free = msize - w_off in
      bindE
        (if right_free \<le> sz
         then bindE (mem_read data 0 (unat right_free)) (\<lambda>d.
              bindE (mem_write mem (unat w_off) d) (\<lambda>mem.
                Inr (mem, 0, drop (unat right_free) data, sz - right_free)))
         else Inr (mem, w_off, data, sz))
        (\<lambda>(mem, w_off, data, sz).
          bindE (mem_read data 0 (unat sz)) (\<lambda>d.
          bindE (mem_write mem (unat w_off) d) (\<lambda>mem.
            Inr (mem, w_off + sz)))))"

definition atomic_queue_try_enqueue ::
  "atomic_queue \<Rightarrow> byte list \<Rightarrow> size_t \<Rightarrow> c_error + (int \<times> atomic_queue)" where
  "atomic_queue_try_enqueue queue data sz =
     (if memory_size queue < sz then Inr (-1, queue)
      else if sz = 0 then Inr (0, queue)
      else
        let w_off = write_offset queue;
            r_off = read_offset queue;
            free_space = enq_free_space (memory_size queue) r_off w_off
        in if free_space < sz then Inr (-1, queue)
           else bindE (ring_put (queue_memory queue) (memory_size queue) w_off data sz)
                  (\<lambda>(mem, w_off).
                     Inr (0, queue\<lparr>queue_memory := mem, write_offset := w_off\<rparr>)))"

text \<open>
  The two \<open>memcpy\<close> calls of the dequeue: the caller's buffer afterwards and the new read
  offset.  \<open>d_off\<close> is how far the destination pointer has advanced.
\<close>

definition ring_get ::
  "byte list \<Rightarrow> size_t \<Rightarrow> size_t \<Rightarrow> byte list \<Rightarrow> size_t \<Rightarrow> c_error + (byte list \<times> size_t)" where
  "ring_get mem msize r_off data sz =
     (let right_free = msize - r_off in
      bindE
        (if right_free \<le> sz
         then bindE (mem_read mem (unat r_off) (unat right_free)) (\<lambda>d.
              bindE (mem_write data 0 d) (\<lambda>data.
                Inr (data, unat right_free, 0, sz - right_free)))
         else Inr (data, 0, r_off, sz))
        (\<lambda>(data, d_off, r_off, sz).
          bindE (mem_read mem (unat r_off) (unat sz)) (\<lambda>d.
          bindE (mem_write data d_off d) (\<lambda>data.
            Inr (data, r_off + sz)))))"

definition atomic_queue_try_dequeue ::
  "atomic_queue \<Rightarrow> byte list \<Rightarrow> size_t \<Rightarrow> c_error + (int \<times> byte list \<times> atomic_queue)" where
  "atomic_queue_try_dequeue queue data sz =
     (if memory_size queue < sz then Inr (-1, data, queue)
      else if sz = 0 then Inr (0, data, queue)
      else
        let w_off = write_offset queue;
            r_off = read_offset queue;
            available_data = deq_available (memory_size queue) w_off r_off
        in if available_data < sz then Inr (-1, data, queue)
           else bindE (ring_get (queue_memory queue) (memory_size queue) r_off data sz)
                  (\<lambda>(data, r_off). Inr (0, data, queue\<lparr>read_offset := r_off\<rparr>)))"

subsection \<open>Invariant and abstraction\<close>

text \<open>
  The buffer is at most half the address space, as every C object is, so that
  \<open>r_off + memory_size\<close> does not wrap.
\<close>

definition queue_ok :: "atomic_queue \<Rightarrow> bool" where
  "queue_ok q \<longleftrightarrow>
     length (queue_memory q) = unat (memory_size q) \<and> unat (memory_size q) \<le> 2 ^ 63 \<and>
     (if memory_size q = 0 then read_offset q = 0 \<and> write_offset q = 0
      else read_offset q < memory_size q \<and> write_offset q < memory_size q)"

definition stored :: "atomic_queue \<Rightarrow> nat" where
  "stored q = (unat (write_offset q) + unat (memory_size q) - unat (read_offset q))
                mod unat (memory_size q)"

definition contents :: "atomic_queue \<Rightarrow> byte list" where
  "contents q =
     map (\<lambda>k. queue_memory q ! ((unat (read_offset q) + k) mod unat (memory_size q)))
       [0..<stored q]"

definition capacity :: "atomic_queue \<Rightarrow> nat" where
  "capacity q = unat (memory_size q) - 1"

lemma length_contents [simp]: "length (contents q) = stored q"
  by (simp add: contents_def)

lemma stored_le_capacity: "queue_ok q \<Longrightarrow> stored q \<le> capacity q"
proof (cases "memory_size q = 0")
  case False
  then have "0 < unat (memory_size q)" by (simp add: unat_gt_0)
  then show ?thesis
    by (simp add: stored_def capacity_def less_Suc_eq_le[symmetric])
qed (auto simp: queue_ok_def stored_def capacity_def)


subsection \<open>The two copies, cell by cell\<close>

text \<open>
  \<open>ring_store m w s data mem\<close> is the memory after the first \<open>s\<close> bytes of \<open>data\<close> are stored
  from position \<open>w\<close> on, wrapping at \<open>m\<close>; \<open>ring_slice m r s mem\<close> are the \<open>s\<close> bytes from
  position \<open>r\<close> on.
\<close>

definition ring_store :: "nat \<Rightarrow> nat \<Rightarrow> nat \<Rightarrow> byte list \<Rightarrow> byte list \<Rightarrow> byte list" where
  "ring_store m w s data mem =
     (if m - w \<le> s
      then take (s - (m - w)) (drop (m - w) data) @
             drop (s - (m - w)) (take w mem @ take (m - w) data)
      else take w mem @ take s data @ drop (w + s) mem)"

definition ring_slice :: "nat \<Rightarrow> nat \<Rightarrow> nat \<Rightarrow> byte list \<Rightarrow> byte list" where
  "ring_slice m r s mem = map (\<lambda>k. mem ! ((r + k) mod m)) [0..<s]"

lemma ring_mod: "k < m \<Longrightarrow> w < m \<Longrightarrow> (w + k) mod m = (if w + k < m then w + k else w + k - m)"
  for k m w :: nat
  by (simp add: mod_if)

lemma length_ring_store [simp]:
  "w < m \<Longrightarrow> s \<le> m \<Longrightarrow> s \<le> length data \<Longrightarrow> length mem = m \<Longrightarrow> length (ring_store m w s data mem) = m"
  by (simp add: ring_store_def)

lemma nth_overlay: "length pre \<le> i \<Longrightarrow> i < length base \<Longrightarrow> (pre @ drop (length pre) base) ! i = base ! i"
  by (simp add: nth_append)

lemma nth_ring_store:
  assumes "w < m" "s \<le> m" "s \<le> length data" "length mem = m" "k < m"
  shows "ring_store m w s data mem ! ((w + k) mod m) =
           (if k < s then data ! k else mem ! ((w + k) mod m))"
proof (cases "w + k < m")
  case True
  show ?thesis
  proof (cases "m - w \<le> s")
    case wrap: True
    let ?pre = "take (s - (m - w)) (drop (m - w) data)" and ?base = "take w mem @ take (m - w) data"
    have "length ?pre = s - (m - w)" using assms by simp
    then have "ring_store m w s data mem ! (w + k) = ?base ! (w + k)"
      using nth_overlay[of ?pre "w + k" ?base] assms True wrap by (simp add: ring_store_def)
    moreover have "k < s" using True wrap by simp
    ultimately show ?thesis using assms True by (simp add: nth_append)
  qed (use assms True in \<open>simp add: ring_store_def nth_append\<close>)
next
  case False
  then have "(w + k) mod m = w + k - m"
    using assms by (simp add: ring_mod)
  then show ?thesis
    using assms False by (auto simp: ring_store_def nth_append)
qed

lemma length_ring_slice [simp]: "length (ring_slice m r s mem) = s"
  by (simp add: ring_slice_def)

lemma ring_slice_flat: "r + s \<le> m \<Longrightarrow> length mem = m \<Longrightarrow> ring_slice m r s mem = take s (drop r mem)"
  by (rule nth_equalityI) (auto simp: ring_slice_def)

lemma ring_slice_wrap:
  assumes "r < m" "s \<le> m" "m - r \<le> s" "length mem = m"
  shows "ring_slice m r s mem = drop r mem @ take (s - (m - r)) mem"
  using assms
  by (intro nth_equalityI) (auto simp: ring_slice_def nth_append ring_mod add.commute)

text \<open>Storing after the \<open>n\<close> bytes from \<open>r\<close> on appends; reading from further on drops.\<close>

lemma ring_slice_store:
  assumes b: "r < M" "length mem = M" "n + s < M" "s \<le> length data"
  shows "ring_slice M r (n + s) (ring_store M ((r + n) mod M) s data mem) =
           ring_slice M r n mem @ take s data"
proof (rule nth_equalityI)
  define w where "w = (r + n) mod M"
  show "length (ring_slice M r (n + s) (ring_store M ((r + n) mod M) s data mem)) =
          length (ring_slice M r n mem @ take s data)"
    using b by simp
  fix k assume "k < length (ring_slice M r (n + s) (ring_store M ((r + n) mod M) s data mem))"
  then have k: "k < n + s" by simp
  have st: "ring_store M w s data mem ! ((w + j) mod M) =
      (if j < s then data ! j else mem ! ((w + j) mod M))" if "j < M" for j
    using nth_ring_store[of w M s data mem j] b that by (simp add: w_def)
  have "ring_store M w s data mem ! ((r + k) mod M) = (ring_slice M r n mem @ take s data) ! k"
  proof (cases "k < n")
    case True
    have "r + n + (M - n + k) = r + k + M" using b by simp
    then have "(w + (M - n + k)) mod M = (r + k) mod M"
      unfolding w_def by (metis mod_add_left_eq mod_add_self2)
    moreover have "M - n + k < M" "\<not> M - n + k < s" using True b by simp_all
    ultimately have "ring_store M w s data mem ! ((r + k) mod M) = mem ! ((r + k) mod M)"
      using st[of "M - n + k"] by presburger
    then show ?thesis
      using True b by (simp add: nth_append ring_slice_def)
  next
    case False
    then have "(w + (k - n)) mod M = (r + k) mod M"
      unfolding w_def by (intro mod_shift) simp
    moreover have "k - n < M" "k - n < s" using False k b by simp_all
    ultimately have "ring_store M w s data mem ! ((r + k) mod M) = data ! (k - n)"
      using st[of "k - n"] by presburger
    then show ?thesis
      using False k b by (simp add: nth_append)
  qed
  then show "ring_slice M r (n + s) (ring_store M ((r + n) mod M) s data mem) ! k =
               (ring_slice M r n mem @ take s data) ! k"
    using k by (simp add: ring_slice_def w_def)
qed

lemma ring_slice_drop:
  "s \<le> n \<Longrightarrow> ring_slice M ((r + s) mod M) (n - s) mem = drop s (ring_slice M r n mem)"
  by (rule nth_equalityI) (auto simp: ring_slice_def mod_add_left_eq add.assoc)

lemma ring_slice_take: "s \<le> n \<Longrightarrow> ring_slice M r s mem = take s (ring_slice M r n mem)"
  by (rule nth_equalityI) (auto simp: ring_slice_def)

lemma ring_put_eq:
  assumes len: "length mem = unat msize" and w: "w_off < msize"
    and fits: "sz \<le> msize" and src: "unat sz \<le> length data"
  obtains w' where "unat w' = (unat w_off + unat sz) mod unat msize"
    and "ring_put mem msize w_off data sz =
           Inr (ring_store (unat msize) (unat w_off) (unat sz) data mem, w')"
proof -
  define m w s where "m = unat msize" and "w = unat w_off" and "s = unat sz"
  note mws = m_def[symmetric] w_def[symmetric] s_def[symmetric]
  have lt: "w < m" "s \<le> m" "s \<le> length data" "length mem = m" "m < 2 ^ 64"
    using assms unat_less_2p[of msize] by (simp_all add: mws word_less_nat_alt word_le_nat_alt)
  have rf: "unat (msize - w_off) = m - w" "msize - w_off \<le> sz \<longleftrightarrow> m - w \<le> s"
    using w by (simp_all add: m_def w_def s_def unat_sub_less word_le_nat_alt)
  show thesis
  proof (cases "m - w \<le> s")
    case True
    have rest: "unat (sz - (msize - w_off)) = s - (m - w)"
      using True rf by (simp add: s_def unat_sub word_le_nat_alt)
    have "(w + s) mod m = s - (m - w)"
      using True lt by (simp add: le_mod_geq)
    with rest lt True rf show thesis
      by (intro that[of "sz - (msize - w_off)"]) (simp_all add: ring_put_def ring_store_def mws)
  next
    case False
    have "unat (w_off + sz) = (w + s) mod m"
      using False lt by (simp add: unat_add_fits mws)
    with lt False rf show thesis
      by (intro that[of "w_off + sz"]) (simp_all add: ring_put_def ring_store_def mws min_absorb2)
  qed
qed

lemma ring_get_eq:
  assumes len: "length mem = unat msize" and r: "r_off < msize"
    and fits: "sz \<le> msize" and dst: "unat sz \<le> length data"
  obtains r' where "unat r' = (unat r_off + unat sz) mod unat msize"
    and "ring_get mem msize r_off data sz =
           Inr (ring_slice (unat msize) (unat r_off) (unat sz) mem @ drop (unat sz) data, r')"
proof -
  define m r s where "m = unat msize" and "r = unat r_off" and "s = unat sz"
  note mrs = m_def[symmetric] r_def[symmetric] s_def[symmetric]
  have lt: "r < m" "s \<le> m" "s \<le> length data" "length mem = m" "m < 2 ^ 64"
    using assms unat_less_2p[of msize] by (simp_all add: mrs word_less_nat_alt word_le_nat_alt)
  have rf: "unat (msize - r_off) = m - r" "msize - r_off \<le> sz \<longleftrightarrow> m - r \<le> s"
    using r by (simp_all add: m_def r_def s_def unat_sub_less word_le_nat_alt)
  show thesis
  proof (cases "m - r \<le> s")
    case True
    have rest: "unat (sz - (msize - r_off)) = s - (m - r)"
      using True rf by (simp add: s_def unat_sub word_le_nat_alt)
    have "(r + s) mod m = s - (m - r)"
      using True lt by (simp add: le_mod_geq)
    with rest lt True rf show thesis
      by (intro that[of "sz - (msize - r_off)"])
        (simp_all add: ring_get_def ring_slice_wrap mrs)
  next
    case False
    have "unat (r_off + sz) = (r + s) mod m"
      using False lt by (simp add: unat_add_fits mrs)
    with lt False rf show thesis
      by (intro that[of "r_off + sz"]) (simp_all add: ring_get_def ring_slice_flat mrs)
  qed
qed

subsection \<open>The operations refine a bounded FIFO\<close>

lemma contents_slice:
  "contents q = ring_slice (unat (memory_size q)) (unat (read_offset q)) (stored q) (queue_memory q)"
  by (simp add: contents_def ring_slice_def)

lemma stored_cases:
  assumes "queue_ok q" and "memory_size q \<noteq> 0"
  shows "stored q =
    (if read_offset q \<le> write_offset q then unat (write_offset q) - unat (read_offset q)
     else unat (write_offset q) + unat (memory_size q) - unat (read_offset q))"
  using assms
  by (auto simp: stored_def queue_ok_def word_le_nat_alt word_less_nat_alt mod_if)

lemma free_space_eq:
  assumes ok: "queue_ok q" and m: "memory_size q \<noteq> 0"
  shows "unat (enq_free_space (memory_size q) (read_offset q) (write_offset q)) =
           capacity q - stored q"
proof -
  define m r w where "m = unat (memory_size q)" and "r = unat (read_offset q)"
    and "w = unat (write_offset q)"
  have b: "r < m" "w < m" "m \<le> 2 ^ 63" "0 < m"
    using assms by (auto simp: queue_ok_def word_less_nat_alt m_def r_def w_def)
  have "unat (read_offset q + memory_size q) = r + m"
    using b by (simp add: unat_add_fits m_def r_def)
  then have "unat (read_offset q + memory_size q - 1) = r + m - 1"
    using b by (simp add: unat_sub_le word_le_nat_alt)
  then have "unat (read_offset q + memory_size q - 1 - write_offset q) = r + m - 1 - w"
    using b by (simp add: unat_sub_le word_le_nat_alt w_def)
  then have "unat (enq_free_space (memory_size q) (read_offset q) (write_offset q)) =
      (r + m - 1 - w) mod m"
    by (simp add: enq_free_space_def unat_mod m_def)
  moreover have "stored q = (if r \<le> w then w - r else w + m - r)"
    using stored_cases[OF assms] by (simp add: word_le_nat_alt m_def r_def w_def)
  ultimately show ?thesis
    using b by (auto simp: capacity_def m_def[symmetric] mod_if)
qed

lemma available_eq:
  assumes ok: "queue_ok q" and m: "memory_size q \<noteq> 0"
  shows "unat (deq_available (memory_size q) (write_offset q) (read_offset q)) = stored q"
proof -
  define m r w where "m = unat (memory_size q)" and "r = unat (read_offset q)"
    and "w = unat (write_offset q)"
  have b: "r < m" "w < m" "m \<le> 2 ^ 63"
    using assms by (auto simp: queue_ok_def word_less_nat_alt m_def r_def w_def)
  have "unat (write_offset q + memory_size q) = w + m"
    using b by (simp add: unat_add_fits m_def w_def)
  then have "unat (write_offset q + memory_size q - read_offset q) = w + m - r"
    using b by (simp add: unat_sub_le word_le_nat_alt r_def)
  then show ?thesis
    by (simp add: deq_available_def unat_mod stored_def m_def r_def w_def)
qed

lemma write_offset_eq:
  assumes "queue_ok q" and "memory_size q \<noteq> 0"
  shows "unat (write_offset q) = (unat (read_offset q) + stored q) mod unat (memory_size q)"
  using assms stored_cases[OF assms]
  by (auto simp: queue_ok_def word_le_nat_alt word_less_nat_alt mod_second_lap)

lemma offset_reduced: "0 < unat (memory_size q) \<Longrightarrow> unat x = y mod unat (memory_size q) \<Longrightarrow> x < memory_size q"
  by (simp add: word_less_nat_alt)

lemma try_enqueue_refines:
  assumes ok: "queue_ok q" and src: "unat sz \<le> length data"
  shows "if stored q + unat sz \<le> capacity q
         then \<exists>q'. atomic_queue_try_enqueue q data sz = Inr (0, q') \<and> queue_ok q' \<and>
                contents q' = contents q @ take (unat sz) data \<and>
                memory_size q' = memory_size q \<and> read_offset q' = read_offset q
         else atomic_queue_try_enqueue q data sz = Inr (-1, q)"
proof (cases "memory_size q < sz \<or> sz = 0")
  case True
  then show ?thesis
    using ok stored_le_capacity[OF ok]
    by (auto simp: atomic_queue_try_enqueue_def capacity_def word_less_nat_alt)
next
  case False
  then have m: "memory_size q \<noteq> 0" "sz \<le> memory_size q" "0 < unat sz"
    by (auto simp: not_less unat_gt_0)
  let ?M = "unat (memory_size q)" and ?w = "unat (write_offset q)" and ?s = "unat sz"
  have len: "length (queue_memory q) = ?M" and off: "write_offset q < memory_size q"
    "unat (read_offset q) < ?M"
    using ok m by (auto simp: queue_ok_def word_less_nat_alt)
  obtain w' where w': "unat w' = (?w + ?s) mod ?M"
    and put: "ring_put (queue_memory q) (memory_size q) (write_offset q) data sz =
                Inr (ring_store ?M ?w ?s data (queue_memory q), w')"
    by (rule ring_put_eq[OF len off(1) m(2) src])
  let ?q = "q\<lparr>queue_memory := ring_store ?M ?w ?s data (queue_memory q), write_offset := w'\<rparr>"
  have run: "atomic_queue_try_enqueue q data sz =
      (if capacity q - stored q < ?s then Inr (-1, q) else Inr (0, ?q))"
    using False put by (simp add: atomic_queue_try_enqueue_def word_less_nat_alt free_space_eq[OF ok m(1)])
  show ?thesis
  proof (cases "stored q + ?s \<le> capacity q")
    case True
    moreover have "0 < ?M" using m by (simp add: unat_gt_0)
    ultimately have fit: "stored q + ?s < ?M" unfolding capacity_def by linarith
    have w'r: "unat w' = (unat (read_offset q) + (stored q + ?s)) mod ?M"
      unfolding w' write_offset_eq[OF ok m(1)] by (simp add: mod_add_left_eq add.assoc)
    have "stored ?q = stored q + ?s"
      using ring_distance[OF off(2) fit] w'r by (simp add: stored_def)
    then have "contents ?q = contents q @ take ?s data"
      using ring_slice_store[OF off(2) len fit src] write_offset_eq[OF ok m(1)]
      by (simp add: contents_slice)
    moreover have "queue_ok ?q"
      using ok m src len off w' word_le_nat_alt[of sz "memory_size q"] offset_reduced[OF _ w']
      by (auto simp: queue_ok_def word_less_nat_alt)
    ultimately show ?thesis using True run by auto
  next
    case False
    then show ?thesis using run stored_le_capacity[OF ok] by auto
  qed
qed

lemma try_dequeue_refines:
  assumes ok: "queue_ok q" and dst: "unat sz \<le> length data"
  shows "if unat sz \<le> stored q
         then \<exists>q'. atomic_queue_try_dequeue q data sz =
                  Inr (0, take (unat sz) (contents q) @ drop (unat sz) data, q') \<and> queue_ok q' \<and>
                contents q' = drop (unat sz) (contents q) \<and>
                queue_memory q' = queue_memory q \<and> memory_size q' = memory_size q \<and>
                write_offset q' = write_offset q
         else atomic_queue_try_dequeue q data sz = Inr (-1, data, q)"
proof (cases "memory_size q < sz \<or> sz = 0")
  case True
  then show ?thesis
    using ok stored_le_capacity[OF ok]
    by (auto simp: atomic_queue_try_dequeue_def capacity_def word_less_nat_alt)
next
  case False
  then have m: "memory_size q \<noteq> 0" "sz \<le> memory_size q" "0 < unat sz"
    by (auto simp: not_less unat_gt_0)
  let ?M = "unat (memory_size q)" and ?r = "unat (read_offset q)" and ?s = "unat sz"
  have len: "length (queue_memory q) = ?M" and off: "read_offset q < memory_size q" "?r < ?M"
    using ok m by (auto simp: queue_ok_def word_less_nat_alt)
  obtain r' where r': "unat r' = (?r + ?s) mod ?M"
    and get: "ring_get (queue_memory q) (memory_size q) (read_offset q) data sz =
                Inr (ring_slice ?M ?r ?s (queue_memory q) @ drop ?s data, r')"
    by (rule ring_get_eq[OF len off(1) m(2) dst])
  let ?q = "q\<lparr>read_offset := r'\<rparr>"
  have run: "atomic_queue_try_dequeue q data sz =
      (if stored q < ?s then Inr (-1, data, q)
       else Inr (0, ring_slice ?M ?r ?s (queue_memory q) @ drop ?s data, ?q))"
    using False get by (simp add: atomic_queue_try_dequeue_def word_less_nat_alt available_eq[OF ok m(1)])
  show ?thesis
  proof (cases "?s \<le> stored q")
    case True
    have less: "stored q < ?M"
      using stored_le_capacity[OF ok] off(2) by (simp add: capacity_def)
    have "unat (write_offset q) = (unat r' + (stored q - ?s)) mod ?M"
      using write_offset_eq[OF ok m(1)] unfolding r' mod_shift[OF True] .
    then have "stored ?q = stored q - ?s"
      using ring_distance[of "unat r'" ?M "stored q - ?s"] r' less by (simp add: stored_def)
    then have "contents ?q = drop ?s (contents q)"
      using ring_slice_drop[OF True] r' by (simp add: contents_slice)
    moreover have "queue_ok ?q"
      using ok m offset_reduced[OF _ r'] by (simp add: queue_ok_def unat_gt_0)
    moreover have "ring_slice ?M ?r ?s (queue_memory q) = take ?s (contents q)"
      using ring_slice_take[OF True] by (simp add: contents_slice)
    ultimately show ?thesis using True run by simp
  next
    case False
    then show ?thesis using run by simp
  qed
qed

text \<open>A fresh queue is empty and holds one byte less than its memory.\<close>

lemma atomic_queue_init_ok:
  assumes "length buffer = unat n" and "sizeof_atomic_queue \<le> n" and "unat n \<le> 2 ^ 63"
  obtains q where "atomic_queue_init buffer n = Some q" and "queue_ok q" and "contents q = []"
    and "capacity q = unat n - 25"
proof -
  let ?q = "\<lparr>read_offset = 0, write_offset = 0, memory_size = n - 24, queue_memory = drop 24 buffer\<rparr>"
  have sz: "unat (n - 24) = unat n - 24"
    using assms(2) by (simp add: sizeof_atomic_queue_def unat_sub_le)
  have "atomic_queue_init buffer n = Some ?q"
    using assms by (simp add: atomic_queue_init_def sizeof_atomic_queue_def)
  moreover have "queue_ok ?q"
    using assms sz by (auto simp: queue_ok_def word_neq_0_conv[symmetric])
  ultimately show thesis
    using sz by (intro that[of ?q]) (simp_all add: contents_def stored_def capacity_def)
qed

subsection \<open>The queue as a bounded FIFO\<close>

text \<open>The calls as a client makes them: a whole message, respectively a buffer of \<open>n\<close> bytes.\<close>

definition client_enqueue :: "atomic_queue \<Rightarrow> byte list \<Rightarrow> atomic_queue option" where
  "client_enqueue q xs =
     (if 2 ^ 64 \<le> length xs then None
      else case atomic_queue_try_enqueue q xs (of_nat (length xs)) of
          Inr (r, q') \<Rightarrow> if r = 0 then Some q' else None
        | Inl _ \<Rightarrow> None)"

definition client_dequeue :: "atomic_queue \<Rightarrow> nat \<Rightarrow> (byte list \<times> atomic_queue) option" where
  "client_dequeue q n =
     (if 2 ^ 64 \<le> n then None
      else case atomic_queue_try_dequeue q (replicate n 0) (of_nat n) of
          Inr (r, d, q') \<Rightarrow> if r = 0 then Some (d, q') else None
        | Inl _ \<Rightarrow> None)"

lemma capacity_small: "capacity q < 2 ^ 64"
  using unat_less_2p[of "memory_size q"] by (simp add: capacity_def)

lemma client_enqueue_cases:
  assumes "queue_ok q"
  shows "if stored q + length xs \<le> capacity q
         then \<exists>q'. client_enqueue q xs = Some q' \<and> queue_ok q' \<and> contents q' = contents q @ xs \<and>
                capacity q' = capacity q
         else client_enqueue q xs = None"
proof (cases "length xs < 2 ^ 64")
  case True
  then have "unat (of_nat (length xs) :: size_t) = length xs"
    by (intro unat_of_nat_fits) simp
  then show ?thesis
    using True try_enqueue_refines[OF assms, of "of_nat (length xs)" xs]
    by (auto simp: client_enqueue_def capacity_def)
next
  case False
  then show ?thesis using capacity_small[of q] by (auto simp: client_enqueue_def)
qed

lemma client_dequeue_cases:
  assumes "queue_ok q"
  shows "if n \<le> stored q
         then \<exists>q'. client_dequeue q n = Some (take n (contents q), q') \<and> queue_ok q' \<and>
                contents q' = drop n (contents q) \<and> capacity q' = capacity q
         else client_dequeue q n = None"
proof (cases "n < 2 ^ 64")
  case True
  then have "unat (of_nat n :: size_t) = n"
    by (intro unat_of_nat_fits) simp
  then show ?thesis
    using True try_dequeue_refines[OF assms, of "of_nat n" "replicate n 0"]
    by (auto simp: client_dequeue_def capacity_def)
next
  case False
  then show ?thesis
    using capacity_small[of q] stored_le_capacity[OF assms] by (auto simp: client_dequeue_def)
qed

interpretation byte_queue: bounded_fifo client_enqueue client_dequeue contents capacity queue_ok
proof unfold_locales
  fix q q' :: atomic_queue and xs ys :: "byte list" and n :: nat
  assume ok: "queue_ok q"
  show "length (contents q) \<le> capacity q"
    using stored_le_capacity[OF ok] by simp
  show "client_enqueue q xs = None \<longleftrightarrow> capacity q < length (contents q) + length xs"
    using client_enqueue_cases[OF ok, of xs] by (auto split: if_splits)
  show "client_dequeue q n = None \<longleftrightarrow> length (contents q) < n"
    using client_dequeue_cases[OF ok, of n] by (auto split: if_splits)
  show "client_enqueue q xs = Some q' \<Longrightarrow>
      queue_ok q' \<and> contents q' = contents q @ xs \<and> capacity q' = capacity q"
    using client_enqueue_cases[OF ok, of xs] by (auto split: if_splits)
  show "client_dequeue q n = Some (ys, q') \<Longrightarrow>
      queue_ok q' \<and> length ys = n \<and> contents q = ys @ contents q' \<and> capacity q' = capacity q"
    using client_dequeue_cases[OF ok, of n] by (auto split: if_splits)
qed

subsection \<open>Properties\<close>

text \<open>
  C4. On a well-formed queue \<open>atomic_queue_try_enqueue\<close> never leaves its buffers.  It returns 0
  exactly when the message fits beside what is stored, one byte of the ring staying unused, and
  then appends the whole message; otherwise it returns -1 and changes nothing.
\<close>

theorem enqueue_refines_append:
  assumes "queue_ok q" and "unat n \<le> length data"
  shows "(atomic_queue_try_enqueue q data n = Inr (-1, q) \<and> capacity q < length (contents q) + unat n) \<or>
    (\<exists>q'. atomic_queue_try_enqueue q data n = Inr (0, q') \<and> queue_ok q' \<and>
       contents q' = contents q @ take (unat n) data \<and> length (contents q') \<le> capacity q \<and>
       capacity q' = capacity q)"
proof (cases "stored q + unat n \<le> capacity q")
  case True
  then obtain q' where "atomic_queue_try_enqueue q data n = Inr (0, q')" "queue_ok q'"
    and c: "contents q' = contents q @ take (unat n) data" "memory_size q' = memory_size q"
    using try_enqueue_refines[OF assms] by auto
  moreover have "stored q' = stored q + unat n"
    using arg_cong[OF c(1), of length] assms(2) by simp
  ultimately show ?thesis using True by (auto simp: capacity_def)
next
  case False
  then show ?thesis using try_enqueue_refines[OF assms] by simp
qed

theorem enqueue_refines_append_witness:
  "\<exists>q'. atomic_queue_try_enqueue
       \<lparr>read_offset = 2, write_offset = 3, memory_size = 4, queue_memory = [7, 0, 6, 5]\<rparr> [9, 8] 2 =
         Inr (0, q') \<and> contents q' = [6, 9, 8]"
  using enqueue_refines_append
    [of "\<lparr>read_offset = 2, write_offset = 3, memory_size = 4, queue_memory = [7, 0, 6, 5]\<rparr>" 2 "[9, 8]"]
  by (auto simp: queue_ok_def contents_def stored_def capacity_def)

text \<open>
  C5. On a well-formed queue \<open>atomic_queue_try_dequeue\<close> returns 0 exactly when \<open>n\<close> bytes are stored;
  it then moves the oldest \<open>n\<close> bytes into the first \<open>n\<close> cells of the caller's buffer, leaves the
  rest of that buffer alone, and keeps the remaining bytes in order.  Otherwise it returns -1 and
  changes neither the buffer nor the queue.
\<close>

theorem dequeue_refines_split:
  assumes "queue_ok q" and "unat n \<le> length data"
  shows "(atomic_queue_try_dequeue q data n = Inr (-1, data, q) \<and> length (contents q) < unat n) \<or>
    (\<exists>q' out. atomic_queue_try_dequeue q data n = Inr (0, out @ drop (unat n) data, q') \<and>
       queue_ok q' \<and> length out = unat n \<and> contents q = out @ contents q' \<and> capacity q' = capacity q)"
proof (cases "unat n \<le> stored q")
  case True
  then obtain q' where "atomic_queue_try_dequeue q data n =
      Inr (0, take (unat n) (contents q) @ drop (unat n) data, q')" "queue_ok q'"
    "contents q' = drop (unat n) (contents q)" "memory_size q' = memory_size q"
    using try_dequeue_refines[OF assms] by auto
  then show ?thesis using True
    by (intro disjI2 exI[of _ q'] exI[of _ "take (unat n) (contents q)"]) (simp add: capacity_def)
next
  case False
  then show ?thesis using try_dequeue_refines[OF assms] by simp
qed

theorem dequeue_refines_split_witness:
  "\<exists>q'. atomic_queue_try_dequeue
       \<lparr>read_offset = 3, write_offset = 1, memory_size = 4, queue_memory = [7, 0, 6, 5]\<rparr> [1, 1, 1] 2 =
         Inr (0, [5, 7, 1], q') \<and> contents q' = []"
proof -
  let ?q = "\<lparr>read_offset = 3, write_offset = 1, memory_size = 4, queue_memory = [7, 0, 6, 5]\<rparr> :: atomic_queue"
  have "contents ?q = [5, 7]" by code_simp
  moreover have "queue_ok ?q" by (simp add: queue_ok_def)
  ultimately obtain q' out where run: "atomic_queue_try_dequeue ?q [1, 1, 1] 2 = Inr (0, out @ [1], q')"
    and out: "length out = 2" "[5, 7] = out @ contents q'"
    using dequeue_refines_split[of ?q 2 "[1, 1, 1]"] by auto
  have "out @ contents q' = [5, 7] @ []" "length out = length [5, 7 :: byte]"
    unfolding append_Nil2 by (rule out(2)[symmetric]) (simp add: out(1))
  then have "out = [5, 7] \<and> contents q' = []"
    by (metis append_eq_append_conv)
  with run show ?thesis by auto
qed

text \<open>
  Over any session of enqueues and dequeues on a freshly initialised queue, rejected calls
  included, the accepted messages are exactly the delivered bytes followed by the bytes still
  stored.
\<close>

theorem session_preserves_stream:
  assumes "length buffer = unat n" and "unat n \<le> 2 ^ 63" and "atomic_queue_init buffer n = Some q"
    and "fifo_run client_enqueue client_dequeue q ops = (ins, outs, q')"
  shows "ins = outs @ contents q' \<and> length (contents q') \<le> unat n - 25"
proof -
  have n: "sizeof_atomic_queue \<le> n"
    using assms(3) by (simp add: atomic_queue_init_def not_less split: if_splits)
  obtain p where p: "atomic_queue_init buffer n = Some p" "queue_ok p" "contents p = []"
    "capacity p = unat n - 25"
    by (rule atomic_queue_init_ok[OF assms(1) n assms(2)])
  have "queue_ok q' \<and> contents p @ ins = outs @ contents q' \<and> capacity q' = capacity p"
    using byte_queue.session_stream p(1,2) assms(3,4) by auto
  then show ?thesis
    using p byte_queue.ok_bound[of q'] by simp
qed

theorem session_preserves_stream_witness:
  "\<exists>q'. fifo_run client_enqueue client_dequeue
      \<lparr>read_offset = 0, write_offset = 0, memory_size = 4, queue_memory = [0, 0, 0, 0]\<rparr>
      [Enq [1, 2], Deq 2, Enq [3, 4, 5], Enq [6, 7], Deq 2] = ([1, 2, 3, 4, 5], [1, 2, 3, 4], q') \<and>
     [1, 2, 3, 4, 5] = [1, 2, 3, 4] @ contents q'"
proof -
  let ?q = "\<lparr>read_offset = 0, write_offset = 0, memory_size = 4, queue_memory = [0, 0, 0, 0]\<rparr> :: atomic_queue"
  let ?ops = "[Enq [1, 2], Deq 2, Enq [3, 4, 5], Enq [6, 7], Deq 2] :: byte fifo_op list"
  have "drop 24 (replicate 28 (0 :: byte)) = [0, 0, 0, 0]" by code_simp
  then have init: "atomic_queue_init (replicate 28 0) 28 = Some ?q"
    by (simp add: atomic_queue_init_def sizeof_atomic_queue_def)
  have "\<exists>q'. fifo_run client_enqueue client_dequeue ?q ?ops = ([1, 2, 3, 4, 5], [1, 2, 3, 4], q')"
    by (simp add: client_enqueue_def client_dequeue_def atomic_queue_try_enqueue_def
        atomic_queue_try_dequeue_def enq_free_space_def deq_available_def ring_put_def ring_get_def)
  then obtain q' where run: "fifo_run client_enqueue client_dequeue ?q ?ops = ([1, 2, 3, 4, 5], [1, 2, 3, 4], q')"
    by blast
  show ?thesis
    using session_preserves_stream[OF _ _ init run] run by auto
qed

end
