(* ===== verification/Transition.thy ===== *)
theory Transition
  imports Prelude
begin

text \<open>
  Transition systems: the reachable states of a step relation, the locale that turns an
  inductive invariant into a fact about every reachable state, and its extension by a
  decreasing measure, under which every execution is finite and ends in a state without
  successor.  Each concurrent component interprets one of the two locales on its own step
  relation.
\<close>

inductive reachable :: "('s \<Rightarrow> bool) \<Rightarrow> ('s \<Rightarrow> 's \<Rightarrow> bool) \<Rightarrow> 's \<Rightarrow> bool"
  for init :: "'s \<Rightarrow> bool" and step :: "'s \<Rightarrow> 's \<Rightarrow> bool" where
  reach_init: "init s \<Longrightarrow> reachable init step s"
| reach_step: "reachable init step s \<Longrightarrow> step s t \<Longrightarrow> reachable init step t"

lemma reachable_steps: "reachable init step s \<Longrightarrow> step\<^sup>*\<^sup>* s t \<Longrightarrow> reachable init step t"
  by (rotate_tac 1, induction rule: rtranclp_induct) (auto intro: reach_step)

definition stuck :: "('s \<Rightarrow> 's \<Rightarrow> bool) \<Rightarrow> 's \<Rightarrow> bool" where
  "stuck step s \<longleftrightarrow> (\<forall>t. \<not> step s t)"

locale transition_system =
  fixes init :: "'s \<Rightarrow> bool"
    and step :: "'s \<Rightarrow> 's \<Rightarrow> bool"
    and inv :: "'s \<Rightarrow> bool"
  assumes inv_init: "init s \<Longrightarrow> inv s"
    and inv_step: "inv s \<Longrightarrow> step s t \<Longrightarrow> inv t"
begin

lemma inv_reachable: "reachable init step s \<Longrightarrow> inv s"
  by (induction rule: reachable.induct) (auto intro: inv_init inv_step)

lemma inv_steps: "step\<^sup>*\<^sup>* s t \<Longrightarrow> inv s \<Longrightarrow> inv t"
  by (induction rule: rtranclp_induct) (auto intro: inv_step)

end

locale terminating_system = transition_system init step inv
  for init :: "'s \<Rightarrow> bool" and step :: "'s \<Rightarrow> 's \<Rightarrow> bool" and inv :: "'s \<Rightarrow> bool" +
  fixes mu :: "'s \<Rightarrow> nat"
  assumes mu_step: "inv s \<Longrightarrow> step s t \<Longrightarrow> mu t < mu s"
begin

text \<open>An execution of \<open>n\<close> steps uses up at least \<open>n\<close> units of the measure.\<close>

lemma run_length_bound: "(step ^^ n) s t \<Longrightarrow> inv s \<Longrightarrow> n + mu t \<le> mu s"
proof (induction n arbitrary: t)
  case 0
  then show ?case by simp
next
  case (Suc n)
  then obtain u where u: "(step ^^ n) s u" "step u t"
    by auto
  have "inv u"
    using u(1) Suc.prems(2) inv_steps relpowp_imp_rtranclp by metis
  then have "mu t < mu u" using u(2) by (rule mu_step)
  moreover have "n + mu u \<le> mu s"
    using Suc.IH u(1) Suc.prems(2) by blast
  ultimately show ?case by simp
qed

lemma reaches_stuck: "inv s \<Longrightarrow> \<exists>t. step\<^sup>*\<^sup>* s t \<and> stuck step t"
proof (induction "mu s" arbitrary: s rule: less_induct)
  case less
  show ?case
  proof (cases "stuck step s")
    case True
    then show ?thesis by blast
  next
    case False
    then obtain t where t: "step s t" by (auto simp: stuck_def)
    have "mu t < mu s" "inv t"
      using less.prems t by (auto intro: mu_step inv_step)
    then obtain u where "step\<^sup>*\<^sup>* t u \<and> stuck step u"
      using less.hyps by blast
    with t show ?thesis
      by (meson converse_rtranclp_into_rtranclp)
  qed
qed

end

end
