(* ===== verification/SpscQueue.thy ===== *)
theory SpscQueue
  imports AtomicQueue Transition
begin

text \<open>
  The same queue with its two sides running concurrently.  Each side's code is split at its
  shared-memory accesses: the load of the other side's offset with the space check, every byte
  of the \<open>memcpy\<close>s, and the releasing store of its own offset.  The steps of the two sides
  interleave arbitrarily (sequentially consistent interleaving of single-byte accesses).
  \<open>sent\<close> and \<open>got\<close> are history variables: the bytes of the completed enqueues and dequeues.
\<close>

datatype producer_pc =
    PIdle
  | PCopy size_t "byte list" "byte list"  \<comment> \<open>next position, bytes to copy, whole message\<close>

datatype consumer_pc =
    CIdle
  | CCopy size_t nat "byte list"  \<comment> \<open>next position, number of bytes to copy, bytes copied\<close>

record spsc =
  queue :: atomic_queue
  producer :: producer_pc
  consumer :: consumer_pc
  sent :: "byte list"
  got :: "byte list"

text \<open>The position after \<open>p\<close>: the second \<open>memcpy\<close> starts at 0 once \<open>right_free\<close> bytes are copied.\<close>

definition advance :: "atomic_queue \<Rightarrow> size_t \<Rightarrow> size_t" where
  "advance q p = (if p + 1 = memory_size q then 0 else p + 1)"

definition spsc_init :: "spsc \<Rightarrow> bool" where
  "spsc_init s \<longleftrightarrow>
     (\<exists>buffer n. length buffer = unat n \<and> sizeof_atomic_queue < n \<and> unat n \<le> 2 ^ 63 \<and>
        atomic_queue_init buffer n = Some (queue s)) \<and>
     producer s = PIdle \<and> consumer s = CIdle \<and> sent s = [] \<and> got s = []"

inductive spsc_step :: "spsc \<Rightarrow> spsc \<Rightarrow> bool" where
  enqueue_check:
    "producer s = PIdle \<Longrightarrow> msg \<noteq> [] \<Longrightarrow> length msg < 2 ^ 64 \<Longrightarrow>
     of_nat (length msg) \<le> memory_size (queue s) \<Longrightarrow>
     of_nat (length msg) \<le>
       enq_free_space (memory_size (queue s)) (read_offset (queue s)) (write_offset (queue s)) \<Longrightarrow>
     spsc_step s (s\<lparr>producer := PCopy (write_offset (queue s)) msg msg\<rparr>)"
| enqueue_byte:
    "producer s = PCopy p (b # bs) msg \<Longrightarrow>
     spsc_step s (s\<lparr>queue := (queue s)\<lparr>queue_memory := (queue_memory (queue s))[unat p := b]\<rparr>,
                    producer := PCopy (advance (queue s) p) bs msg\<rparr>)"
| enqueue_publish:
    "producer s = PCopy p [] msg \<Longrightarrow>
     spsc_step s (s\<lparr>queue := (queue s)\<lparr>write_offset := p\<rparr>, producer := PIdle, sent := sent s @ msg\<rparr>)"
| dequeue_check:
    "consumer s = CIdle \<Longrightarrow> 0 < n \<Longrightarrow> n < 2 ^ 64 \<Longrightarrow> of_nat n \<le> memory_size (queue s) \<Longrightarrow>
     of_nat n \<le>
       deq_available (memory_size (queue s)) (write_offset (queue s)) (read_offset (queue s)) \<Longrightarrow>
     spsc_step s (s\<lparr>consumer := CCopy (read_offset (queue s)) n []\<rparr>)"
| dequeue_byte:
    "consumer s = CCopy p (Suc n) acc \<Longrightarrow>
     spsc_step s (s\<lparr>consumer :=
       CCopy (advance (queue s) p) n (acc @ [queue_memory (queue s) ! unat p])\<rparr>)"
| dequeue_publish:
    "consumer s = CCopy p 0 acc \<Longrightarrow>
     spsc_step s (s\<lparr>queue := (queue s)\<lparr>read_offset := p\<rparr>, consumer := CIdle, got := got s @ acc\<rparr>)"

subsection \<open>The invariant\<close>

abbreviation ring_size :: "spsc \<Rightarrow> nat" where
  "ring_size s \<equiv> unat (memory_size (queue s))"

definition shared_inv :: "spsc \<Rightarrow> bool" where
  "shared_inv s \<longleftrightarrow>
     length (queue_memory (queue s)) = ring_size s \<and> 0 < ring_size s \<and> ring_size s \<le> 2 ^ 63 \<and>
     length (got s) \<le> length (sent s) \<and> length (sent s) < length (got s) + ring_size s \<and>
     got s = take (length (got s)) (sent s) \<and>
     unat (read_offset (queue s)) = length (got s) mod ring_size s \<and>
     unat (write_offset (queue s)) = length (sent s) mod ring_size s \<and>
     (\<forall>k. length (got s) \<le> k \<and> k < length (sent s) \<longrightarrow>
        queue_memory (queue s) ! (k mod ring_size s) = sent s ! k)"

fun producer_inv :: "spsc \<Rightarrow> producer_pc \<Rightarrow> bool" where
  "producer_inv s PIdle = True"
| "producer_inv s (PCopy p todo msg) \<longleftrightarrow>
     (\<exists>d \<le> length msg. todo = drop d msg \<and> unat p = (length (sent s) + d) mod ring_size s \<and>
        length (sent s) + length msg < length (got s) + ring_size s \<and>
        (\<forall>j < d. queue_memory (queue s) ! ((length (sent s) + j) mod ring_size s) = msg ! j))"

fun consumer_inv :: "spsc \<Rightarrow> consumer_pc \<Rightarrow> bool" where
  "consumer_inv s CIdle = True"
| "consumer_inv s (CCopy p n acc) \<longleftrightarrow>
     unat p = (length (got s) + length acc) mod ring_size s \<and>
     length (got s) + length acc + n \<le> length (sent s) \<and>
     acc = take (length acc) (drop (length (got s)) (sent s))"

definition spsc_inv :: "spsc \<Rightarrow> bool" where
  "spsc_inv s \<longleftrightarrow> shared_inv s \<and> producer_inv s (producer s) \<and> consumer_inv s (consumer s)"

lemma advance_mod:
  assumes "0 < unat (memory_size q)" and "unat p = k mod unat (memory_size q)"
  shows "unat (advance q p) = Suc k mod unat (memory_size q)"
proof -
  let ?M = "unat (memory_size q)"
  have less: "unat p < ?M" using assms by simp
  then have "unat (p + 1) = Suc (unat p)"
    using unat_less_2p[of "memory_size q"] by (simp add: unat_add_fits)
  then show ?thesis
    using assms by (auto simp: advance_def Suc_mod_wrap word_unat_eq_iff)
qed

lemma spsc_inv_init: "spsc_init s \<Longrightarrow> spsc_inv s"
proof -
  assume s: "spsc_init s"
  then obtain buffer n where n: "length buffer = unat n" "24 < n" "unat n \<le> 2 ^ 63"
    and "atomic_queue_init buffer n = Some (queue s)"
    by (auto simp: spsc_init_def sizeof_atomic_queue_def)
  then have q: "queue s = \<lparr>read_offset = 0, write_offset = 0, memory_size = n - 24,
                           queue_memory = drop 24 buffer\<rparr>"
    by (simp add: atomic_queue_init_def sizeof_atomic_queue_def split: if_splits)
  have "unat (n - 24) = unat n - 24" "24 < unat n"
    using n(2) by (simp_all add: unat_sub_less word_less_nat_alt)
  then show ?thesis
    using s n by (simp add: spsc_init_def spsc_inv_def shared_inv_def q)
qed

text \<open>The space check and the availability check, in terms of the histories.\<close>

lemma shared_inv_queue_ok: "shared_inv s \<Longrightarrow> queue_ok (queue s)"
  by (auto simp: shared_inv_def queue_ok_def word_less_nat_alt)

lemma shared_inv_stored:
  assumes "shared_inv s"
  shows "stored (queue s) = length (sent s) - length (got s)"
proof -
  let ?M = "ring_size s" and ?G = "length (got s)" and ?S = "length (sent s)"
  have b: "?G \<le> ?S" "?S - ?G < ?M" "?G mod ?M < ?M"
    and w': "unat (write_offset (queue s)) = ?S mod ?M"
    and r: "unat (read_offset (queue s)) = ?G mod ?M"
    using assms by (auto simp: shared_inv_def)
  have w: "unat (write_offset (queue s)) = (?G mod ?M + (?S - ?G)) mod ?M"
    unfolding w' using mod_shift[of ?G ?S 0 ?M] b(1) by simp
  show ?thesis
    using ring_distance[OF b(3) b(2)] unfolding stored_def w r .
qed

lemma enqueue_check_room:
  assumes "shared_inv s" and "k < 2 ^ 64"
    and "of_nat k \<le> enq_free_space (memory_size (queue s)) (read_offset (queue s)) (write_offset (queue s))"
  shows "length (sent s) + k < length (got s) + ring_size s"
proof -
  have m: "memory_size (queue s) \<noteq> 0" using assms(1) by (auto simp: shared_inv_def)
  have "unat (of_nat k :: size_t) = k" using assms(2) by (intro unat_of_nat_fits) simp
  then have "k \<le> capacity (queue s) - stored (queue s)"
    using assms(3) free_space_eq[OF shared_inv_queue_ok[OF assms(1)] m] by (simp add: word_le_nat_alt)
  then show ?thesis
    using assms(1) by (auto simp: shared_inv_stored capacity_def shared_inv_def)
qed

lemma dequeue_check_data:
  assumes "shared_inv s" and "n < 2 ^ 64"
    and "of_nat n \<le> deq_available (memory_size (queue s)) (write_offset (queue s)) (read_offset (queue s))"
  shows "length (got s) + n \<le> length (sent s)"
proof -
  have m: "memory_size (queue s) \<noteq> 0" using assms(1) by (auto simp: shared_inv_def)
  have "unat (of_nat n :: size_t) = n" using assms(2) by (intro unat_of_nat_fits) simp
  then have "n \<le> stored (queue s)"
    using assms(3) available_eq[OF shared_inv_queue_ok[OF assms(1)] m] by (simp add: word_le_nat_alt)
  then show ?thesis
    using assms(1) by (auto simp: shared_inv_stored shared_inv_def)
qed

text \<open>A byte written by the producer lies outside the unread window.\<close>

lemma write_misses_window:
  fixes G S d k M :: nat
  assumes "G \<le> k" and "k < S + d" and "S + d < G + M"
  shows "(S + d) mod M \<noteq> k mod M"
  using mod_inj_window[of k M "S + d"] assms by auto

text \<open>Each kind of step keeps the invariant.\<close>

lemma enqueue_byte_inv:
  assumes inv: "spsc_inv s" and pc: "producer s = PCopy p (b # bs) msg"
  shows "spsc_inv (s\<lparr>queue := (queue s)\<lparr>queue_memory := (queue_memory (queue s))[unat p := b]\<rparr>,
                     producer := PCopy (advance (queue s) p) bs msg\<rparr>)"
    (is "spsc_inv ?t")
proof -
  let ?S = "length (sent s)" and ?G = "length (got s)" and ?M = "ring_size s"
  have sh: "shared_inv s" and co: "consumer_inv s (consumer s)"
    using inv by (simp_all add: spsc_inv_def)
  obtain d where d: "d \<le> length msg" "b # bs = drop d msg" "unat p = (?S + d) mod ?M"
    "?S + length msg < ?G + ?M" "\<forall>j < d. queue_memory (queue s) ! ((?S + j) mod ?M) = msg ! j"
    using inv pc by (auto simp: spsc_inv_def)
  have len: "length (queue_memory (queue s)) = ?M" and M: "0 < ?M" "?G \<le> ?S"
    using sh by (auto simp: shared_inv_def)
  have dm: "d < length msg" using d(2) by (metis drop_eq_Nil list.distinct(1) not_less)
  have bs: "bs = drop (Suc d) msg" "b = msg ! d"
    using d(2) dm by (metis Cons_nth_drop_Suc list.inject)+
  have other: "queue_memory (queue ?t) ! (k mod ?M) = queue_memory (queue s) ! (k mod ?M)"
    if "?G \<le> k" "k < ?S + d" for k
    using write_misses_window[of ?G k ?S d ?M] that d(3,4) dm by (simp add: nth_list_update_neq)
  have "shared_inv ?t"
    using sh other by (auto simp: shared_inv_def)
  moreover have "producer_inv ?t (producer ?t)"
  proof -
    have "queue_memory (queue ?t) ! ((?S + j) mod ?M) = msg ! j" if "j < Suc d" for j
    proof (cases "j = d")
      case True
      then show ?thesis using d(3) len M bs by simp
    next
      case False
      then show ?thesis using other[of "?S + j"] that d(5) M by simp
    qed
    moreover have "unat (advance (queue s) p) = (?S + Suc d) mod ?M"
      using advance_mod[OF M(1) d(3)] by simp
    ultimately show ?thesis
      using dm bs d(4) by (auto intro!: exI[of _ "Suc d"] simp: advance_def)
  qed
  moreover have "consumer_inv ?t (consumer ?t)"
    using co by (cases "consumer s") simp_all
  ultimately show ?thesis by (simp add: spsc_inv_def)
qed

lemma enqueue_publish_inv:
  assumes inv: "spsc_inv s" and pc: "producer s = PCopy p [] msg"
  shows "spsc_inv (s\<lparr>queue := (queue s)\<lparr>write_offset := p\<rparr>, producer := PIdle, sent := sent s @ msg\<rparr>)"
proof -
  let ?S = "length (sent s)" and ?M = "ring_size s"
  have pi: "unat p = (?S + length msg) mod ?M" "?S + length msg < length (got s) + ?M"
    "\<forall>j < length msg. queue_memory (queue s) ! ((?S + j) mod ?M) = msg ! j"
    using inv pc by (auto simp: spsc_inv_def dest: sym)
  have "queue_memory (queue s) ! (k mod ?M) = (sent s @ msg) ! k"
    if "length (got s) \<le> k" "k < ?S + length msg" for k
    using that inv pi(3)[rule_format, of "k - ?S"]
    by (auto simp: spsc_inv_def shared_inv_def nth_append)
  then show ?thesis
    using inv pi by (cases "consumer s") (auto simp: spsc_inv_def shared_inv_def)
qed

lemma dequeue_byte_inv:
  assumes inv: "spsc_inv s" and pc: "consumer s = CCopy p (Suc n) acc"
  shows "spsc_inv (s\<lparr>consumer :=
           CCopy (advance (queue s) p) n (acc @ [queue_memory (queue s) ! unat p])\<rparr>)"
proof -
  let ?G = "length (got s)" and ?M = "ring_size s" and ?a = "length acc"
  have sh: "shared_inv s" and pi: "producer_inv s (producer s)"
    and c: "unat p = (?G + ?a) mod ?M" "?G + ?a + Suc n \<le> length (sent s)"
      "acc = take ?a (drop ?G (sent s))"
    using inv pc by (simp_all add: spsc_inv_def)
  have "queue_memory (queue s) ! unat p = sent s ! (?G + ?a)"
    using sh c(1,2) by (auto simp: shared_inv_def)
  then have "acc @ [queue_memory (queue s) ! unat p] = take (Suc ?a) (drop ?G (sent s))"
    using c(2,3) by (simp add: take_Suc_conv_app_nth)
  moreover have "unat (advance (queue s) p) = (?G + Suc ?a) mod ?M"
    using advance_mod[OF _ c(1)] sh by (simp add: shared_inv_def)
  ultimately show ?thesis
    using sh pi c(2) by (cases "producer s") (auto simp: spsc_inv_def shared_inv_def)
qed

lemma dequeue_publish_inv:
  assumes inv: "spsc_inv s" and pc: "consumer s = CCopy p 0 acc"
  shows "spsc_inv (s\<lparr>queue := (queue s)\<lparr>read_offset := p\<rparr>, consumer := CIdle, got := got s @ acc\<rparr>)"
proof -
  let ?G = "length (got s)"
  have c: "unat p = (?G + length acc) mod ring_size s" "?G + length acc \<le> length (sent s)"
    "acc = take (length acc) (drop ?G (sent s))"
    using inv pc by (simp_all add: spsc_inv_def)
  have "got s @ acc = take (?G + length acc) (sent s)"
    using inv c(3) by (simp add: spsc_inv_def shared_inv_def take_add)
  then show ?thesis
    using inv c by (cases "producer s") (auto simp: spsc_inv_def shared_inv_def)
qed

lemma spsc_inv_step: "spsc_step s t \<Longrightarrow> spsc_inv s \<Longrightarrow> spsc_inv t"
proof (induction rule: spsc_step.induct)
  case (enqueue_check s msg)
  then show ?case
    using enqueue_check_room[of s "length msg"]
    by (cases "consumer s") (auto simp: spsc_inv_def shared_inv_def intro!: exI[of _ 0])
next
  case (dequeue_check s n)
  then show ?case
    using dequeue_check_data[of s n]
    by (cases "producer s") (auto simp: spsc_inv_def shared_inv_def)
qed (simp_all add: enqueue_byte_inv enqueue_publish_inv dequeue_byte_inv dequeue_publish_inv)

interpretation spsc: transition_system spsc_init spsc_step spsc_inv
  by unfold_locales (auto intro: spsc_inv_init spsc_inv_step)

subsection \<open>One side running alone executes the sequential code\<close>

lemma ring_store_0 [simp]: "w < M \<Longrightarrow> ring_store M w 0 data mem = mem"
  by (simp add: ring_store_def)

lemma ring_store_Suc:
  assumes b: "w < M" "Suc d \<le> M" "Suc d \<le> length data" "length mem = M"
  shows "ring_store M w (Suc d) data mem = (ring_store M w d data mem)[(w + d) mod M := data ! d]"
proof (rule nth_equalityI)
  show "length (ring_store M w (Suc d) data mem) =
      length ((ring_store M w d data mem)[(w + d) mod M := data ! d])"
    using b by simp
  fix i assume "i < length (ring_store M w (Suc d) data mem)"
  then have i: "i < M" using b by simp
  define k where "k = (i + M - w) mod M"
  have k: "k < M" "(w + k) mod M = i"
  proof -
    show "k < M" using i by (simp add: k_def)
    show "(w + k) mod M = i"
      using b(1) i by (cases "w \<le> i") (simp_all add: k_def mod_second_lap)
  qed
  have "(w + d) mod M = (w + k) mod M \<longleftrightarrow> d = k"
    using b k(1) by (intro ring_index_inj) simp_all
  then show "ring_store M w (Suc d) data mem ! i =
      (ring_store M w d data mem)[(w + d) mod M := data ! d] ! i"
    using nth_ring_store[of w M "Suc d" data mem k] nth_ring_store[of w M d data mem k] b i k
    by (auto simp: nth_list_update less_Suc_eq)
qed

lemma copy_bytes:
  assumes "producer s = PCopy p (drop d msg) msg" and "d \<le> length msg" and "length msg \<le> ring_size s"
    and "w < ring_size s" and "length mem = ring_size s" and "unat p = (w + d) mod ring_size s"
    and "queue_memory (queue s) = ring_store (ring_size s) w d msg mem"
  shows "\<exists>p'. unat p' = (w + length msg) mod ring_size s \<and>
    spsc_step\<^sup>*\<^sup>* s (s\<lparr>queue := (queue s)\<lparr>queue_memory := ring_store (ring_size s) w (length msg) msg mem\<rparr>,
                       producer := PCopy p' [] msg\<rparr>)"
  using assms
proof (induction "length msg - d" arbitrary: d p s)
  case 0
  then have d: "d = length msg" by simp
  with 0 have e: "PCopy p [] msg = producer s"
    "ring_store (ring_size s) w (length msg) msg mem = queue_memory (queue s)" by simp_all
  have "s\<lparr>queue := (queue s)\<lparr>queue_memory := ring_store (ring_size s) w (length msg) msg mem\<rparr>,
           producer := PCopy p [] msg\<rparr> = s"
    unfolding e by simp
  then have "spsc_step\<^sup>*\<^sup>* s (s\<lparr>queue := (queue s)\<lparr>queue_memory := ring_store (ring_size s) w (length msg) msg mem\<rparr>,
           producer := PCopy p [] msg\<rparr>)"
    by (simp only: rtranclp.rtrancl_refl)
  with 0(7) d show ?case by blast
next
  case (Suc n)
  then have d: "d < length msg" and M: "0 < ring_size s" by simp_all
  let ?t = "s\<lparr>queue := (queue s)\<lparr>queue_memory := (queue_memory (queue s))[unat p := msg ! d]\<rparr>,
              producer := PCopy (advance (queue s) p) (drop (Suc d) msg) msg\<rparr>"
  have step: "spsc_step s ?t"
    using Suc.prems(1) d by (intro enqueue_byte) (simp add: Cons_nth_drop_Suc)
  have "unat (advance (queue s) p) = (w + Suc d) mod ring_size s"
    using advance_mod[OF M Suc.prems(6)] by simp
  moreover have "queue_memory (queue ?t) = ring_store (ring_size s) w (Suc d) msg mem"
    using ring_store_Suc[of w "ring_size s" d msg mem] Suc.prems d by simp
  moreover have "n = length msg - Suc d" "Suc d \<le> length msg" using Suc.hyps(2) d by simp_all
  ultimately obtain p' where "unat p' = (w + length msg) mod ring_size s" and
    "spsc_step\<^sup>*\<^sup>* ?t (?t\<lparr>queue := (queue ?t)\<lparr>queue_memory := ring_store (ring_size ?t) w (length msg) msg mem\<rparr>,
                        producer := PCopy p' [] msg\<rparr>)"
    using Suc.hyps(1)[of "Suc d" ?t "advance (queue s) p"] Suc.prems(3-5) by auto
  with step show ?case
    by (intro exI[of _ p']) (auto intro: converse_rtranclp_into_rtranclp)
qed

text \<open>
  A producer that runs alone through its split steps does what the sequential enqueue computes:
  same memory, same write offset, and the message appended to what was sent.
\<close>

theorem solo_enqueue:
  assumes ok: "queue_ok (queue s)" and idle: "producer s = PIdle"
    and msg: "msg \<noteq> []" "length msg < 2 ^ 64"
    and run: "atomic_queue_try_enqueue (queue s) msg (of_nat (length msg)) = Inr (0, q')"
  shows "spsc_step\<^sup>*\<^sup>* s (s\<lparr>queue := q', producer := PIdle, sent := sent s @ msg\<rparr>)"
proof -
  let ?n = "of_nat (length msg) :: size_t" and ?q = "queue s"
  let ?M = "ring_size s" and ?w = "unat (write_offset ?q)"
  have n: "unat ?n = length msg" using msg(2) by (intro unat_of_nat_fits) simp
  then have n0: "?n \<noteq> 0" using msg(1) by (metis length_0_conv unat_0)
  have fit: "?n \<le> memory_size ?q"
    and free: "?n \<le> enq_free_space (memory_size ?q) (read_offset ?q) (write_offset ?q)"
    using run n0 by (auto simp: atomic_queue_try_enqueue_def Let_def not_less split: if_splits)
  have m: "memory_size ?q \<noteq> 0" using fit n0 by auto
  have len: "length (queue_memory ?q) = ?M" and w: "write_offset ?q < memory_size ?q" "?w < ?M"
    using ok m by (auto simp: queue_ok_def word_less_nat_alt)
  have lm: "length msg \<le> ?M" using fit n by (simp add: word_le_nat_alt)
  obtain w' where w': "unat w' = (?w + unat ?n) mod ?M" and
    put: "ring_put (queue_memory ?q) (memory_size ?q) (write_offset ?q) msg ?n =
            Inr (ring_store ?M ?w (unat ?n) msg (queue_memory ?q), w')"
    using ring_put_eq[OF len w(1) fit, of msg] n by auto
  have q': "q' = ?q\<lparr>queue_memory := ring_store ?M ?w (length msg) msg (queue_memory ?q), write_offset := w'\<rparr>"
    using run n0 leD[OF fit] leD[OF free] put n by (simp add: atomic_queue_try_enqueue_def)
  let ?s1 = "s\<lparr>producer := PCopy (write_offset ?q) msg msg\<rparr>"
  have check: "spsc_step s ?s1"
    using idle msg fit free by (rule enqueue_check)
  obtain p' where p': "unat p' = (?w + length msg) mod ?M" and copy: "spsc_step\<^sup>*\<^sup>* ?s1
      (?s1\<lparr>queue := ?q\<lparr>queue_memory := ring_store ?M ?w (length msg) msg (queue_memory ?q)\<rparr>,
            producer := PCopy p' [] msg\<rparr>)"
    using copy_bytes[of ?s1 "write_offset ?q" 0 msg ?w "queue_memory ?q"] lm w(2) len by auto
  have "p' = w'" using p' w' n by (simp add: word_unat_eq_iff)
  moreover note enqueue_publish[of "?s1\<lparr>queue := ?q\<lparr>queue_memory :=
      ring_store ?M ?w (length msg) msg (queue_memory ?q)\<rparr>, producer := PCopy p' [] msg\<rparr>" p' msg]
  ultimately have "spsc_step (?s1\<lparr>queue := ?q\<lparr>queue_memory := ring_store ?M ?w (length msg) msg (queue_memory ?q)\<rparr>,
      producer := PCopy p' [] msg\<rparr>) (s\<lparr>queue := q', producer := PIdle, sent := sent s @ msg\<rparr>)"
    using idle by (simp add: q')
  with check copy show ?thesis
    by (meson converse_rtranclp_into_rtranclp rtranclp.rtrancl_into_rtrancl)
qed

subsection \<open>A concrete run\<close>

definition demo :: "size_t \<Rightarrow> byte list \<Rightarrow> producer_pc \<Rightarrow> consumer_pc \<Rightarrow> byte list \<Rightarrow> spsc" where
  "demo w mem p c bs = \<lparr>queue = \<lparr>read_offset = 0, write_offset = w, memory_size = 4, queue_memory = mem\<rparr>,
                        producer = p, consumer = c, sent = bs, got = []\<rparr>"

lemma demo_run:
  "reachable spsc_init spsc_step (demo 2 [7, 8, 0, 0] (PCopy 2 [9] [9]) (CCopy 0 2 []) [7, 8])"
proof -
  have init: "spsc_init (demo 0 [0, 0, 0, 0] PIdle CIdle [])"
  proof -
    have "drop 24 (replicate 28 (0 :: byte)) = [0, 0, 0, 0]" by code_simp
    then have "atomic_queue_init (replicate 28 0) 28 = Some (queue (demo 0 [0, 0, 0, 0] PIdle CIdle []))"
      by (simp add: demo_def atomic_queue_init_def sizeof_atomic_queue_def)
    then show ?thesis
      unfolding spsc_init_def
      by (intro conjI exI[of _ "replicate 28 0"] exI[of _ 28])
        (simp_all add: demo_def sizeof_atomic_queue_def)
  qed
  have "spsc_step (demo 0 [0, 0, 0, 0] PIdle CIdle []) (demo 0 [0, 0, 0, 0] (PCopy 0 [7, 8] [7, 8]) CIdle [])"
    using enqueue_check[of "demo 0 [0, 0, 0, 0] PIdle CIdle []" "[7, 8]"]
    by (simp add: demo_def enq_free_space_def)
  then have "spsc_step\<^sup>*\<^sup>* (demo 0 [0, 0, 0, 0] PIdle CIdle []) (demo 0 [0, 0, 0, 0] (PCopy 0 [7, 8] [7, 8]) CIdle [])"
    by simp
  also have "spsc_step (demo 0 [0, 0, 0, 0] (PCopy 0 [7, 8] [7, 8]) CIdle []) (demo 0 [7, 0, 0, 0] (PCopy 1 [8] [7, 8]) CIdle [])"
    using enqueue_byte[of "demo 0 [0, 0, 0, 0] (PCopy 0 [7, 8] [7, 8]) CIdle []" 0 7 "[8]" "[7, 8]"]
    by (simp add: demo_def advance_def)
  also have "spsc_step (demo 0 [7, 0, 0, 0] (PCopy 1 [8] [7, 8]) CIdle []) (demo 0 [7, 8, 0, 0] (PCopy 2 [] [7, 8]) CIdle [])"
    using enqueue_byte[of "demo 0 [7, 0, 0, 0] (PCopy 1 [8] [7, 8]) CIdle []" 1 8 "[]" "[7, 8]"]
    by (simp add: demo_def advance_def)
  also have "spsc_step (demo 0 [7, 8, 0, 0] (PCopy 2 [] [7, 8]) CIdle []) (demo 2 [7, 8, 0, 0] PIdle CIdle [7, 8])"
    using enqueue_publish[of "demo 0 [7, 8, 0, 0] (PCopy 2 [] [7, 8]) CIdle []" 2 "[7, 8]"]
    by (simp add: demo_def)
  also have "spsc_step (demo 2 [7, 8, 0, 0] PIdle CIdle [7, 8]) (demo 2 [7, 8, 0, 0] PIdle (CCopy 0 2 []) [7, 8])"
    using dequeue_check[of "demo 2 [7, 8, 0, 0] PIdle CIdle [7, 8]" 2]
    by (simp add: demo_def deq_available_def)
  also have "spsc_step (demo 2 [7, 8, 0, 0] PIdle (CCopy 0 2 []) [7, 8])
      (demo 2 [7, 8, 0, 0] (PCopy 2 [9] [9]) (CCopy 0 2 []) [7, 8])"
    using enqueue_check[of "demo 2 [7, 8, 0, 0] PIdle (CCopy 0 2 []) [7, 8]" "[9]"]
    by (simp add: demo_def enq_free_space_def)
  finally have run: "spsc_step\<^sup>*\<^sup>* (demo 0 [0, 0, 0, 0] PIdle CIdle [])
      (demo 2 [7, 8, 0, 0] (PCopy 2 [9] [9]) (CCopy 0 2 []) [7, 8])" .
  have "reachable spsc_init spsc_step (demo 0 [0, 0, 0, 0] PIdle CIdle [])"
    using init by (rule reach_init)
  then show ?thesis using run by (rule reachable_steps)
qed

theorem solo_enqueue_witness:
  "spsc_step\<^sup>*\<^sup>* \<lparr>queue = \<lparr>read_offset = 2, write_offset = 3, memory_size = 4, queue_memory = [7, 0, 6, 5]\<rparr>,
                producer = PIdle, consumer = CIdle, sent = [1], got = []\<rparr>
     \<lparr>queue = \<lparr>read_offset = 2, write_offset = 1, memory_size = 4, queue_memory = [8, 0, 6, 9]\<rparr>,
      producer = PIdle, consumer = CIdle, sent = [1, 9, 8], got = []\<rparr>"
proof -
  let ?s = "\<lparr>queue = \<lparr>read_offset = 2, write_offset = 3, memory_size = 4, queue_memory = [7, 0, 6, 5]\<rparr>,
              producer = PIdle, consumer = CIdle, sent = [1], got = []\<rparr>"
  have "atomic_queue_try_enqueue (queue ?s) [9, 8] (of_nat (length ([9, 8] :: byte list))) =
      Inr (0, \<lparr>read_offset = 2, write_offset = 1, memory_size = 4, queue_memory = [8, 0, 6, 9]\<rparr>)"
    by (simp add: atomic_queue_try_enqueue_def enq_free_space_def ring_put_def)
  from solo_enqueue[OF _ _ _ _ this] show ?thesis
    by (simp add: queue_ok_def)
qed

subsection \<open>Properties of every interleaving\<close>

text \<open>
  C1. Whatever the interleaving of producer and consumer, the bytes delivered so far are a prefix of
  the bytes published so far, in order and without loss or duplication; what is published but not
  delivered is exactly the ring's contents, and it stays below the memory size.
\<close>

theorem spsc_fifo:
  assumes "reachable spsc_init spsc_step s"
  shows "\<exists>unread. sent s = got s @ unread \<and> length unread < ring_size s \<and> contents (queue s) = unread"
proof -
  have sh: "shared_inv s" using spsc.inv_reachable[OF assms] by (simp add: spsc_inv_def)
  let ?u = "drop (length (got s)) (sent s)"
  have "sent s = got s @ ?u"
    using sh by (metis append_take_drop_id shared_inv_def)
  moreover have "length ?u < ring_size s"
    using sh by (auto simp: shared_inv_def)
  moreover have "contents (queue s) = ?u"
  proof (rule nth_equalityI)
    show len: "length (contents (queue s)) = length ?u"
      using shared_inv_stored[OF sh] by simp
    fix k assume "k < length (contents (queue s))"
    then have k: "k < length (sent s) - length (got s)" using shared_inv_stored[OF sh] by simp
    have r: "unat (read_offset (queue s)) = length (got s) mod ring_size s"
      using sh by (simp add: shared_inv_def)
    have "contents (queue s) ! k = queue_memory (queue s) ! ((length (got s) + k) mod ring_size s)"
      using k shared_inv_stored[OF sh] by (simp add: contents_def r mod_add_left_eq)
    then show "contents (queue s) ! k = ?u ! k"
      using k sh by (auto simp: shared_inv_def)
  qed
  ultimately show ?thesis by blast
qed

theorem spsc_fifo_witness:
  "\<exists>unread. ([7, 8] :: byte list) = [] @ unread \<and> length unread < 4"
  using spsc_fifo[OF demo_run] by (simp add: demo_def)

text \<open>
  C2. There is no data race on the ring memory: while a byte copy of an enqueue and a byte copy of a
  dequeue are both pending, they touch different cells, and both cells are inside the buffer.
\<close>

theorem spsc_race_free:
  assumes "reachable spsc_init spsc_step s"
    and "producer s = PCopy p (b # bs) msg" and "consumer s = CCopy c (Suc n) acc"
  shows "p \<noteq> c \<and> unat p < length (queue_memory (queue s)) \<and> unat c < length (queue_memory (queue s))"
proof -
  have inv: "spsc_inv s" by (rule spsc.inv_reachable[OF assms(1)])
  obtain d where d: "d \<le> length msg" "b # bs = drop d msg"
    "unat p = (length (sent s) + d) mod ring_size s"
    "length (sent s) + length msg < length (got s) + ring_size s"
    using inv assms(2) by (auto simp: spsc_inv_def)
  have c: "unat c = (length (got s) + length acc) mod ring_size s"
    "length (got s) + length acc + Suc n \<le> length (sent s)"
    using inv assms(3) by (simp_all add: spsc_inv_def)
  have "unat p \<noteq> unat c"
    unfolding d(3) c(1) using write_misses_window[of "length (got s)"] c(2) d(1,4) by simp
  then show ?thesis
    using inv c(1) d(3) by (auto simp: spsc_inv_def shared_inv_def)
qed

theorem spsc_race_free_witness:
  "(2 :: size_t) \<noteq> 0 \<and> unat (2 :: size_t) < length ([7, 8, 0, 0] :: byte list)"
  using spsc_race_free[OF demo_run, of 2 9 "[]" "[9]" 0 1 "[]"] by (simp add: demo_def)

end
