(* ===== verification/SpscWeak.thy ===== *)
theory SpscWeak
  imports SpscQueue
begin

text \<open>
  The queue of \<open>src/atomic/one-to-one-queue.h\<close> under release and acquire, the memory orders that its code asks for,
  in place of the sequentially consistent memory of SpscQueue.  The offsets are the atomic objects: each
  store stays in their modification order, and a load may return any store that is not older than what its thread has
  seen before.  The cells of the ring are plain memory: a write and a read of one cell that are not ordered by
  happens-before are a data race, and a read may return whatever write is not hidden by one that happens before it.
\<close>

subsection \<open>The machine\<close>

text \<open>
  A message is a store of an offset with the time of its writer, that is how many accesses to cells precede it.
  \<open>cell_writes\<close> are all writes of a cell in order, each with its time in the producer (0: before the threads started), and
  \<open>cell_read\<close> is the time of the consumer's last read of the cell.  A thread knows the accesses of the other up to the time
  \<open>pknows\<close> respectively \<open>cknows\<close>; they happen before whatever it does next.
\<close>

type_synonym message = "size_t \<times> nat"

record weak =
  msize :: size_t
  wmsgs :: "message list"            \<comment> \<open>of \<open>write_offset\<close>\<close>
  rmsgs :: "message list"            \<comment> \<open>of \<open>read_offset\<close>\<close>
  cell_writes :: "nat \<Rightarrow> (byte \<times> nat) list"
  cell_read :: "nat \<Rightarrow> nat"
  ptime :: nat
  ctime :: nat
  pseen :: nat                       \<comment> \<open>the message of \<open>read_offset\<close> that the producer has read\<close>
  cseen :: nat
  pknows :: nat
  cknows :: nat
  prod :: producer_pc
  cons :: consumer_pc
  wsent :: "byte list"
  wgot :: "byte list"
  data_race :: bool

text \<open>The memory with all stores done: what SpscQueue has as its state.\<close>

definition latest :: "weak \<Rightarrow> spsc" where
  "latest s = \<lparr>queue = \<lparr>read_offset = fst (last (rmsgs s)), write_offset = fst (last (wmsgs s)), memory_size = msize s,
       queue_memory = map (\<lambda>c. fst (last (cell_writes s c))) [0..<unat (msize s)]\<rparr>,
     producer = prod s, consumer = cons s, sent = wsent s, got = wgot s\<rparr>"

definition weak_init :: "weak \<Rightarrow> bool" where
  "weak_init s \<longleftrightarrow> spsc_init (latest s) \<and> wmsgs s = [(0, 0)] \<and> rmsgs s = [(0, 0)] \<and>
     (\<forall>c. \<exists>v. cell_writes s c = [(v, 0)]) \<and> cell_read s = (\<lambda>_. 0) \<and> ptime s = 0 \<and> ctime s = 0 \<and>
     pseen s = 0 \<and> cseen s = 0 \<and> pknows s = 0 \<and> cknows s = 0 \<and> \<not> data_race s"

text \<open>The acquiring loads: message \<open>i\<close> is read, and its writer's accesses before it become known.\<close>

definition load_read_offset :: "nat \<Rightarrow> weak \<Rightarrow> size_t \<Rightarrow> weak \<Rightarrow> bool" where
  "load_read_offset i s r_off t \<longleftrightarrow> pseen s \<le> i \<and> i < length (rmsgs s) \<and> r_off = fst (rmsgs s ! i) \<and>
     t = s\<lparr>pseen := i, pknows := max (pknows s) (snd (rmsgs s ! i))\<rparr>"

definition load_write_offset :: "nat \<Rightarrow> weak \<Rightarrow> size_t \<Rightarrow> weak \<Rightarrow> bool" where
  "load_write_offset i s w_off t \<longleftrightarrow> cseen s \<le> i \<and> i < length (wmsgs s) \<and> w_off = fst (wmsgs s ! i) \<and>
     t = s\<lparr>cseen := i, cknows := max (cknows s) (snd (wmsgs s ! i))\<rparr>"

text \<open>The writes of a cell that a read by the consumer may return.\<close>

definition visible :: "weak \<Rightarrow> nat \<Rightarrow> byte \<Rightarrow> bool" where
  "visible s c v \<longleftrightarrow> (\<exists>j < length (cell_writes s c). fst (cell_writes s c ! j) = v \<and>
     (\<forall>k < length (cell_writes s c). j < k \<longrightarrow> cknows s < snd (cell_writes s c ! k)))"

definition next_cell :: "weak \<Rightarrow> size_t \<Rightarrow> size_t" where
  "next_cell s p = (if p + 1 = msize s then 0 else p + 1)"

inductive weak_step :: "weak \<Rightarrow> weak \<Rightarrow> bool" where
  wenq_check:
    "prod s = PIdle \<Longrightarrow> msg \<noteq> [] \<Longrightarrow> length msg < 2 ^ 64 \<Longrightarrow> of_nat (length msg) \<le> msize s \<Longrightarrow>
     load_read_offset i s r_off t \<Longrightarrow> w_off = fst (last (wmsgs s)) \<Longrightarrow>
     of_nat (length msg) \<le> enq_free_space (msize s) r_off w_off \<Longrightarrow>
     weak_step s (t\<lparr>prod := PCopy w_off msg msg\<rparr>)"
| wenq_full:
    "prod s = PIdle \<Longrightarrow> 0 < n \<Longrightarrow> n < 2 ^ 64 \<Longrightarrow> of_nat n \<le> msize s \<Longrightarrow>
     load_read_offset i s r_off t \<Longrightarrow>
     enq_free_space (msize s) r_off (fst (last (wmsgs s))) < of_nat n \<Longrightarrow> weak_step s t"
| wenq_byte:
    "prod s = PCopy p (b # bs) msg \<Longrightarrow>
     weak_step s (s\<lparr>ptime := ptime s + 1,
       cell_writes := (cell_writes s)(unat p := cell_writes s (unat p) @ [(b, ptime s + 1)]),
       data_race := (data_race s \<or> pknows s < cell_read s (unat p)), prod := PCopy (next_cell s p) bs msg\<rparr>)"
| wenq_publish:
    "prod s = PCopy p [] msg \<Longrightarrow>
     weak_step s (s\<lparr>wmsgs := wmsgs s @ [(p, ptime s)], prod := PIdle, wsent := wsent s @ msg\<rparr>)"
| wdeq_check:
    "cons s = CIdle \<Longrightarrow> 0 < n \<Longrightarrow> n < 2 ^ 64 \<Longrightarrow> of_nat n \<le> msize s \<Longrightarrow>
     load_write_offset i s w_off t \<Longrightarrow> r_off = fst (last (rmsgs s)) \<Longrightarrow>
     of_nat n \<le> deq_available (msize s) w_off r_off \<Longrightarrow>
     weak_step s (t\<lparr>cons := CCopy r_off n []\<rparr>)"
| wdeq_empty:
    "cons s = CIdle \<Longrightarrow> 0 < n \<Longrightarrow> n < 2 ^ 64 \<Longrightarrow> of_nat n \<le> msize s \<Longrightarrow>
     load_write_offset i s w_off t \<Longrightarrow>
     deq_available (msize s) w_off (fst (last (rmsgs s))) < of_nat n \<Longrightarrow> weak_step s t"
| wdeq_byte:
    "cons s = CCopy p (Suc n) acc \<Longrightarrow> visible s (unat p) v \<Longrightarrow>
     weak_step s (s\<lparr>ctime := ctime s + 1, cell_read := (cell_read s)(unat p := ctime s + 1),
       data_race := (data_race s \<or> (\<exists>w \<in> set (cell_writes s (unat p)). cknows s < snd w)),
       cons := CCopy (next_cell s p) n (acc @ [v])\<rparr>)"
| wdeq_publish:
    "cons s = CCopy p 0 acc \<Longrightarrow>
     weak_step s (s\<lparr>rmsgs := rmsgs s @ [(p, ctime s)], cons := CIdle, wgot := wgot s @ acc\<rparr>)"

subsection \<open>Times are positions in the stream\<close>

text \<open>
  The producer's time is the number of bytes it has stored in all, so the write with time \<open>k + 1\<close> is that of byte \<open>k\<close> of
  the stream, in cell \<open>k mod M\<close>, and a message's time is the length of the stream published with it.
\<close>

definition messages_ok :: "nat \<Rightarrow> nat \<Rightarrow> message list \<Rightarrow> bool" where
  "messages_ok M n ms \<longleftrightarrow> ms \<noteq> [] \<and> snd (last ms) = n \<and> sorted (map snd ms) \<and> (\<forall>(v, t) \<in> set ms. unat v = t mod M)"

definition stamp_ok :: "nat \<Rightarrow> nat \<Rightarrow> nat \<Rightarrow> nat \<Rightarrow> bool" where
  "stamp_ok M c n t \<longleftrightarrow> t \<le> n \<and> (t \<noteq> 0 \<longrightarrow> (t - 1) mod M = c)"

fun producer_time :: "nat \<Rightarrow> weak \<Rightarrow> producer_pc \<Rightarrow> bool" where
  "producer_time M s PIdle \<longleftrightarrow> ptime s = length (wsent s) \<and> length (wsent s) < pknows s + M"
| "producer_time M s (PCopy p todo msg) \<longleftrightarrow>
     ptime s + length todo = length (wsent s) + length msg \<and> length todo \<le> length msg \<and>
     unat p = ptime s mod M \<and> length (wsent s) + length msg < pknows s + M"

fun consumer_time :: "nat \<Rightarrow> weak \<Rightarrow> consumer_pc \<Rightarrow> bool" where
  "consumer_time M s CIdle \<longleftrightarrow> ctime s = length (wgot s) \<and> length (wgot s) \<le> cknows s"
| "consumer_time M s (CCopy p n acc) \<longleftrightarrow> ctime s = length (wgot s) + length acc \<and> ctime s + n \<le> cknows s \<and>
     unat p = ctime s mod M"

definition timing :: "nat \<Rightarrow> weak \<Rightarrow> bool" where
  "timing M s \<longleftrightarrow> M = unat (msize s) \<and> 0 < M \<and> M \<le> 2 ^ 63 \<and>
     messages_ok M (length (wsent s)) (wmsgs s) \<and> messages_ok M (length (wgot s)) (rmsgs s) \<and>
     pseen s < length (rmsgs s) \<and> pknows s = snd (rmsgs s ! pseen s) \<and>
     cseen s < length (wmsgs s) \<and> cknows s = snd (wmsgs s ! cseen s) \<and>
     producer_time M s (prod s) \<and> consumer_time M s (cons s) \<and>
     (\<forall>c < M. cell_writes s c \<noteq> [] \<and> (\<forall>w \<in> set (cell_writes s c). stamp_ok M c (ptime s) (snd w)) \<and>
        stamp_ok M c (ctime s) (cell_read s c))"

definition weak_inv :: "weak \<Rightarrow> bool" where
  "weak_inv s \<longleftrightarrow> timing (unat (msize s)) s \<and> \<not> data_race s \<and> reachable spsc_init spsc_step (latest s)"


subsection \<open>The checks, on offsets that may be old\<close>

lemma window_space:
  assumes M: "unat m = M" "0 < M" "M \<le> 2 ^ 63" and w: "G \<le> S" "S < G + M"
    and off: "unat r = G mod M" "unat v = S mod M"
  shows "unat (enq_free_space m r v) = M - 1 - (S - G)" and "unat (deq_available m v r) = S - G"
proof -
  let ?q = "\<lparr>read_offset = r, write_offset = v, memory_size = m, queue_memory = replicate M 0\<rparr>"
  have ok: "queue_ok ?q" using M off by (auto simp: queue_ok_def word_less_nat_alt)
  have m: "memory_size ?q \<noteq> 0" using M by auto
  have "unat v = (G mod M + (S - G)) mod M"
    unfolding off(2) using mod_shift[of G S 0 M] w(1) by simp
  then have "stored ?q = S - G"
    using ring_distance[of "G mod M" M "S - G"] M w by (simp add: stored_def off(1))
  then show "unat (enq_free_space m r v) = M - 1 - (S - G)" and "unat (deq_available m v r) = S - G"
    using free_space_eq[OF ok m] available_eq[OF ok m] M by (simp_all add: capacity_def)
qed

lemma messages_okD:
  assumes "messages_ok M n ms" and "i \<le> j" and "j < length ms"
  shows "snd (ms ! i) \<le> snd (ms ! j)" and "snd (ms ! j) \<le> n" and "unat (fst (ms ! j)) = snd (ms ! j) mod M"
proof -
  have s: "sorted (map snd ms)" "ms \<noteq> []" "snd (last ms) = n" using assms(1) by (auto simp: messages_ok_def)
  show "snd (ms ! i) \<le> snd (ms ! j)" using sorted_nth_mono[OF s(1) assms(2)] assms(2,3) by simp
  have "map snd ms ! j \<le> map snd ms ! (length ms - 1)"
    using sorted_nth_mono[OF s(1), of j "length ms - 1"] assms(3) by simp
  then show "snd (ms ! j) \<le> n" using s(2,3) assms(3) by (simp add: last_conv_nth)
  show "unat (fst (ms ! j)) = snd (ms ! j) mod M"
    using assms(1) nth_mem[OF assms(3)] by (cases "ms ! j") (auto simp: messages_ok_def)
qed

lemma messages_ok_last: "messages_ok M n ms \<Longrightarrow> unat (fst (last ms)) = n mod M"
  using last_in_set[of ms] by (cases "last ms") (auto simp: messages_ok_def)

lemma messages_ok_snoc:
  "messages_ok M n ms \<Longrightarrow> n \<le> t \<Longrightarrow> unat p = t mod M \<Longrightarrow> messages_ok M t (ms @ [(p, t)])"
  using messages_okD(2)[of M n ms 0] by (auto simp: messages_ok_def sorted_append in_set_conv_nth
      dest!: messages_okD(2)[of M n ms _ _, unfolded messages_ok_def, rotated -1])


lemma timing_bounds:
  assumes "timing M s"
  shows "pknows s \<le> length (wgot s)" and "cknows s \<le> length (wsent s)" and "length (wgot s) \<le> ctime s"
    and "ctime s \<le> cknows s" and "length (wsent s) \<le> ptime s" and "ptime s < pknows s + M"
    and "length (wsent s) < pknows s + M"
proof -
  show "pknows s \<le> length (wgot s)" "cknows s \<le> length (wsent s)"
    using assms messages_okD(2)[of M _ _ 0] by (auto simp: timing_def)
  show "length (wgot s) \<le> ctime s" "ctime s \<le> cknows s"
    using assms by (cases "cons s"; auto simp: timing_def)+
  show "length (wsent s) \<le> ptime s" "ptime s < pknows s + M" "length (wsent s) < pknows s + M"
    using assms by (cases "prod s"; auto simp: timing_def)+
qed

lemma load_read_offset_timing:
  assumes "timing M s" and "load_read_offset i s r_off t"
  shows "timing M t" and "latest t = latest s" and "msize t = msize s" and "data_race t = data_race s"
    and "prod t = prod s" and "unat r_off = pknows t mod M" and "wsent t = wsent s" and "ptime t = ptime s"
proof -
  have i: "pseen s \<le> i" "i < length (rmsgs s)" and r: "r_off = fst (rmsgs s ! i)"
    and t: "t = s\<lparr>pseen := i, pknows := max (pknows s) (snd (rmsgs s ! i))\<rparr>"
    using assms(2) by (auto simp: load_read_offset_def)
  have ms: "messages_ok M (length (wgot s)) (rmsgs s)" and k: "pknows s = snd (rmsgs s ! pseen s)"
    using assms(1) by (auto simp: timing_def)
  have le: "pknows s \<le> snd (rmsgs s ! i)" using messages_okD(1)[OF ms i] k by simp
  then have "producer_time M t (prod s)" "consumer_time M t (cons s)"
    using assms(1) by (cases "prod s"; cases "cons s"; auto simp: timing_def t)+
  then show "timing M t" using assms(1) i le by (auto simp: timing_def t max_def)
  show "latest t = latest s" "msize t = msize s" "data_race t = data_race s" "prod t = prod s"
    "wsent t = wsent s" "ptime t = ptime s"
    by (simp_all add: t latest_def)
  show "unat r_off = pknows t mod M" using messages_okD(3)[OF ms i] le r by (simp add: t max_def)
qed

lemma load_write_offset_timing:
  assumes "timing M s" and "load_write_offset i s w_off t"
  shows "timing M t" and "latest t = latest s" and "msize t = msize s" and "data_race t = data_race s"
    and "cons t = cons s" and "unat w_off = cknows t mod M" and "wgot t = wgot s" and "ctime t = ctime s"
proof -
  have i: "cseen s \<le> i" "i < length (wmsgs s)" and r: "w_off = fst (wmsgs s ! i)"
    and t: "t = s\<lparr>cseen := i, cknows := max (cknows s) (snd (wmsgs s ! i))\<rparr>"
    using assms(2) by (auto simp: load_write_offset_def)
  have ms: "messages_ok M (length (wsent s)) (wmsgs s)" and k: "cknows s = snd (wmsgs s ! cseen s)"
    using assms(1) by (auto simp: timing_def)
  have le: "cknows s \<le> snd (wmsgs s ! i)" using messages_okD(1)[OF ms i] k by simp
  then have "producer_time M t (prod s)" "consumer_time M t (cons s)"
    using assms(1) by (cases "prod s"; cases "cons s"; auto simp: timing_def t)+
  then show "timing M t" using assms(1) i le by (auto simp: timing_def t max_def)
  show "latest t = latest s" "msize t = msize s" "data_race t = data_race s" "cons t = cons s"
    "wgot t = wgot s" "ctime t = ctime s"
    by (simp_all add: t latest_def)
  show "unat w_off = cknows t mod M" using messages_okD(3)[OF ms i] le r by (simp add: t max_def)
qed

text \<open>
  The stale value only makes the checks stricter, because a thread has already seen enough of the other side for the
  distance of the two offsets to be below the size of the ring.
\<close>

lemma enqueue_check_known:
  assumes tm: "timing M s" and ld: "load_read_offset i s r_off t" and k: "k < 2 ^ 64"
    and idle: "prod s = PIdle"
    and free: "of_nat k \<le> enq_free_space (msize s) r_off (fst (last (wmsgs s)))"
  shows "length (wsent s) + k < pknows t + M"
    and "of_nat k \<le> enq_free_space (msize s) (fst (last (rmsgs s))) (fst (last (wmsgs s)))"
proof -
  note l = load_read_offset_timing[OF tm ld]
  have M: "unat (msize s) = M" "0 < M" "M \<le> 2 ^ 63" using tm by (auto simp: timing_def)
  have ms: "unat (fst (last (wmsgs s))) = length (wsent s) mod M" "unat (fst (last (rmsgs s))) = length (wgot s) mod M"
    using tm messages_ok_last by (auto simp: timing_def)
  have w: "pknows t \<le> length (wgot s)" "length (wgot s) \<le> length (wsent s)" "length (wsent s) < pknows t + M"
    using timing_bounds[OF l(1)] timing_bounds[OF tm] ld l(7) by (auto simp: load_read_offset_def)
  have uk: "unat (of_nat k :: size_t) = k" using k by (intro unat_of_nat_fits) simp
  have "k \<le> M - 1 - (length (wsent s) - pknows t)"
    using free window_space(1)[OF M _ w(3) l(6) ms(1)] w uk by (simp add: word_le_nat_alt)
  then show "length (wsent s) + k < pknows t + M" using w by linarith
  have "length (wsent s) < length (wgot s) + M" using w by linarith
  from window_space(1)[OF M w(2) this ms(2) ms(1)]
  show "of_nat k \<le> enq_free_space (msize s) (fst (last (rmsgs s))) (fst (last (wmsgs s)))"
    using \<open>k \<le> _\<close> w uk by (simp add: word_le_nat_alt)
qed

lemma dequeue_check_known:
  assumes tm: "timing M s" and ld: "load_write_offset i s w_off t" and k: "k < 2 ^ 64"
    and idle: "cons s = CIdle"
    and avail: "of_nat k \<le> deq_available (msize s) w_off (fst (last (rmsgs s)))"
  shows "length (wgot s) + k \<le> cknows t"
    and "of_nat k \<le> deq_available (msize s) (fst (last (wmsgs s))) (fst (last (rmsgs s)))"
proof -
  note l = load_write_offset_timing[OF tm ld]
  have M: "unat (msize s) = M" "0 < M" "M \<le> 2 ^ 63" using tm by (auto simp: timing_def)
  have ms: "unat (fst (last (wmsgs s))) = length (wsent s) mod M" "unat (fst (last (rmsgs s))) = length (wgot s) mod M"
    using tm messages_ok_last by (auto simp: timing_def)
  have w: "length (wgot s) \<le> cknows t" "cknows t \<le> length (wsent s)" "length (wsent s) < length (wgot s) + M"
    using timing_bounds[OF l(1)] timing_bounds[OF tm] ld l(7) by (auto simp: load_write_offset_def)
  have uk: "unat (of_nat k :: size_t) = k" using k by (intro unat_of_nat_fits) simp
  have "cknows t < length (wgot s) + M" using w by linarith
  from window_space(2)[OF M w(1) this ms(2) l(6)]
  have "k \<le> cknows t - length (wgot s)" using avail uk by (simp add: word_le_nat_alt)
  then show "length (wgot s) + k \<le> cknows t" using w by linarith
  have "length (wgot s) \<le> length (wsent s)" using w by linarith
  from window_space(2)[OF M this w(3) ms(2) ms(1)]
  show "of_nat k \<le> deq_available (msize s) (fst (last (wmsgs s))) (fst (last (rmsgs s)))"
    using \<open>k \<le> _\<close> w uk by (simp add: word_le_nat_alt)
qed


subsection \<open>No data race, and one visible write\<close>

lemma next_lap: "(j :: nat) mod M = k mod M \<Longrightarrow> j < k \<Longrightarrow> j + M \<le> k"
  using mod_inj_window[of j M k] by force

lemma timing_cells:
  assumes "timing M s" and "c < M"
  shows "cell_writes s c \<noteq> []" and "\<forall>w \<in> set (cell_writes s c). stamp_ok M c (ptime s) (snd w)"
    and "stamp_ok M c (ctime s) (cell_read s c)"
  using assms unfolding timing_def by blast+

lemma stamp_ok_mono: "stamp_ok M c n t \<Longrightarrow> n \<le> n' \<Longrightarrow> stamp_ok M c n' t"
  by (auto simp: stamp_ok_def)

lemma stamp_ok_next: "c = n mod M \<Longrightarrow> stamp_ok M c (n + 1) (n + 1)"
  by (simp add: stamp_ok_def)

lemma write_not_racing:
  assumes tm: "timing M s" and pc: "prod s = PCopy p (b # bs) msg"
  shows "unat p < M" and "cell_read s (unat p) \<le> pknows s"
proof -
  have p: "unat p = ptime s mod M" "0 < M" using tm pc by (auto simp: timing_def)
  then show c: "unat p < M" by simp
  have st: "stamp_ok M (unat p) (ctime s) (cell_read s (unat p))" by (rule timing_cells(3)[OF tm c])
  show "cell_read s (unat p) \<le> pknows s"
  proof (rule ccontr)
    let ?t = "cell_read s (unat p)"
    assume "\<not> ?t \<le> pknows s"
    then have t: "pknows s < ?t" "?t \<le> ctime s" "(?t - 1) mod M = ptime s mod M"
      using st p by (auto simp: stamp_ok_def)
    then have "?t - 1 < ptime s" using timing_bounds(2,4,5)[OF tm] by linarith
    then have "?t - 1 + M \<le> ptime s" by (rule next_lap[OF t(3)])
    then show False using t(1) timing_bounds(6)[OF tm] by linarith
  qed
qed

lemma read_not_racing:
  assumes tm: "timing M s" and pc: "cons s = CCopy p (Suc n) acc"
  shows "unat p < M" and "\<forall>w \<in> set (cell_writes s (unat p)). snd w \<le> cknows s"
proof -
  have p: "unat p = ctime s mod M" "0 < M" "ctime s < cknows s" using tm pc by (auto simp: timing_def)
  then show c: "unat p < M" by simp
  show "\<forall>w \<in> set (cell_writes s (unat p)). snd w \<le> cknows s"
  proof (intro ballI, rule ccontr)
    fix w assume w: "w \<in> set (cell_writes s (unat p))" "\<not> snd w \<le> cknows s"
    then have t: "cknows s < snd w" "snd w \<le> ptime s" "(snd w - 1) mod M = ctime s mod M"
      using timing_cells(2)[OF tm c] p(1) by (auto simp: stamp_ok_def)
    have "ctime s < snd w - 1" using t(1) p(3) by linarith
    then have "ctime s + M \<le> snd w - 1" by (rule next_lap[OF t(3)[symmetric]])
    then show False using t(2) timing_bounds(1,3,6)[OF tm] by linarith
  qed
qed

lemma visible_last:
  assumes "visible s c v" and "\<forall>w \<in> set (cell_writes s c). snd w \<le> cknows s"
  shows "v = fst (last (cell_writes s c))"
proof -
  obtain j where j: "j < length (cell_writes s c)" "fst (cell_writes s c ! j) = v"
    "\<forall>k < length (cell_writes s c). j < k \<longrightarrow> cknows s < snd (cell_writes s c ! k)"
    using assms(1) by (auto simp: visible_def)
  have "\<not> j < length (cell_writes s c) - 1"
    using j(3)[rule_format, of "length (cell_writes s c) - 1"] assms(2) nth_mem[of "length (cell_writes s c) - 1" "cell_writes s c"]
    by fastforce
  then have "j = length (cell_writes s c) - 1" using j(1) by simp
  then show ?thesis using j(1,2) by (metis last_conv_nth list.size(3) not_less_zero)
qed

lemma next_cell_mod: "0 < unat (msize s) \<Longrightarrow> unat p = k mod unat (msize s) \<Longrightarrow> unat (next_cell s p) = Suc k mod unat (msize s)"
  using advance_mod[of "queue (latest s)" p k] by (simp add: latest_def next_cell_def advance_def)

lemma next_cell_advance: "next_cell s p = advance (queue (latest s)) p"
  by (simp add: latest_def next_cell_def advance_def)

subsection \<open>Every step is one of SpscQueue\<close>

lemma latest_sel [simp]:
  "producer (latest s) = prod s" "consumer (latest s) = cons s" "memory_size (queue (latest s)) = msize s"
  "read_offset (queue (latest s)) = fst (last (rmsgs s))" "write_offset (queue (latest s)) = fst (last (wmsgs s))"
  "queue_memory (queue (latest s)) = map (\<lambda>c. fst (last (cell_writes s c))) [0..<unat (msize s)]"
  by (simp_all add: latest_def)

text \<open>What a step has to show.\<close>

lemma weak_inv_stepI:
  assumes "weak_inv s" and "msize t = msize s" and "timing (unat (msize s)) t" and "data_race t \<Longrightarrow> data_race s"
    and "spsc_step (latest s) (latest t) \<or> latest t = latest s"
  shows "weak_inv t"
  using assms reach_step[of spsc_init spsc_step "latest s" "latest t"] by (auto simp: weak_inv_def)

lemma wenq_byte_inv:
  assumes inv: "weak_inv s" and pc: "prod s = PCopy p (b # bs) msg"
  shows "weak_inv (s\<lparr>ptime := ptime s + 1,
       cell_writes := (cell_writes s)(unat p := cell_writes s (unat p) @ [(b, ptime s + 1)]),
       data_race := (data_race s \<or> pknows s < cell_read s (unat p)), prod := PCopy (next_cell s p) bs msg\<rparr>)"
    (is "weak_inv ?t")
proof -
  let ?M = "unat (msize s)"
  have tm: "timing ?M s" using inv by (simp add: weak_inv_def)
  note race = write_not_racing[OF tm pc]
  have p: "unat p = ptime s mod ?M" "0 < ?M" using tm pc by (auto simp: timing_def)
  have "consumer_time ?M ?t (cons s)" using tm by (cases "cons s") (auto simp: timing_def)
  moreover have "producer_time ?M ?t (prod ?t)"
    using tm pc next_cell_mod[OF p(2,1)] by (auto simp: timing_def)
  moreover have "cell_writes ?t c \<noteq> [] \<and> (\<forall>w \<in> set (cell_writes ?t c). stamp_ok ?M c (ptime ?t) (snd w)) \<and>
      stamp_ok ?M c (ctime ?t) (cell_read ?t c)" if "c < ?M" for c
    using timing_cells[OF tm that] stamp_ok_next[OF p(1)] by (auto intro: stamp_ok_mono)
  ultimately have "timing ?M ?t"
    using tm unfolding timing_def by simp
  moreover have "spsc_step (latest s) (latest ?t)"
  proof -
    have "latest ?t = (latest s)\<lparr>queue := (queue (latest s))\<lparr>queue_memory := (queue_memory (queue (latest s)))[unat p := b]\<rparr>,
        producer := PCopy (advance (queue (latest s)) p) bs msg\<rparr>"
      by (auto simp: latest_def next_cell_def advance_def nth_list_update intro!: nth_equalityI)
    then show ?thesis using enqueue_byte[of "latest s" p b bs msg] pc by simp
  qed
  ultimately show ?thesis
    using race(2) by (intro weak_inv_stepI[OF inv]) auto
qed

lemma wdeq_byte_inv:
  assumes inv: "weak_inv s" and pc: "cons s = CCopy p (Suc n) acc" and v: "visible s (unat p) v"
  shows "weak_inv (s\<lparr>ctime := ctime s + 1, cell_read := (cell_read s)(unat p := ctime s + 1),
       data_race := (data_race s \<or> (\<exists>w \<in> set (cell_writes s (unat p)). cknows s < snd w)),
       cons := CCopy (next_cell s p) n (acc @ [v])\<rparr>)"
    (is "weak_inv ?t")
proof -
  let ?M = "unat (msize s)"
  have tm: "timing ?M s" using inv by (simp add: weak_inv_def)
  note race = read_not_racing[OF tm pc]
  have p: "unat p = ctime s mod ?M" "0 < ?M" using tm pc by (auto simp: timing_def)
  have "producer_time ?M ?t (prod s)" using tm by (cases "prod s") (auto simp: timing_def)
  moreover have "consumer_time ?M ?t (cons ?t)"
    using tm pc next_cell_mod[OF p(2,1)] by (auto simp: timing_def)
  moreover have "cell_writes ?t c \<noteq> [] \<and> (\<forall>w \<in> set (cell_writes ?t c). stamp_ok ?M c (ptime ?t) (snd w)) \<and>
      stamp_ok ?M c (ctime ?t) (cell_read ?t c)" if "c < ?M" for c
    using timing_cells[OF tm that] stamp_ok_next[OF p(1)] by (auto intro: stamp_ok_mono)
  ultimately have "timing ?M ?t"
    using tm unfolding timing_def by simp
  moreover have "spsc_step (latest s) (latest ?t)"
  proof -
    have "v = queue_memory (queue (latest s)) ! unat p"
      using visible_last[OF v race(2)] race(1) by simp
    then have "latest ?t = (latest s)\<lparr>consumer := CCopy (advance (queue (latest s)) p) n
        (acc @ [queue_memory (queue (latest s)) ! unat p])\<rparr>"
      by (simp add: latest_def next_cell_def advance_def)
    then show ?thesis using dequeue_byte[of "latest s" p n acc] pc by simp
  qed
  ultimately show ?thesis
    using race(2) by (intro weak_inv_stepI[OF inv]) (auto simp: not_less)
qed


lemma wenq_publish_inv:
  assumes inv: "weak_inv s" and pc: "prod s = PCopy p [] msg"
  shows "weak_inv (s\<lparr>wmsgs := wmsgs s @ [(p, ptime s)], prod := PIdle, wsent := wsent s @ msg\<rparr>)" (is "weak_inv ?t")
proof -
  let ?M = "unat (msize s)"
  have tm: "timing ?M s" using inv by (simp add: weak_inv_def)
  have p: "unat p = ptime s mod ?M" "ptime s = length (wsent s) + length msg"
    "length (wsent s) + length msg < pknows s + ?M"
    using tm pc by (auto simp: timing_def)
  have w: "messages_ok ?M (length (wsent s)) (wmsgs s)" using tm by (simp add: timing_def)
  have "messages_ok ?M (length (wsent ?t)) (wmsgs ?t)"
    using messages_ok_snoc[OF w _ p(1)] p(2) by simp
  moreover have "consumer_time ?M ?t (cons s)" using tm by (cases "cons s") (auto simp: timing_def)
  ultimately have "timing ?M ?t"
    using tm p unfolding timing_def by (simp add: nth_append)
  moreover have "latest ?t = (latest s)\<lparr>queue := (queue (latest s))\<lparr>write_offset := p\<rparr>, producer := PIdle,
      sent := sent (latest s) @ msg\<rparr>"
    by (simp add: latest_def)
  then have "spsc_step (latest s) (latest ?t)"
    using enqueue_publish[of "latest s" p msg] pc by simp
  ultimately show ?thesis
    by (intro weak_inv_stepI[OF inv]) auto
qed

lemma wdeq_publish_inv:
  assumes inv: "weak_inv s" and pc: "cons s = CCopy p 0 acc"
  shows "weak_inv (s\<lparr>rmsgs := rmsgs s @ [(p, ctime s)], cons := CIdle, wgot := wgot s @ acc\<rparr>)" (is "weak_inv ?t")
proof -
  let ?M = "unat (msize s)"
  have tm: "timing ?M s" using inv by (simp add: weak_inv_def)
  have p: "unat p = ctime s mod ?M" "ctime s = length (wgot s) + length acc" "ctime s \<le> cknows s"
    using tm pc by (auto simp: timing_def)
  have r: "messages_ok ?M (length (wgot s)) (rmsgs s)" using tm by (simp add: timing_def)
  have "messages_ok ?M (length (wgot ?t)) (rmsgs ?t)"
    using messages_ok_snoc[OF r _ p(1)] p(2) by simp
  moreover have "producer_time ?M ?t (prod s)" using tm by (cases "prod s") (auto simp: timing_def)
  ultimately have "timing ?M ?t"
    using tm p unfolding timing_def by (simp add: nth_append)
  moreover have "latest ?t = (latest s)\<lparr>queue := (queue (latest s))\<lparr>read_offset := p\<rparr>, consumer := CIdle,
      got := got (latest s) @ acc\<rparr>"
    by (simp add: latest_def)
  then have "spsc_step (latest s) (latest ?t)"
    using dequeue_publish[of "latest s" p acc] pc by simp
  ultimately show ?thesis
    by (intro weak_inv_stepI[OF inv]) auto
qed

lemma timing_start_copy:
  assumes "timing M t"
  shows "prod t = PIdle \<Longrightarrow> unat p = ptime t mod M \<Longrightarrow> length (wsent t) + length msg < pknows t + M \<Longrightarrow>
      timing M (t\<lparr>prod := PCopy p msg msg\<rparr>)"
    and "cons t = CIdle \<Longrightarrow> unat p = ctime t mod M \<Longrightarrow> length (wgot t) + n \<le> cknows t \<Longrightarrow>
      timing M (t\<lparr>cons := CCopy p n []\<rparr>)"
proof -
  have M: "M = unat (msize t)" using assms by (simp add: timing_def)
  have "consumer_time M (t\<lparr>prod := q\<rparr>) c = consumer_time M t c" for q c by (cases c) simp_all
  then show "prod t = PIdle \<Longrightarrow> unat p = ptime t mod M \<Longrightarrow> length (wsent t) + length msg < pknows t + M \<Longrightarrow>
      timing M (t\<lparr>prod := PCopy p msg msg\<rparr>)"
    using assms unfolding timing_def M by - (elim conjE, simp)
  have "producer_time M (t\<lparr>cons := q\<rparr>) c = producer_time M t c" for q c by (cases c) simp_all
  then show "cons t = CIdle \<Longrightarrow> unat p = ctime t mod M \<Longrightarrow> length (wgot t) + n \<le> cknows t \<Longrightarrow>
      timing M (t\<lparr>cons := CCopy p n []\<rparr>)"
    using assms unfolding timing_def M by - (elim conjE, simp)
qed

lemma wenq_check_inv:
  assumes inv: "weak_inv s" and pc: "prod s = PIdle" and msg: "msg \<noteq> []" "length msg < 2 ^ 64" "of_nat (length msg) \<le> msize s"
    and ld: "load_read_offset i s r_off t" and w: "w_off = fst (last (wmsgs s))"
    and free: "of_nat (length msg) \<le> enq_free_space (msize s) r_off w_off"
  shows "weak_inv (t\<lparr>prod := PCopy w_off msg msg\<rparr>)" (is "weak_inv ?t")
proof -
  let ?M = "unat (msize s)"
  have tm: "timing ?M s" using inv by (simp add: weak_inv_def)
  note l = load_read_offset_timing[OF tm ld]
  note known = enqueue_check_known[OF tm ld msg(2) pc free[unfolded w]]
  have "unat w_off = ptime t mod ?M" "prod t = PIdle"
    using tm pc l(5,8) messages_ok_last w by (auto simp: timing_def)
  then have "timing ?M ?t" using timing_start_copy(1)[OF l(1)] known(1) l(7) by simp
  moreover have "latest ?t = (latest t)\<lparr>producer := PCopy w_off msg msg\<rparr>" by (simp add: latest_def)
  then have "spsc_step (latest s) (latest ?t)"
    using enqueue_check[of "latest s" msg] msg pc known(2) w l(2) by simp
  ultimately show ?thesis
    using l(3,4) by (intro weak_inv_stepI[OF inv]) auto
qed

lemma wdeq_check_inv:
  assumes inv: "weak_inv s" and pc: "cons s = CIdle" and n: "0 < n" "n < 2 ^ 64" "of_nat n \<le> msize s"
    and ld: "load_write_offset i s w_off t" and r: "r_off = fst (last (rmsgs s))"
    and avail: "of_nat n \<le> deq_available (msize s) w_off r_off"
  shows "weak_inv (t\<lparr>cons := CCopy r_off n []\<rparr>)" (is "weak_inv ?t")
proof -
  let ?M = "unat (msize s)"
  have tm: "timing ?M s" using inv by (simp add: weak_inv_def)
  note l = load_write_offset_timing[OF tm ld]
  note known = dequeue_check_known[OF tm ld n(2) pc avail[unfolded r]]
  have "unat r_off = ctime t mod ?M" "cons t = CIdle"
    using tm pc l(5,8) messages_ok_last r by (auto simp: timing_def)
  then have "timing ?M ?t" using timing_start_copy(2)[OF l(1)] known(1) l(7) by simp
  moreover have "latest ?t = (latest t)\<lparr>consumer := CCopy r_off n []\<rparr>" by (simp add: latest_def)
  then have "spsc_step (latest s) (latest ?t)"
    using dequeue_check[of "latest s" n] n pc known(2) r l(2) by simp
  ultimately show ?thesis
    using l(3,4) by (intro weak_inv_stepI[OF inv]) auto
qed

lemma weak_inv_load:
  assumes "weak_inv s"
  shows "load_read_offset i s r_off t \<Longrightarrow> weak_inv t" and "load_write_offset i s w_off t \<Longrightarrow> weak_inv t"
proof -
  have tm: "timing (unat (msize s)) s" using assms by (simp add: weak_inv_def)
  show "load_read_offset i s r_off t \<Longrightarrow> weak_inv t"
    using load_read_offset_timing[OF tm] by (intro weak_inv_stepI[OF assms]) auto
  show "load_write_offset i s w_off t \<Longrightarrow> weak_inv t"
    using load_write_offset_timing[OF tm] by (intro weak_inv_stepI[OF assms]) auto
qed

lemma weak_inv_step: "weak_step s t \<Longrightarrow> weak_inv s \<Longrightarrow> weak_inv t"
proof (induction rule: weak_step.induct)
  case (wenq_full s n i r_off t)
  then show ?case by (blast intro: weak_inv_load(1))
next
  case (wdeq_empty s n i w_off t)
  then show ?case by (blast intro: weak_inv_load(2))
qed (rule wenq_check_inv wdeq_check_inv wenq_byte_inv wenq_publish_inv wdeq_byte_inv wdeq_publish_inv; simp)+

lemma weak_inv_init: "weak_init s \<Longrightarrow> weak_inv s"
proof -
  assume i: "weak_init s"
  then have r: "reachable spsc_init spsc_step (latest s)" by (auto simp: weak_init_def intro: reach_init)
  have "shared_inv (latest s)" using spsc.inv_reachable[OF r] by (simp add: spsc_inv_def)
  then have "0 < unat (msize s)" "unat (msize s) \<le> 2 ^ 63" by (auto simp: shared_inv_def)
  moreover have "wsent s = []" "wgot s = []" "prod s = PIdle" "cons s = CIdle"
    using i by (auto simp: weak_init_def spsc_init_def latest_def)
  moreover have "cell_writes s c \<noteq> [] \<and> (\<forall>w \<in> set (cell_writes s c). snd w = 0)" for c
  proof -
    obtain v where "cell_writes s c = [(v, 0)]" using i by (auto simp: weak_init_def)
    then show ?thesis by simp
  qed
  ultimately have "timing (unat (msize s)) s"
    using i by (auto simp: timing_def weak_init_def messages_ok_def stamp_ok_def)
  then show ?thesis using i r by (simp add: weak_inv_def weak_init_def)
qed

interpretation weak: transition_system weak_init weak_step weak_inv
  by unfold_locales (auto intro: weak_inv_init weak_inv_step)

subsection \<open>A concrete run\<close>

text \<open>A ring of four cells: a message of two bytes, a dequeue that still sees the first write offset, and one that succeeds.\<close>

definition weak_demo :: "message list \<Rightarrow> nat \<Rightarrow> (nat \<Rightarrow> (byte \<times> nat) list) \<Rightarrow> producer_pc \<Rightarrow> byte list \<Rightarrow> weak" where
  "weak_demo ws t cells p bs = \<lparr>msize = 4, wmsgs = ws, rmsgs = [(0, 0)], cell_writes = cells, cell_read = (\<lambda>_. 0),
     ptime = t, ctime = 0, pseen = 0, cseen = 0, pknows = 0, cknows = 0, prod = p, cons = CIdle, wsent = bs, wgot = [],
     data_race = False\<rparr>"

definition weak_demo_end :: weak where
  "weak_demo_end = (weak_demo [(0, 0), (2, 2)] 2 ((\<lambda>_. [(0, 0)])(0 := [(0, 0), (7, 1)], 1 := [(0, 0), (8, 2)])) PIdle [7, 8])
     \<lparr>rmsgs := [(0, 0), (1, 1)], cell_read := (\<lambda>_. 0)(0 := 1), ctime := 1, cseen := 1, cknows := 2, wgot := [7]\<rparr>"

lemma weak_demo_init: "weak_init (weak_demo [(0, 0)] 0 (\<lambda>_. [(0, 0)]) PIdle [])"
proof -
  have "drop 24 (replicate 28 (0 :: byte)) = [0, 0, 0, 0]" by code_simp
  then have "atomic_queue_init (replicate 28 0) 28 = Some (queue (latest (weak_demo [(0, 0)] 0 (\<lambda>_. [(0, 0)]) PIdle [])))"
    by (simp add: weak_demo_def latest_def atomic_queue_init_def sizeof_atomic_queue_def upt_rec)
  then have "spsc_init (latest (weak_demo [(0, 0)] 0 (\<lambda>_. [(0, 0)]) PIdle []))"
    unfolding spsc_init_def
    by (intro conjI exI[of _ "replicate 28 0"] exI[of _ 28])
      (simp_all add: weak_demo_def latest_def sizeof_atomic_queue_def)
  then show ?thesis by (simp add: weak_init_def weak_demo_def)
qed

lemma weak_demo_run: "reachable weak_init weak_step weak_demo_end"
proof -
  let ?o = "\<lambda>_ :: nat. [(0 :: byte, 0 :: nat)]"
  let ?c = "?o(0 := [(0, 0), (7, 1)])"
  let ?d = "?c(1 := [(0, 0), (8, 2)])"
  let ?s = "weak_demo [(0, 0), (2, 2)] 2 ?d PIdle [7, 8]"
  have s1: "weak_step (weak_demo [(0, 0)] 0 ?o PIdle []) (weak_demo [(0, 0)] 0 ?o (PCopy 0 [7, 8] [7, 8]) [])"
    using wenq_check[of "weak_demo [(0, 0)] 0 ?o PIdle []" "[7, 8]" 0 0 "weak_demo [(0, 0)] 0 ?o PIdle []" 0]
    by (simp add: weak_demo_def load_read_offset_def enq_free_space_def)
  have s2: "weak_step (weak_demo [(0, 0)] 0 ?o (PCopy 0 [7, 8] [7, 8]) []) (weak_demo [(0, 0)] 1 ?c (PCopy 1 [8] [7, 8]) [])"
    using wenq_byte[of "weak_demo [(0, 0)] 0 ?o (PCopy 0 [7, 8] [7, 8]) []" 0 7 "[8]" "[7, 8]"]
    by (simp add: weak_demo_def next_cell_def)
  have s3: "weak_step (weak_demo [(0, 0)] 1 ?c (PCopy 1 [8] [7, 8]) []) (weak_demo [(0, 0)] 2 ?d (PCopy 2 [] [7, 8]) [])"
    using wenq_byte[of "weak_demo [(0, 0)] 1 ?c (PCopy 1 [8] [7, 8]) []" 1 8 "[]" "[7, 8]"]
    by (simp add: weak_demo_def next_cell_def numeral_2_eq_2)
  have s4: "weak_step (weak_demo [(0, 0)] 2 ?d (PCopy 2 [] [7, 8]) []) ?s"
    using wenq_publish[of "weak_demo [(0, 0)] 2 ?d (PCopy 2 [] [7, 8]) []" 2 "[7, 8]"]
    by (simp add: weak_demo_def)
  have s5: "weak_step ?s ?s"
    using wdeq_empty[of ?s 1 0 0 ?s] by (simp add: weak_demo_def load_write_offset_def deq_available_def)
  have s6: "weak_step ?s (?s\<lparr>cseen := 1, cknows := 2, cons := CCopy 0 1 []\<rparr>)"
    using wdeq_check[of ?s 1 1 2 "?s\<lparr>cseen := 1, cknows := 2\<rparr>" 0]
    by (simp add: weak_demo_def load_write_offset_def deq_available_def)
  have s7: "weak_step (?s\<lparr>cseen := 1, cknows := 2, cons := CCopy 0 1 []\<rparr>)
      (?s\<lparr>ctime := 1, cell_read := (\<lambda>_. 0)(0 := 1), cseen := 1, cknows := 2, cons := CCopy 1 0 [7]\<rparr>)"
    using wdeq_byte[of "?s\<lparr>cseen := 1, cknows := 2, cons := CCopy 0 1 []\<rparr>" 0 0 "[]" 7]
    by (simp add: weak_demo_def visible_def next_cell_def exI[of _ 1])
  have s8: "weak_step (?s\<lparr>ctime := 1, cell_read := (\<lambda>_. 0)(0 := 1), cseen := 1, cknows := 2, cons := CCopy 1 0 [7]\<rparr>)
      weak_demo_end"
    using wdeq_publish[of "?s\<lparr>ctime := 1, cell_read := (\<lambda>_. 0)(0 := 1), cseen := 1, cknows := 2, cons := CCopy 1 0 [7]\<rparr>" 1 "[7]"]
    by (simp add: weak_demo_def weak_demo_end_def)
  note run = reach_step[where init = weak_init and step = weak_step]
  have "reachable weak_init weak_step (weak_demo [(0, 0)] 0 ?o PIdle [])" by (rule reach_init[of weak_init, OF weak_demo_init])
  note run[OF run[OF run[OF run[OF this s1] s2] s3] s4]
  from run[OF run[OF run[OF run[OF this s5] s6] s7] s8] show ?thesis .
qed

subsection \<open>The property\<close>

text \<open>
  C3. With acquiring loads that may return old offsets and plain cells, no execution of the two sides has a data race on
  the ring, every reachable memory is one that the sequentially consistent interleaving reaches, and the bytes delivered
  are a prefix of the bytes published.
\<close>

theorem weak_refines_interleaving:
  assumes "reachable weak_init weak_step s"
  shows "\<not> data_race s \<and> reachable spsc_init spsc_step (latest s) \<and> (\<exists>unread. wsent s = wgot s @ unread)"
proof -
  have inv: "weak_inv s" by (rule weak.inv_reachable[OF assms])
  then have r: "reachable spsc_init spsc_step (latest s)" by (simp add: weak_inv_def)
  have "got (latest s) = take (length (got (latest s))) (sent (latest s))"
    using spsc.inv_reachable[OF r] by (simp add: spsc_inv_def shared_inv_def)
  then have "wsent s = wgot s @ drop (length (wgot s)) (wsent s)"
    by (metis append_take_drop_id latest_def spsc.select_convs(4,5))
  then show ?thesis using inv r by (auto simp: weak_inv_def)
qed

theorem weak_refines_interleaving_witness:
  "\<not> data_race weak_demo_end \<and> wgot weak_demo_end = [7] \<and> (\<exists>unread. ([7, 8] :: byte list) = [7] @ unread)"
  using weak_refines_interleaving[OF weak_demo_run] by (simp add: weak_demo_end_def weak_demo_def)

end
