(* ===== verification/NeuralGraph.thy ===== *)
theory NeuralGraph
  imports Prelude Complex_Main
begin

text \<open>
  The computation graph of \<open>src/nn\<close>: nodes in a heap of \<open>malloc\<close>ed structs that share
  subgraphs through pointers, forward evaluation with the \<open>output_computed\<close> cache
  (\<open>nn.h\<close>), resetting the cache, and symbolic differentiation by allocating new nodes
  (\<open>inputs.c\<close>, \<open>pairwise.c\<close>).

  The scalar type is any type with the arithmetic symbols and no laws, so that evaluation is
  proved for \<open>float\<close> arithmetic as it is; only the statement that the derivative graph computes
  the derivative is about exact real numbers.  The fuel of the recursive functions is the
  available call depth; running out of it is a \<open>StackOverflow\<close>.
\<close>

subsection \<open>Nodes and the heap\<close>

text \<open>The vtable, with the extra field of \<open>op_placeholder_t\<close> and \<open>op_const_t\<close>.\<close>

datatype ('r, 'v) vtable = Placeholder 'r | Const 'v | Add | Sub | Mul | Div

type_synonym ptr = "nat option"  \<comment> \<open>None is NULL\<close>

record ('r, 'v) operation =
  inputs :: "ptr list"
  output_value :: 'v
  output_computed :: bool
  vtable :: "('r, 'v) vtable"

text \<open>
  The heap: the allocated nodes by address, how many nodes \<open>malloc\<close> can still hand out before it
  returns NULL, and the bytes it hands out, since the constructors leave \<open>output_value\<close> and
  \<open>output_computed\<close> uninitialised.
\<close>

record ('r, 'v) heap =
  nodes :: "('r, 'v) operation list"
  limit :: nat
  garbage :: "nat \<Rightarrow> 'v \<times> bool"

definition load :: "('r, 'v) heap \<Rightarrow> ptr \<Rightarrow> c_error + ('r, 'v) operation" where
  "load h p = (case p of None \<Rightarrow> Inl NullDeref
     | Some i \<Rightarrow> if i < length (nodes h) then Inr (nodes h ! i) else Inl OutOfBounds)"

definition input :: "('r, 'v) operation \<Rightarrow> nat \<Rightarrow> c_error + ptr" where
  "input op i = (if i < length (inputs op) then Inr (inputs op ! i) else Inl OutOfBounds)"

definition store :: "('r, 'v) heap \<Rightarrow> ptr \<Rightarrow> (('r, 'v) operation \<Rightarrow> ('r, 'v) operation) \<Rightarrow> c_error + ('r, 'v) heap" where
  "store h p f = bindE (load h p) (\<lambda>op. Inr (h\<lparr>nodes := (nodes h)[the p := f op]\<rparr>))"

definition alloc_op :: "('r, 'v) heap \<Rightarrow> ptr list \<Rightarrow> ('r, 'v) vtable \<Rightarrow> ptr \<times> ('r, 'v) heap" where
  "alloc_op h ins vt =
     (let n = length (nodes h) in
      if limit h = 0 then (None, h)
      else (Some n, h\<lparr>limit := limit h - 1,
        nodes := nodes h @ [\<lparr>inputs = ins, output_value = fst (garbage h n),
                             output_computed = snd (garbage h n), vtable = vt\<rparr>]\<rparr>))"

definition make_op_placeholder :: "('r, 'v) heap \<Rightarrow> 'r \<Rightarrow> ptr \<times> ('r, 'v) heap" where
  "make_op_placeholder h reference = alloc_op h [] (Placeholder reference)"

definition make_op_const :: "('r, 'v) heap \<Rightarrow> 'v \<Rightarrow> ptr \<times> ('r, 'v) heap" where
  "make_op_const h value = alloc_op h [] (Const value)"

definition make_op_pairwise ::
  "('r, 'v) heap \<Rightarrow> ptr \<Rightarrow> ptr \<Rightarrow> ('r, 'v) vtable \<Rightarrow> ptr \<times> ('r, 'v) heap" where
  "make_op_pairwise h a b vt = alloc_op h [a, b] vt"

definition make_op_add :: "('r, 'v) heap \<Rightarrow> ptr \<Rightarrow> ptr \<Rightarrow> ptr \<times> ('r, 'v) heap" where
  "make_op_add h a b = make_op_pairwise h a b Add"

definition make_op_sub :: "('r, 'v) heap \<Rightarrow> ptr \<Rightarrow> ptr \<Rightarrow> ptr \<times> ('r, 'v) heap" where
  "make_op_sub h a b = make_op_pairwise h a b Sub"

definition make_op_mul :: "('r, 'v) heap \<Rightarrow> ptr \<Rightarrow> ptr \<Rightarrow> ptr \<times> ('r, 'v) heap" where
  "make_op_mul h a b = make_op_pairwise h a b Mul"

definition make_op_div :: "('r, 'v) heap \<Rightarrow> ptr \<Rightarrow> ptr \<Rightarrow> ptr \<times> ('r, 'v) heap" where
  "make_op_div h a b = make_op_pairwise h a b Div"

lemmas make_op_defs = make_op_add_def make_op_sub_def make_op_mul_def make_op_div_def
  make_op_pairwise_def make_op_const_def make_op_placeholder_def

subsection \<open>Evaluation\<close>

text \<open>The values that the \<open>compute\<close> functions store; the binary ones share their reads of the inputs.\<close>

definition compute_pair :: "('v \<Rightarrow> 'v \<Rightarrow> 'v) \<Rightarrow> ('r, 'v) heap \<Rightarrow> ('r, 'v) operation \<Rightarrow> c_error + 'v" where
  "compute_pair f h op =
     bindE (input op 0) (\<lambda>p0. bindE (load h p0) (\<lambda>a.
     bindE (input op 1) (\<lambda>p1. bindE (load h p1) (\<lambda>b.
       Inr (f (output_value a) (output_value b))))))"

definition compute_placeholder :: "('r \<Rightarrow> 'v) \<Rightarrow> 'r \<Rightarrow> c_error + 'v" where
  "compute_placeholder env reference = Inr (env reference)"

definition compute_const :: "'v \<Rightarrow> c_error + 'v" where
  "compute_const v = Inr v"

definition compute_add :: "('r, 'v :: plus) heap \<Rightarrow> ('r, 'v) operation \<Rightarrow> c_error + 'v" where
  "compute_add h op = compute_pair (+) h op"

definition compute_sub :: "('r, 'v :: minus) heap \<Rightarrow> ('r, 'v) operation \<Rightarrow> c_error + 'v" where
  "compute_sub h op = compute_pair (-) h op"

definition compute_mul :: "('r, 'v :: times) heap \<Rightarrow> ('r, 'v) operation \<Rightarrow> c_error + 'v" where
  "compute_mul h op = compute_pair (*) h op"

definition compute_div :: "('r, 'v :: inverse) heap \<Rightarrow> ('r, 'v) operation \<Rightarrow> c_error + 'v" where
  "compute_div h op = compute_pair (/) h op"

lemmas compute_defs [simp] = compute_placeholder_def compute_const_def compute_add_def compute_sub_def
  compute_mul_def compute_div_def

text \<open>The call through \<open>op->vtable->compute\<close>.\<close>

definition compute ::
  "('r \<Rightarrow> 'v) \<Rightarrow> ('r, 'v :: {plus, minus, times, inverse}) heap \<Rightarrow> ptr \<Rightarrow> c_error + ('r, 'v) heap" where
  "compute env h p =
     bindE (load h p) (\<lambda>op.
     bindE (case vtable op of
              Placeholder reference \<Rightarrow> compute_placeholder env reference
            | Const value \<Rightarrow> compute_const value
            | Add \<Rightarrow> compute_add h op
            | Sub \<Rightarrow> compute_sub h op
            | Mul \<Rightarrow> compute_mul h op
            | Div \<Rightarrow> compute_div h op) (\<lambda>v.
       store h p (\<lambda>op. op\<lparr>output_value := v\<rparr>)))"

fun compute_graph ::
    "('r \<Rightarrow> 'v) \<Rightarrow> nat \<Rightarrow> ('r, 'v :: {plus, minus, times, inverse}) heap \<Rightarrow> ptr \<Rightarrow>
       c_error + ('v \<times> ('r, 'v) heap)"
  and compute_inputs ::
    "('r \<Rightarrow> 'v) \<Rightarrow> nat \<Rightarrow> ('r, 'v :: {plus, minus, times, inverse}) heap \<Rightarrow> ptr list \<Rightarrow>
       c_error + ('r, 'v) heap" where
  "compute_graph env 0 h p = Inl StackOverflow"
| "compute_graph env (Suc d) h p =
     bindE (load h p) (\<lambda>op.
       if output_computed op then Inr (output_value op, h)
       else
         bindE (compute_inputs env d h (inputs op)) (\<lambda>h.
         bindE (store h p (\<lambda>op. op\<lparr>output_computed := True\<rparr>)) (\<lambda>h.
         bindE (compute env h p) (\<lambda>h.
         bindE (load h p) (\<lambda>op. Inr (output_value op, h))))))"
| "compute_inputs env d h [] = Inr h"
| "compute_inputs env d h (p # ps) =
     bindE (compute_graph env d h p) (\<lambda>(v, h). compute_inputs env d h ps)"

fun reset_graph :: "nat \<Rightarrow> ('r, 'v) heap \<Rightarrow> ptr \<Rightarrow> bool \<Rightarrow> c_error + ('r, 'v) heap"
  and reset_inputs :: "nat \<Rightarrow> ('r, 'v) heap \<Rightarrow> ptr list \<Rightarrow> bool \<Rightarrow> c_error + ('r, 'v) heap" where
  "reset_graph 0 h p force = Inl StackOverflow"
| "reset_graph (Suc d) h p force =
     bindE (load h p) (\<lambda>op.
       if \<not> output_computed op \<and> \<not> force then Inr h
       else
         bindE (reset_inputs d h (inputs op) force) (\<lambda>h.
           store h p (\<lambda>op. op\<lparr>output_computed := False\<rparr>)))"
| "reset_inputs d h [] force = Inr h"
| "reset_inputs d h (p # ps) force =
     bindE (reset_graph d h p force) (\<lambda>h. reset_inputs d h ps force)"

subsection \<open>Differentiation\<close>

text \<open>
  \<open>derivative_placeholder\<close>, ..., \<open>derivative_div\<close>, after their calls for the two inputs, whose results are
  \<open>d1\<close> and \<open>d2\<close>.  The arguments of one constructor call are evaluated from left to right (C leaves that
  order open; it only changes the addresses of the new nodes).
\<close>

definition derivative_placeholder :: "('r, 'v :: {zero, one}) heap \<Rightarrow> 'r \<Rightarrow> 'r \<Rightarrow> ptr \<times> ('r, 'v) heap" where
  "derivative_placeholder h reference v = (if v = reference then make_op_const h 1 else make_op_const h 0)"

definition derivative_const :: "('r, 'v :: zero) heap \<Rightarrow> ptr \<times> ('r, 'v) heap" where
  "derivative_const h = make_op_const h 0"

definition derivative_add :: "('r, 'v) heap \<Rightarrow> ptr \<Rightarrow> ptr \<Rightarrow> ptr \<times> ('r, 'v) heap" where
  "derivative_add h d1 d2 = make_op_add h d1 d2"

definition derivative_sub :: "('r, 'v) heap \<Rightarrow> ptr \<Rightarrow> ptr \<Rightarrow> ptr \<times> ('r, 'v) heap" where
  "derivative_sub h d1 d2 = make_op_sub h d1 d2"

definition derivative_mul :: "('r, 'v) heap \<Rightarrow> ptr \<Rightarrow> ptr \<Rightarrow> ptr \<Rightarrow> ptr \<Rightarrow> ptr \<times> ('r, 'v) heap" where
  "derivative_mul h d1 d2 in0 in1 =
     (let (a, h) = make_op_mul h d1 in1; (b, h) = make_op_mul h d2 in0
      in make_op_add h a b)"

definition derivative_div :: "('r, 'v) heap \<Rightarrow> ptr \<Rightarrow> ptr \<Rightarrow> ptr \<Rightarrow> ptr \<Rightarrow> ptr \<times> ('r, 'v) heap" where
  "derivative_div h d1 d2 in0 in1 =
     (let (x, h) = make_op_mul h d1 in1; (y, h) = make_op_mul h d2 in0;
          (a, h) = make_op_sub h x y;
          (b, h) = make_op_mul h in1 in1
      in make_op_div h a b)"

lemmas derivative_defs [simp] = derivative_placeholder_def derivative_const_def derivative_add_def
  derivative_sub_def derivative_mul_def derivative_div_def

text \<open>The call through \<open>op->vtable->derivative\<close>.\<close>

fun derivative ::
  "nat \<Rightarrow> ('r, 'v :: {zero, one}) heap \<Rightarrow> ptr \<Rightarrow> 'r \<Rightarrow> c_error + (ptr \<times> ('r, 'v) heap)" where
  "derivative 0 h p v = Inl StackOverflow"
| "derivative (Suc d) h p v =
     bindE (load h p) (\<lambda>op.
       case vtable op of
         Placeholder reference \<Rightarrow> Inr (derivative_placeholder h reference v)
       | Const _ \<Rightarrow> Inr (derivative_const h)
       | _ \<Rightarrow>
           bindE (input op 0) (\<lambda>in0.
           bindE (derivative d h in0 v) (\<lambda>(d1, h).
           bindE (input op 1) (\<lambda>in1.
           bindE (derivative d h in1 v) (\<lambda>(d2, h).
             Inr (case vtable op of
                 Add \<Rightarrow> derivative_add h d1 d2
               | Sub \<Rightarrow> derivative_sub h d1 d2
               | Mul \<Rightarrow> derivative_mul h d1 d2 in0 in1
               | _ \<Rightarrow> derivative_div h d1 d2 in0 in1))))))"

subsection \<open>What a node denotes\<close>

datatype bop = BAdd | BSub | BMul | BDiv

datatype ('r, 'v) expr = EVar 'r | ENum 'v | EBin bop "('r, 'v) expr" "('r, 'v) expr"

fun bop_vtable :: "bop \<Rightarrow> ('r, 'v) vtable" where
  "bop_vtable BAdd = Add"
| "bop_vtable BSub = Sub"
| "bop_vtable BMul = Mul"
| "bop_vtable BDiv = Div"

fun bop_apply :: "bop \<Rightarrow> 'v \<Rightarrow> 'v \<Rightarrow> 'v :: {plus, minus, times, inverse}" where
  "bop_apply BAdd a b = a + b"
| "bop_apply BSub a b = a - b"
| "bop_apply BMul a b = a * b"
| "bop_apply BDiv a b = a / b"

primrec eval :: "('r \<Rightarrow> 'v) \<Rightarrow> ('r, 'v :: {plus, minus, times, inverse}) expr \<Rightarrow> 'v" where
  "eval env (EVar r) = env r"
| "eval env (ENum c) = c"
| "eval env (EBin b e f) = bop_apply b (eval env e) (eval env f)"

primrec depth :: "('r, 'v) expr \<Rightarrow> nat" where
  "depth (EVar r) = 1"
| "depth (ENum c) = 1"
| "depth (EBin b e f) = Suc (max (depth e) (depth f))"

text \<open>\<open>denotes ns p e\<close>: unfolding the shared graph below \<open>p\<close> gives the tree \<open>e\<close>.\<close>

inductive denotes :: "('r, 'v) operation list \<Rightarrow> nat \<Rightarrow> ('r, 'v) expr \<Rightarrow> bool"
  for ns :: "('r, 'v) operation list" where
  d_var: "i < length ns \<Longrightarrow> inputs (ns ! i) = [] \<Longrightarrow> vtable (ns ! i) = Placeholder r \<Longrightarrow>
    denotes ns i (EVar r)"
| d_num: "i < length ns \<Longrightarrow> inputs (ns ! i) = [] \<Longrightarrow> vtable (ns ! i) = Const c \<Longrightarrow>
    denotes ns i (ENum c)"
| d_bin: "i < length ns \<Longrightarrow> inputs (ns ! i) = [Some a, Some b] \<Longrightarrow> vtable (ns ! i) = bop_vtable bo \<Longrightarrow>
    denotes ns a e \<Longrightarrow> denotes ns b f \<Longrightarrow> denotes ns i (EBin bo e f)"

inductive_cases denotes_varE [elim!]: "denotes ns i (EVar r)"
inductive_cases denotes_numE [elim!]: "denotes ns i (ENum c)"
inductive_cases denotes_binE [elim!]: "denotes ns i (EBin bo e f)"

lemma bop_vtable_inj [simp]: "bop_vtable a = bop_vtable b \<longleftrightarrow> a = b"
  by (cases a; cases b) auto

lemma bop_vtable_leaf [simp]:
  "bop_vtable b \<noteq> Placeholder r" "bop_vtable b \<noteq> Const c"
  "Placeholder r \<noteq> bop_vtable b" "Const c \<noteq> bop_vtable b"
  by (cases b; simp)+

lemma denotes_less: "denotes ns i e \<Longrightarrow> i < length ns"
  by (erule denotes.cases) auto

lemma denotes_unique: "denotes ns i e \<Longrightarrow> denotes ns i f \<Longrightarrow> e = f"
proof (induction arbitrary: f rule: denotes.induct)
  case (d_bin i a b bo e1 e2)
  from d_bin.prems d_bin.hyps obtain g1 g2 where "f = EBin bo g1 g2" "denotes ns a g1" "denotes ns b g2"
    by (cases rule: denotes.cases) simp_all
  then show ?case using d_bin.IH by simp
next
  case (d_var i r)
  from d_var.prems d_var.hyps show ?case by (cases rule: denotes.cases) simp_all
next
  case (d_num i c)
  from d_num.prems d_num.hyps show ?case by (cases rule: denotes.cases) simp_all
qed

text \<open>Two heaps of the same shape, whatever their cached values.\<close>

definition same_shape :: "('r, 'v) operation list \<Rightarrow> ('r, 'v) operation list \<Rightarrow> bool" where
  "same_shape ns ms \<longleftrightarrow> length ns \<le> length ms \<and>
     (\<forall>i < length ns. inputs (ms ! i) = inputs (ns ! i) \<and> vtable (ms ! i) = vtable (ns ! i))"

lemma same_shape_refl [simp]: "same_shape ns ns"
  by (simp add: same_shape_def)

lemma same_shape_trans: "same_shape ns ms \<Longrightarrow> same_shape ms ks \<Longrightarrow> same_shape ns ks"
  by (simp add: same_shape_def)

lemma same_shape_append [simp]: "same_shape ns (ns @ ms)"
  by (simp add: same_shape_def nth_append)

lemma denotes_same_shape: "denotes ns i e \<Longrightarrow> same_shape ns ms \<Longrightarrow> denotes ms i e"
proof (induction rule: denotes.induct)
  case (d_bin i a b bo e f)
  then show ?case by (intro denotes.d_bin[of i ms a b]) (simp_all add: same_shape_def)
qed (simp_all add: same_shape_def denotes.d_var denotes.d_num)

lemma load_Some [simp]: "i < length (nodes h) \<Longrightarrow> load h (Some i) = Inr (nodes h ! i)"
  by (simp add: load_def)

lemma store_Some [simp]:
  "i < length (nodes h) \<Longrightarrow> store h (Some i) f = Inr (h\<lparr>nodes := (nodes h)[i := f (nodes h ! i)]\<rparr>)"
  by (simp add: store_def)

lemma input_nth [simp]: "i < length (inputs op) \<Longrightarrow> input op i = Inr (inputs op ! i)"
  by (simp add: input_def)

subsection \<open>Forward evaluation is correct\<close>

inductive reaches :: "('r, 'v) operation list \<Rightarrow> nat \<Rightarrow> nat \<Rightarrow> bool"
  for ns :: "('r, 'v) operation list" where
  reaches_refl: "reaches ns i i"
| reaches_input: "i < length ns \<Longrightarrow> Some k \<in> set (inputs (ns ! i)) \<Longrightarrow> reaches ns k j \<Longrightarrow> reaches ns i j"

text \<open>Every cached value below \<open>i\<close> is the value of what its node denotes.\<close>

definition cache_ok :: "('r \<Rightarrow> 'v) \<Rightarrow> ('r, 'v :: {plus, minus, times, inverse}) operation list \<Rightarrow> nat \<Rightarrow> bool" where
  "cache_ok env ns i \<longleftrightarrow>
     (\<forall>j e. reaches ns i j \<longrightarrow> denotes ns j e \<longrightarrow> output_computed (ns ! j) \<longrightarrow> output_value (ns ! j) = eval env e)"

text \<open>What an evaluation may change: it fills caches with right values.\<close>

definition cache_fill ::
  "('r \<Rightarrow> 'v) \<Rightarrow> ('r, 'v :: {plus, minus, times, inverse}) operation list \<Rightarrow> ('r, 'v) operation list \<Rightarrow> bool" where
  "cache_fill env ns ms \<longleftrightarrow> length ms = length ns \<and> same_shape ns ms \<and>
     (\<forall>i < length ns. ms ! i = ns ! i \<or>
        output_computed (ms ! i) \<and> (\<forall>e. denotes ns i e \<longrightarrow> output_value (ms ! i) = eval env e))"

lemma same_shape_sym: "length ms = length ns \<Longrightarrow> same_shape ns ms \<Longrightarrow> same_shape ms ns"
  by (simp add: same_shape_def)

lemma denotes_shape_iff:
  "length ms = length ns \<Longrightarrow> same_shape ns ms \<Longrightarrow> denotes ms i e \<longleftrightarrow> denotes ns i e"
  using denotes_same_shape same_shape_sym by blast

lemma reaches_same_shape: "reaches ns i j \<Longrightarrow> same_shape ns ms \<Longrightarrow> reaches ms i j"
  by (induction rule: reaches.induct)
    (auto simp: same_shape_def intro: reaches_refl reaches_input)

lemma cache_fill_shape: "cache_fill env ns ms \<Longrightarrow> length ms = length ns \<and> same_shape ns ms"
  by (simp add: cache_fill_def)

lemma cache_fill_refl [simp]: "cache_fill env ns ns"
  by (simp add: cache_fill_def)

lemma cache_fill_trans:
  assumes "cache_fill env ns ms" and "cache_fill env ms ks"
  shows "cache_fill env ns ks"
proof -
  have sh: "length ms = length ns" "same_shape ns ms" using assms(1) by (auto simp: cache_fill_def)
  have "ks ! i = ns ! i \<or> output_computed (ks ! i) \<and> (\<forall>e. denotes ns i e \<longrightarrow> output_value (ks ! i) = eval env e)"
    if "i < length ns" for i
    using assms that sh(1) unfolding cache_fill_def denotes_shape_iff[OF sh] by metis
  then show ?thesis
    using assms by (auto simp: cache_fill_def intro: same_shape_trans)
qed

lemma cache_ok_fill:
  assumes "cache_ok env ns i" and fill: "cache_fill env ns ms"
  shows "cache_ok env ms i"
  unfolding cache_ok_def
proof (intro allI impI)
  fix j e
  assume r: "reaches ms i j" and d: "denotes ms j e" and c: "output_computed (ms ! j)"
  have sh: "length ms = length ns" "same_shape ns ms" using fill by (auto simp: cache_fill_def)
  have d': "denotes ns j e" using d denotes_shape_iff[OF sh] by simp
  have "reaches ns i j" using r reaches_same_shape same_shape_sym[OF sh] by blast
  then show "output_value (ms ! j) = eval env e"
    using assms d' c denotes_less[OF d'] by (auto simp: cache_fill_def cache_ok_def)
qed

lemma cache_ok_input:
  "cache_ok env ns i \<Longrightarrow> i < length ns \<Longrightarrow> Some k \<in> set (inputs (ns ! i)) \<Longrightarrow> cache_ok env ns k"
  by (auto simp: cache_ok_def intro: reaches_input)

text \<open>Filling the cache of one node, once its inputs are right.\<close>

lemma cache_fill_update:
  assumes "i < length ns" and "\<And>e. denotes ns i e \<Longrightarrow> v = eval env e"
  shows "cache_fill env ns (ns[i := (ns ! i)\<lparr>output_computed := True, output_value := v\<rparr>])"
  using assms by (auto simp: cache_fill_def same_shape_def nth_list_update)

lemma cache_ok_self:
  "cache_ok env ns i \<Longrightarrow> denotes ns i e \<Longrightarrow> output_computed (ns ! i) \<Longrightarrow> output_value (ns ! i) = eval env e"
  by (auto simp: cache_ok_def intro: reaches_refl)

lemma cache_fill_value:
  "cache_fill env ns ms \<Longrightarrow> denotes ns i e \<Longrightarrow> output_value (ns ! i) = eval env e \<Longrightarrow>
     output_value (ms ! i) = eval env e"
  using denotes_less[of ns i e] by (auto simp: cache_fill_def)

lemma cache_fill_computed:
  "cache_fill env ns ms \<Longrightarrow> i < length ns \<Longrightarrow> output_computed (ns ! i) \<Longrightarrow> output_computed (ms ! i)"
  by (auto simp: cache_fill_def)

text \<open>The postcondition of an evaluation of node \<open>i\<close>, which denotes \<open>e\<close>.\<close>

definition evaluated ::
  "('r \<Rightarrow> 'v) \<Rightarrow> ('r, 'v :: {plus, minus, times, inverse}) heap \<Rightarrow> nat \<Rightarrow> ('r, 'v) expr \<Rightarrow>
     c_error + ('v \<times> ('r, 'v) heap) \<Rightarrow> bool" where
  "evaluated env h i e r \<longleftrightarrow> (\<exists>h'. r = Inr (eval env e, h') \<and> cache_fill env (nodes h) (nodes h') \<and>
     output_computed (nodes h' ! i) \<and> output_value (nodes h' ! i) = eval env e)"

lemma evaluated_cached:
  assumes "denotes (nodes h) i e" and "cache_ok env (nodes h) i" and "output_computed (nodes h ! i)"
  shows "evaluated env h i e (compute_graph env (Suc d) h (Some i))"
  using assms denotes_less[OF assms(1)] cache_ok_self[OF assms(2,1,3)] by (simp add: evaluated_def)

lemma evaluated_stored:
  assumes "denotes (nodes h) i e" and "cache_fill env (nodes h) ns"
    and "r = Inr (eval env e, h'\<lparr>nodes := ns[i := (ns ! i)\<lparr>output_computed := True, output_value := eval env e\<rparr>]\<rparr>)"
  shows "evaluated env h i e r"
proof -
  have i: "i < length ns" and d: "denotes ns i e"
    using denotes_less[OF assms(1)] cache_fill_shape[OF assms(2)] denotes_same_shape[OF assms(1)] by auto
  have "cache_fill env ns (ns[i := (ns ! i)\<lparr>output_computed := True, output_value := eval env e\<rparr>])"
    using i denotes_unique[OF d] by (intro cache_fill_update) auto
  from cache_fill_trans[OF assms(2) this] i show ?thesis
    by (simp add: evaluated_def assms(3))
qed

lemma evaluated_leaf:
  assumes e: "denotes (nodes h) i e" and ok: "cache_ok env (nodes h) i"
    and leaf: "inputs (nodes h ! i) = []"
    and v: "vtable (nodes h ! i) = Placeholder r \<and> eval env e = env r \<or>
            vtable (nodes h ! i) = Const (eval env e)"
  shows "evaluated env h i e (compute_graph env (Suc d) h (Some i))"
proof (cases "output_computed (nodes h ! i)")
  case True
  then show ?thesis by (rule evaluated_cached[OF e ok])
next
  case False
  then show ?thesis
    using leaf v denotes_less[OF e]
    by (intro evaluated_stored[OF e cache_fill_refl, where h' = h]) (auto simp: compute_def)
qed

lemma compute_bin:
  assumes "i < length ns" "inputs (ns ! i) = [Some a, Some b]" "vtable (ns ! i) = bop_vtable bo"
    "a < length ns" "b < length ns" "nodes h = ns[i := (ns ! i)\<lparr>output_computed := True\<rparr>]"
  shows "compute env h (Some i) = Inr (h\<lparr>nodes := ns[i := (ns ! i)\<lparr>output_computed := True,
           output_value := bop_apply bo (output_value (ns ! a)) (output_value (ns ! b))\<rparr>]\<rparr>)"
  using assms by (cases bo) (auto simp: compute_def compute_pair_def nth_list_update)

lemma compute_graph_bin:
  assumes "i < length (nodes h)" "\<not> output_computed (nodes h ! i)" "inputs (nodes h ! i) = [Some a, Some b]"
    "vtable (nodes h ! i) = bop_vtable bo" "a < length (nodes h)" "b < length (nodes h)"
    and "compute_graph env d h (Some a) = Inr (va, h1)" "compute_graph env d h1 (Some b) = Inr (vb, h2)"
    and "length (nodes h2) = length (nodes h)" "same_shape (nodes h) (nodes h2)"
    and "output_value (nodes h2 ! a) = va" "output_value (nodes h2 ! b) = vb"
  shows "compute_graph env (Suc d) h (Some i) = Inr (bop_apply bo va vb, h2\<lparr>nodes :=
           (nodes h2)[i := (nodes h2 ! i)\<lparr>output_computed := True, output_value := bop_apply bo va vb\<rparr>]\<rparr>)"
proof -
  have "inputs (nodes h2 ! i) = [Some a, Some b]" "vtable (nodes h2 ! i) = bop_vtable bo"
    using assms by (auto simp: same_shape_def)
  then show ?thesis
    using assms compute_bin[of i "nodes h2" a b bo
        "h2\<lparr>nodes := (nodes h2)[i := (nodes h2 ! i)\<lparr>output_computed := True\<rparr>]\<rparr>" env]
    by simp
qed

lemma compute_graph_evaluates:
  assumes "denotes (nodes h) i e" and "cache_ok env (nodes h) i" and "depth e \<le> d"
  shows "evaluated env h i e (compute_graph env d h (Some i))"
  using assms
proof (induction e arbitrary: d h i rule: expr.induct)
  case (EVar r)
  then obtain d' where d: "d = Suc d'" by (cases d) auto
  show ?case unfolding d using EVar(1,2) by (intro evaluated_leaf) auto
next
  case (ENum c)
  then obtain d' where d: "d = Suc d'" by (cases d) auto
  show ?case unfolding d using ENum(1,2) by (intro evaluated_leaf) auto
next
  case (EBin bo e f)
  then obtain d' where d: "d = Suc d'" "depth e \<le> d'" "depth f \<le> d'"
    by (cases d) auto
  from EBin(3) obtain a b where i: "i < length (nodes h)" "inputs (nodes h ! i) = [Some a, Some b]"
    "vtable (nodes h ! i) = bop_vtable bo" and da: "denotes (nodes h) a e" and db: "denotes (nodes h) b f"
    by auto
  show ?case
  proof (cases "output_computed (nodes h ! i)")
    case True
    then show ?thesis unfolding d(1) by (rule evaluated_cached[OF EBin(3,4)])
  next
    case False
    have ca: "cache_ok env (nodes h) a" and cb: "cache_ok env (nodes h) b"
      using cache_ok_input[OF EBin(4) i(1)] i(2) by auto
    obtain h1 where h1: "compute_graph env d' h (Some a) = Inr (eval env e, h1)"
      "cache_fill env (nodes h) (nodes h1)" "output_value (nodes h1 ! a) = eval env e"
      using EBin.IH(1)[OF da ca d(2)] by (auto simp: evaluated_def)
    note sh1 = cache_fill_shape[OF h1(2)]
    have d1: "denotes (nodes h1) a e" "denotes (nodes h1) b f"
      using da db denotes_same_shape sh1 by blast+
    obtain h2 where h2: "compute_graph env d' h1 (Some b) = Inr (eval env f, h2)"
      "cache_fill env (nodes h1) (nodes h2)" "output_value (nodes h2 ! b) = eval env f"
      using EBin.IH(2)[OF d1(2) cache_ok_fill[OF cb h1(2)] d(3)] by (auto simp: evaluated_def)
    note fill = cache_fill_trans[OF h1(2) h2(2)]
    have "compute_graph env (Suc d') h (Some i) = Inr (eval env (EBin bo e f), h2\<lparr>nodes :=
        (nodes h2)[i := (nodes h2 ! i)\<lparr>output_computed := True, output_value := eval env (EBin bo e f)\<rparr>]\<rparr>)"
      unfolding eval.simps
      using cache_fill_shape[OF fill] denotes_less[OF da] denotes_less[OF db]
      by (intro compute_graph_bin[OF i(1) False i(2,3) _ _ h1(1) h2(1)])
        (simp_all add: cache_fill_value[OF h2(2) d1(1) h1(3)] h2(3))
    from evaluated_stored[OF EBin(3) fill this] show ?thesis unfolding d(1) .
  qed
qed

subsection \<open>Which nodes are marked and which are cleared\<close>

inductive_cases reachesE: "reaches ns i j"

lemma reaches_bin:
  "i < length ns \<Longrightarrow> inputs (ns ! i) = [Some a, Some b] \<Longrightarrow>
     reaches ns i j \<longleftrightarrow> j = i \<or> reaches ns a j \<or> reaches ns b j"
  by (auto elim: reachesE intro: reaches_refl reaches_input)

lemma reaches_leaf: "inputs (ns ! i) = [] \<Longrightarrow> reaches ns i j \<longleftrightarrow> j = i"
  by (auto elim: reachesE intro: reaches_refl)

lemma reaches_trans: "reaches ns i j \<Longrightarrow> reaches ns j k \<Longrightarrow> reaches ns i k"
  by (induction rule: reaches.induct) (auto intro: reaches_input)

lemma reaches_shape_iff:
  "length ms = length ns \<Longrightarrow> same_shape ns ms \<Longrightarrow> reaches ms i j \<longleftrightarrow> reaches ns i j"
  using reaches_same_shape same_shape_sym by blast

text \<open>\<open>flags_change ns ms F\<close>: same shape, and the flag of every node \<open>j\<close> is now \<open>F j\<close>.\<close>

definition flags_are :: "('r, 'v) operation list \<Rightarrow> ('r, 'v) operation list \<Rightarrow> (nat \<Rightarrow> bool) \<Rightarrow> bool" where
  "flags_are ns ms F \<longleftrightarrow> length ms = length ns \<and> same_shape ns ms \<and>
     (\<forall>j < length ns. output_computed (ms ! j) = F j)"

lemma flags_areD:
  "flags_are ns ms F \<Longrightarrow> length ms = length ns \<and> same_shape ns ms"
  "flags_are ns ms F \<Longrightarrow> j < length ns \<Longrightarrow> output_computed (ms ! j) = F j"
  by (auto simp: flags_are_def)

lemma flags_are_update:
  assumes "flags_are ns ms F" and "i < length ns"
    and "inputs (op) = inputs (ms ! i)" "vtable op = vtable (ms ! i)"
    and "\<And>j. j < length ns \<Longrightarrow> G j = (if j = i then output_computed op else F j)"
  shows "flags_are ns (ms[i := op]) G"
  using assms by (auto simp: flags_are_def same_shape_def nth_list_update)

text \<open>An early return of the unforced reset is harmless when uncached nodes have no cached node below.\<close>

definition clear_below :: "('r, 'v) operation list \<Rightarrow> nat \<Rightarrow> bool" where
  "clear_below ns i \<longleftrightarrow>
     (\<forall>j k. reaches ns i j \<longrightarrow> \<not> output_computed (ns ! j) \<longrightarrow> reaches ns j k \<longrightarrow> k < length ns \<longrightarrow>
        \<not> output_computed (ns ! k))"

lemma denotes_reach_less: "denotes ns i e \<Longrightarrow> reaches ns i j \<Longrightarrow> j < length ns"
proof (induction rule: denotes.induct)
  case (d_bin i a b bo e f)
  then show ?case using reaches_bin[OF d_bin(1,2)] by auto
qed (auto simp: reaches_leaf)

lemma clear_below_mono:
  assumes "clear_below ns i" and "reaches ns i a" and "flags_are ns ms (\<lambda>j. output_computed (ns ! j) \<and> \<not> reaches ns c j)"
    and "\<And>j. reaches ns a j \<Longrightarrow> j < length ns"
  shows "clear_below ms a"
  unfolding clear_below_def
proof (intro allI impI)
  have sh: "length ms = length ns" "same_shape ns ms" using flags_areD(1)[OF assms(3)] by auto
  fix j k
  assume "reaches ms a j" and j: "\<not> output_computed (ms ! j)" and "reaches ms j k" and "k < length ms"
  then have r: "reaches ns a j" "reaches ns j k" and k: "k < length ns"
    using reaches_shape_iff[OF sh] sh(1) by simp_all
  have flag: "output_computed (ms ! x) = (output_computed (ns ! x) \<and> \<not> reaches ns c x)" if "x < length ns" for x
    using flags_areD(2)[OF assms(3) that] .
  have "j < length ns" using assms(4)[OF r(1)] .
  then have "\<not> output_computed (ns ! j) \<or> reaches ns c j" using flag j by blast
  then show "\<not> output_computed (ms ! k)"
  proof
    assume "\<not> output_computed (ns ! j)"
    then have "\<not> output_computed (ns ! k)"
      using assms(1,2) r k reaches_trans unfolding clear_below_def by blast
    then show ?thesis using flag[OF k] by blast
  next
    assume "reaches ns c j"
    then have "reaches ns c k" using r(2) by (rule reaches_trans)
    then show ?thesis using flag[OF k] by blast
  qed
qed

lemma reset_graph_leaf:
  assumes "i < length (nodes h)" and "inputs (nodes h ! i) = []"
  shows "\<exists>h'. reset_graph (Suc d) h (Some i) force = Inr h' \<and>
     flags_are (nodes h) (nodes h') (\<lambda>j. output_computed (nodes h ! j) \<and> \<not> reaches (nodes h) i j)"
  using assms by (auto simp: reaches_leaf flags_are_def same_shape_def nth_list_update)

lemma reset_graph_clears:
  assumes "denotes (nodes h) i e" and "depth e \<le> d" and "force \<or> clear_below (nodes h) i"
  shows "\<exists>h'. reset_graph d h (Some i) force = Inr h' \<and>
     flags_are (nodes h) (nodes h') (\<lambda>j. output_computed (nodes h ! j) \<and> \<not> reaches (nodes h) i j)"
  using assms
proof (induction e arbitrary: d h i rule: expr.induct)
  case (EBin bo e f)
  then obtain d' where d: "d = Suc d'" "depth e \<le> d'" "depth f \<le> d'"
    by (cases d) auto
  from EBin(3) obtain a b where i: "i < length (nodes h)" "inputs (nodes h ! i) = [Some a, Some b]"
    and da: "denotes (nodes h) a e" and db: "denotes (nodes h) b f"
    by auto
  note reach = reaches_bin[OF i]
  show ?case
  proof (cases "\<not> output_computed (nodes h ! i) \<and> \<not> force")
    case True
    then have "flags_are (nodes h) (nodes h) (\<lambda>j. output_computed (nodes h ! j) \<and> \<not> reaches (nodes h) i j)"
      using EBin(5) denotes_reach_less[OF EBin(3)]
      by (auto simp: flags_are_def clear_below_def intro: reaches_refl)
    then show ?thesis using True d i by auto
  next
    case False
    have ra: "reaches (nodes h) i a" "reaches (nodes h) i b" using reach by (auto intro: reaches_refl)
    have "force \<or> clear_below (nodes h) a"
      using EBin(5) ra reaches_trans unfolding clear_below_def by blast
    then obtain h1 where h1: "reset_graph d' h (Some a) force = Inr h1" "flags_are (nodes h) (nodes h1)
        (\<lambda>j. output_computed (nodes h ! j) \<and> \<not> reaches (nodes h) a j)"
      using EBin.IH(1)[OF da d(2)] by blast
    note sh1 = flags_areD(1)[OF h1(2)]
    have "force \<or> clear_below (nodes h1) b"
      using EBin(5) clear_below_mono[OF _ ra(2) h1(2)] denotes_reach_less[OF db] by blast
    then obtain h2 where h2: "reset_graph d' h1 (Some b) force = Inr h2" "flags_are (nodes h1) (nodes h2)
        (\<lambda>j. output_computed (nodes h1 ! j) \<and> \<not> reaches (nodes h1) b j)"
      using EBin.IH(2)[OF denotes_same_shape[OF db] d(3)] sh1 by blast
    have "flags_are (nodes h) (nodes h2)
        (\<lambda>j. output_computed (nodes h ! j) \<and> \<not> reaches (nodes h) a j \<and> \<not> reaches (nodes h) b j)"
      using h1(2) h2(2) reaches_shape_iff[of "nodes h1" "nodes h"] sh1
      by (auto simp: flags_are_def intro: same_shape_trans)
    then have "flags_are (nodes h) ((nodes h2)[i := (nodes h2 ! i)\<lparr>output_computed := False\<rparr>])
        (\<lambda>j. output_computed (nodes h ! j) \<and> \<not> reaches (nodes h) i j)"
      by (rule flags_are_update[OF _ i(1)]) (auto simp: reach)
    moreover have "i < length (nodes h2)" using i(1) h1(2) h2(2) by (simp add: flags_are_def)
    ultimately show ?thesis
      using False d(1) i h1(1) h2(1) by auto
  qed
next
  case (EVar r)
  then obtain d' where d: "d = Suc d'" by (cases d) auto
  show ?case unfolding d using EVar(1) by (intro reset_graph_leaf) auto
next
  case (ENum c)
  then obtain d' where d: "d = Suc d'" by (cases d) auto
  show ?case unfolding d using ENum(1) by (intro reset_graph_leaf) auto
qed

text \<open>Evaluation marks exactly the nodes below, provided cached nodes have only cached nodes below.\<close>

definition marked_below :: "('r, 'v) operation list \<Rightarrow> nat \<Rightarrow> bool" where
  "marked_below ns i \<longleftrightarrow>
     (\<forall>j k. reaches ns i j \<longrightarrow> output_computed (ns ! j) \<longrightarrow> reaches ns j k \<longrightarrow> output_computed (ns ! k))"

lemma marked_below_mono:
  assumes "marked_below ns i" and "reaches ns i a" and "flags_are ns ms (\<lambda>j. output_computed (ns ! j) \<or> reaches ns c j)"
    and "\<And>j. reaches ns a j \<Longrightarrow> j < length ns"
  shows "marked_below ms a"
  unfolding marked_below_def
proof (intro allI impI)
  have sh: "length ms = length ns" "same_shape ns ms" using flags_areD(1)[OF assms(3)] by auto
  fix j k
  assume "reaches ms a j" and j: "output_computed (ms ! j)" and "reaches ms j k"
  then have r: "reaches ns a j" "reaches ns j k"
    using reaches_shape_iff[OF sh] by simp_all
  have less: "j < length ns" "k < length ns"
    using assms(4) r reaches_trans[OF r] by simp_all
  have "output_computed (ns ! j) \<or> reaches ns c j"
    using flags_areD(2)[OF assms(3) less(1)] j by blast
  then have "output_computed (ns ! k) \<or> reaches ns c k"
    using assms(1,2) r reaches_trans unfolding marked_below_def by blast
  then show "output_computed (ms ! k)"
    using flags_areD(2)[OF assms(3) less(2)] by blast
qed

lemma compute_graph_flags_leaf:
  assumes "i < length (nodes h)" and "inputs (nodes h ! i) = []"
    and "vtable (nodes h ! i) = Placeholder r \<or> vtable (nodes h ! i) = Const c"
  shows "\<exists>v h'. compute_graph env (Suc d) h (Some i) = Inr (v, h') \<and>
     flags_are (nodes h) (nodes h') (\<lambda>j. output_computed (nodes h ! j) \<or> reaches (nodes h) i j)"
  using assms
  by (auto simp: compute_def reaches_leaf flags_are_def same_shape_def nth_list_update)

lemma compute_graph_flags:
  assumes "denotes (nodes h) i e" and "depth e \<le> d" and "marked_below (nodes h) i"
  shows "\<exists>v h'. compute_graph env d h (Some i) = Inr (v, h') \<and>
     flags_are (nodes h) (nodes h') (\<lambda>j. output_computed (nodes h ! j) \<or> reaches (nodes h) i j)"
  using assms
proof (induction e arbitrary: d h i rule: expr.induct)
  case (EVar r)
  then obtain d' where d: "d = Suc d'" by (cases d) auto
  show ?case unfolding d using EVar(1) by (intro compute_graph_flags_leaf) auto
next
  case (ENum c)
  then obtain d' where d: "d = Suc d'" by (cases d) auto
  show ?case unfolding d using ENum(1) by (intro compute_graph_flags_leaf) auto
next
  case (EBin bo e f)
  then obtain d' where d: "d = Suc d'" "depth e \<le> d'" "depth f \<le> d'"
    by (cases d) auto
  from EBin(3) obtain a b where i: "i < length (nodes h)" "inputs (nodes h ! i) = [Some a, Some b]"
    "vtable (nodes h ! i) = bop_vtable bo" and da: "denotes (nodes h) a e" and db: "denotes (nodes h) b f"
    by auto
  note reach = reaches_bin[OF i(1,2)]
  show ?case
  proof (cases "output_computed (nodes h ! i)")
    case True
    then have "flags_are (nodes h) (nodes h) (\<lambda>j. output_computed (nodes h ! j) \<or> reaches (nodes h) i j)"
      using EBin(5) by (auto simp: flags_are_def marked_below_def intro: reaches_refl)
    then show ?thesis using True d i by auto
  next
    case False
    have ra: "reaches (nodes h) i a" "reaches (nodes h) i b" using reach by (auto intro: reaches_refl)
    have "marked_below (nodes h) a"
      using EBin(5) ra reaches_trans unfolding marked_below_def by blast
    then obtain va h1 where h1: "compute_graph env d' h (Some a) = Inr (va, h1)" "flags_are (nodes h) (nodes h1)
        (\<lambda>j. output_computed (nodes h ! j) \<or> reaches (nodes h) a j)"
      using EBin.IH(1)[OF da d(2)] by blast
    note sh1 = flags_areD(1)[OF h1(2)]
    have "marked_below (nodes h1) b"
      using marked_below_mono[OF EBin(5) ra(2) h1(2)] denotes_reach_less[OF db] by blast
    then obtain vb h2 where h2: "compute_graph env d' h1 (Some b) = Inr (vb, h2)" "flags_are (nodes h1) (nodes h2)
        (\<lambda>j. output_computed (nodes h1 ! j) \<or> reaches (nodes h1) b j)"
      using EBin.IH(2)[OF denotes_same_shape[OF db] d(3)] sh1 by blast
    have fl: "flags_are (nodes h) (nodes h2)
        (\<lambda>j. output_computed (nodes h ! j) \<or> reaches (nodes h) a j \<or> reaches (nodes h) b j)"
      using h1(2) h2(2) reaches_shape_iff[of "nodes h1" "nodes h"] sh1
      by (auto simp: flags_are_def intro: same_shape_trans)
    note sh = flags_areD(1)[OF fl]
    let ?v = "bop_apply bo (output_value (nodes h2 ! a)) (output_value (nodes h2 ! b))"
    let ?h = "h2\<lparr>nodes := (nodes h2)[i := (nodes h2 ! i)\<lparr>output_computed := True\<rparr>]\<rparr>"
    have i2: "i < length (nodes h2)" "inputs (nodes h2 ! i) = [Some a, Some b]"
      "vtable (nodes h2 ! i) = bop_vtable bo" "a < length (nodes h2)" "b < length (nodes h2)"
      using i sh denotes_less[OF da] denotes_less[OF db] by (auto simp: same_shape_def)
    have "compute_graph env d h (Some i) = Inr (?v, h2\<lparr>nodes :=
        (nodes h2)[i := (nodes h2 ! i)\<lparr>output_computed := True, output_value := ?v\<rparr>]\<rparr>)"
      using False d(1) i h1(1) h2(1) i2 compute_bin[OF i2, of ?h env] by simp
    moreover have "flags_are (nodes h)
        ((nodes h2)[i := (nodes h2 ! i)\<lparr>output_computed := True, output_value := ?v\<rparr>])
        (\<lambda>j. output_computed (nodes h ! j) \<or> reaches (nodes h) i j)"
      by (rule flags_are_update[OF fl i(1)]) (auto simp: reach)
    ultimately show ?thesis by auto
  qed
qed

subsection \<open>Evaluating, resetting and evaluating again\<close>

lemma cleared_cache_ok: "(\<And>j. reaches ns i j \<Longrightarrow> \<not> output_computed (ns ! j)) \<Longrightarrow> cache_ok env ns i"
  by (auto simp: cache_ok_def)

lemma reset_then_compute:
  assumes e: "denotes (nodes h) i e" and d: "depth e \<le> d" and ok: "force \<or> clear_below (nodes h) i"
  shows "\<exists>h1 h2. reset_graph d h (Some i) force = Inr h1 \<and>
     compute_graph env d h1 (Some i) = Inr (eval env e, h2) \<and>
     length (nodes h2) = length (nodes h) \<and> same_shape (nodes h) (nodes h2) \<and>
     (\<forall>j. reaches (nodes h) i j \<longrightarrow> output_computed (nodes h2 ! j))"
proof -
  obtain h1 where h1: "reset_graph d h (Some i) force = Inr h1" "flags_are (nodes h) (nodes h1)
      (\<lambda>j. output_computed (nodes h ! j) \<and> \<not> reaches (nodes h) i j)"
    using reset_graph_clears[OF e d ok] by blast
  have sh: "length (nodes h1) = length (nodes h)" "same_shape (nodes h) (nodes h1)"
    using flags_areD(1)[OF h1(2)] by auto
  have clear: "\<not> output_computed (nodes h1 ! j)" if "reaches (nodes h1) i j" for j
    using that flags_areD(2)[OF h1(2), of j] denotes_reach_less[OF e]
      reaches_shape_iff[OF sh] by blast
  have e1: "denotes (nodes h1) i e" using denotes_same_shape[OF e sh(2)] .
  obtain h2 where h2: "compute_graph env d h1 (Some i) = Inr (eval env e, h2)"
    using compute_graph_evaluates[OF e1 cleared_cache_ok[OF clear] d] by (auto simp: evaluated_def)
  have "marked_below (nodes h1) i"
    using clear by (auto simp: marked_below_def)
  then have fl: "flags_are (nodes h1) (nodes h2) (\<lambda>j. output_computed (nodes h1 ! j) \<or> reaches (nodes h1) i j)"
    using compute_graph_flags[OF e1 d, of env] h2 by auto
  have "output_computed (nodes h2 ! j)" if "reaches (nodes h) i j" for j
    using flags_areD(2)[OF fl, of j] that denotes_reach_less[OF e that] reaches_shape_iff[OF sh] sh(1) by simp
  moreover have "length (nodes h2) = length (nodes h)" "same_shape (nodes h) (nodes h2)"
    using flags_areD(1)[OF fl] sh by (auto intro: same_shape_trans)
  ultimately show ?thesis using h1(1) h2 by blast
qed

subsection \<open>Differentiation builds the symbolic derivative\<close>

declare denotes_varE [rule del] denotes_numE [rule del] denotes_binE [rule del]

fun bop_D :: "bop \<Rightarrow> ('r, 'v) expr \<Rightarrow> ('r, 'v) expr \<Rightarrow> ('r, 'v) expr \<Rightarrow> ('r, 'v) expr \<Rightarrow> ('r, 'v) expr" where
  "bop_D BAdd e f de df = EBin BAdd de df"
| "bop_D BSub e f de df = EBin BSub de df"
| "bop_D BMul e f de df = EBin BAdd (EBin BMul de f) (EBin BMul df e)"
| "bop_D BDiv e f de df = EBin BDiv (EBin BSub (EBin BMul de f) (EBin BMul df e)) (EBin BMul f f)"

primrec D :: "'r \<Rightarrow> ('r, 'v :: {zero, one}) expr \<Rightarrow> ('r, 'v) expr" where
  "D v (EVar r) = ENum (if v = r then 1 else 0)"
| "D v (ENum c) = ENum 0"
| "D v (EBin bo e f) = bop_D bo e f (D v e) (D v f)"

text \<open>How many nodes the differentiation allocates.\<close>

fun bop_cost :: "bop \<Rightarrow> nat" where
  "bop_cost BAdd = 1"
| "bop_cost BSub = 1"
| "bop_cost BMul = 3"
| "bop_cost BDiv = 5"

primrec cost :: "('r, 'v) expr \<Rightarrow> nat" where
  "cost (EVar r) = 1"
| "cost (ENum c) = 1"
| "cost (EBin bo e f) = cost e + cost f + bop_cost bo"

text \<open>\<open>grows h h' n\<close>: \<open>h'\<close> has \<open>n\<close> more nodes, the old ones untouched.\<close>

definition grows :: "('r, 'v) heap \<Rightarrow> ('r, 'v) heap \<Rightarrow> nat \<Rightarrow> bool" where
  "grows h h' n \<longleftrightarrow> (\<exists>ms. length ms = n \<and> nodes h' = nodes h @ ms) \<and> limit h = limit h' + n \<and>
     garbage h' = garbage h"

lemma grows_shape: "grows h h' n \<Longrightarrow> same_shape (nodes h) (nodes h')"
  by (auto simp: grows_def)

lemma grows_trans: "grows h h' m \<Longrightarrow> grows h' h'' n \<Longrightarrow> grows h h'' (m + n)"
  by (auto simp: grows_def)

lemma grows_denotes: "denotes (nodes h) i e \<Longrightarrow> grows h h' n \<Longrightarrow> denotes (nodes h') i e"
  by (blast intro: denotes_same_shape grows_shape)

lemma grows_nth: "grows h h' n \<Longrightarrow> i < length (nodes h) \<Longrightarrow> nodes h' ! i = nodes h ! i \<and> i < length (nodes h')"
  by (auto simp: grows_def nth_append)

lemma alloc_grows:
  assumes "0 < limit h"
  obtains h' where "alloc_op h ins vt = (Some (length (nodes h)), h')" and "grows h h' 1"
    and "inputs (nodes h' ! length (nodes h)) = ins" and "vtable (nodes h' ! length (nodes h)) = vt"
    and "length (nodes h) < length (nodes h')"
proof (rule that)
  show "alloc_op h ins vt = (Some (length (nodes h)), snd (alloc_op h ins vt))"
    using assms by (simp add: alloc_op_def Let_def)
qed (use assms in \<open>simp_all add: alloc_op_def grows_def Let_def\<close>)

lemma alloc_const:
  assumes "0 < limit h"
  obtains p h' where "make_op_const h c = (Some p, h')" and "grows h h' 1" and "denotes (nodes h') p (ENum c)"
  using alloc_grows[OF assms, of "[]" "Const c"] d_num by (metis make_op_const_def)

lemma alloc_pair:
  assumes "0 < limit h" and "denotes (nodes h) a e" and "denotes (nodes h) b f"
  obtains p h' where "make_op_pairwise h (Some a) (Some b) (bop_vtable bo) = (Some p, h')" and "grows h h' 1"
    and "denotes (nodes h') p (EBin bo e f)"
proof -
  obtain h' where h': "alloc_op h [Some a, Some b] (bop_vtable bo) = (Some (length (nodes h)), h')"
    "grows h h' 1" "inputs (nodes h' ! length (nodes h)) = [Some a, Some b]"
    "vtable (nodes h' ! length (nodes h)) = bop_vtable bo" "length (nodes h) < length (nodes h')"
    using alloc_grows[OF assms(1), of "[Some a, Some b]" "bop_vtable bo"] by metis
  have "denotes (nodes h') (length (nodes h)) (EBin bo e f)"
    using h'(3-5) grows_denotes[OF assms(2) h'(2)] grows_denotes[OF assms(3) h'(2)]
    by (intro d_bin[of _ _ a b])
  with that h' show thesis by (simp add: make_op_pairwise_def)
qed

text \<open>The constructor calls at the end of each binary \<open>derivative_*\<close> function.\<close>

definition combine :: "bop \<Rightarrow> ('r, 'v) heap \<Rightarrow> ptr \<Rightarrow> ptr \<Rightarrow> ptr \<Rightarrow> ptr \<Rightarrow> ptr \<times> ('r, 'v) heap" where
  "combine bo h d1 d2 in0 in1 =
     (case bo of
        BAdd \<Rightarrow> make_op_add h d1 d2
      | BSub \<Rightarrow> make_op_sub h d1 d2
      | BMul \<Rightarrow> (let (a, h) = make_op_mul h d1 in1; (b, h) = make_op_mul h d2 in0 in make_op_add h a b)
      | BDiv \<Rightarrow> (let (x, h) = make_op_mul h d1 in1; (y, h) = make_op_mul h d2 in0;
                     (a, h) = make_op_sub h x y; (b, h) = make_op_mul h in1 in1 in make_op_div h a b))"

lemma alloc_bin:
  assumes "0 < limit h" and "denotes (nodes h) a e" and "denotes (nodes h) b f"
  shows "\<exists>p h'. make_op_add h (Some a) (Some b) = (Some p, h') \<and> grows h h' 1 \<and> denotes (nodes h') p (EBin BAdd e f)"
    and "\<exists>p h'. make_op_sub h (Some a) (Some b) = (Some p, h') \<and> grows h h' 1 \<and> denotes (nodes h') p (EBin BSub e f)"
    and "\<exists>p h'. make_op_mul h (Some a) (Some b) = (Some p, h') \<and> grows h h' 1 \<and> denotes (nodes h') p (EBin BMul e f)"
    and "\<exists>p h'. make_op_div h (Some a) (Some b) = (Some p, h') \<and> grows h h' 1 \<and> denotes (nodes h') p (EBin BDiv e f)"
  using alloc_pair[OF assms, of BAdd] alloc_pair[OF assms, of BSub]
    alloc_pair[OF assms, of BMul] alloc_pair[OF assms, of BDiv]
  by (metis make_op_add_def make_op_sub_def make_op_mul_def make_op_div_def bop_vtable.simps)+

lemma combine_mul:
  assumes "3 \<le> limit h" and "denotes (nodes h) a e" and "denotes (nodes h) b f"
    and "denotes (nodes h) x de" and "denotes (nodes h) y df"
  shows "\<exists>p h'. combine BMul h (Some x) (Some y) (Some a) (Some b) = (Some p, h') \<and> grows h h' 3 \<and>
           denotes (nodes h') p (EBin BAdd (EBin BMul de f) (EBin BMul df e))"
proof -
  have l0: "0 < limit h" using assms(1) by simp
  obtain p1 h1 where 1: "make_op_mul h (Some x) (Some b) = (Some p1, h1)" "grows h h1 1"
    "denotes (nodes h1) p1 (EBin BMul de f)"
    using alloc_bin(3)[OF l0 assms(4) assms(3)] by blast
  have l1: "0 < limit h1" using 1(2) assms(1) by (simp add: grows_def)
  obtain p2 h2 where 2: "make_op_mul h1 (Some y) (Some a) = (Some p2, h2)" "grows h1 h2 1"
    "denotes (nodes h2) p2 (EBin BMul df e)"
    using alloc_bin(3)[OF l1 grows_denotes[OF assms(5) 1(2)] grows_denotes[OF assms(2) 1(2)]] by blast
  have l2: "0 < limit h2" using 1(2) 2(2) assms(1) by (simp add: grows_def)
  obtain p3 h3 where 3: "make_op_add h2 (Some p1) (Some p2) = (Some p3, h3)" "grows h2 h3 1"
    "denotes (nodes h3) p3 (EBin BAdd (EBin BMul de f) (EBin BMul df e))"
    using alloc_bin(1)[OF l2 grows_denotes[OF 1(3) 2(2)] 2(3)] by blast
  have "grows h h3 3"
    using grows_trans[OF grows_trans[OF 1(2) 2(2)] 3(2)] by (simp add: numeral_eq_Suc)
  with 1 2 3 show ?thesis by (simp add: combine_def)
qed

lemma combine_div:
  assumes "5 \<le> limit h" and "denotes (nodes h) a e" and "denotes (nodes h) b f"
    and "denotes (nodes h) x de" and "denotes (nodes h) y df"
  shows "\<exists>p h'. combine BDiv h (Some x) (Some y) (Some a) (Some b) = (Some p, h') \<and> grows h h' 5 \<and>
     denotes (nodes h') p (EBin BDiv (EBin BSub (EBin BMul de f) (EBin BMul df e)) (EBin BMul f f))"
proof -
  have l0: "0 < limit h" using assms(1) by simp
  obtain p1 h1 where 1: "make_op_mul h (Some x) (Some b) = (Some p1, h1)" "grows h h1 1"
    "denotes (nodes h1) p1 (EBin BMul de f)"
    using alloc_bin(3)[OF l0 assms(4) assms(3)] by blast
  have l1: "0 < limit h1" using 1(2) assms(1) by (simp add: grows_def)
  obtain p2 h2 where 2: "make_op_mul h1 (Some y) (Some a) = (Some p2, h2)" "grows h1 h2 1"
    "denotes (nodes h2) p2 (EBin BMul df e)"
    using alloc_bin(3)[OF l1 grows_denotes[OF assms(5) 1(2)] grows_denotes[OF assms(2) 1(2)]] by blast
  note g2 = grows_trans[OF 1(2) 2(2)]
  have l2: "0 < limit h2" using g2 assms(1) by (simp add: grows_def)
  obtain p3 h3 where 3: "make_op_sub h2 (Some p1) (Some p2) = (Some p3, h3)" "grows h2 h3 1"
    "denotes (nodes h3) p3 (EBin BSub (EBin BMul de f) (EBin BMul df e))"
    using alloc_bin(2)[OF l2 grows_denotes[OF 1(3) 2(2)] 2(3)] by blast
  note g3 = grows_trans[OF g2 3(2)]
  have l3: "0 < limit h3" using g3 assms(1) by (simp add: grows_def)
  obtain p4 h4 where 4: "make_op_mul h3 (Some b) (Some b) = (Some p4, h4)" "grows h3 h4 1"
    "denotes (nodes h4) p4 (EBin BMul f f)"
    using alloc_bin(3)[OF l3 grows_denotes[OF assms(3) g3] grows_denotes[OF assms(3) g3]] by blast
  note g4 = grows_trans[OF g3 4(2)]
  have l4: "0 < limit h4" using g4 assms(1) by (simp add: grows_def)
  obtain p5 h5 where 5: "make_op_div h4 (Some p3) (Some p4) = (Some p5, h5)" "grows h4 h5 1"
    "denotes (nodes h5) p5 (EBin BDiv (EBin BSub (EBin BMul de f) (EBin BMul df e)) (EBin BMul f f))"
    using alloc_bin(4)[OF l4 grows_denotes[OF 3(3) 4(2)] 4(3)] by blast
  have "grows h h5 5"
    using grows_trans[OF g4 5(2)] by (simp add: numeral_eq_Suc)
  with 1 2 3 4 5 show ?thesis by (simp add: combine_def)
qed

lemma combine_correct:
  assumes "bop_cost bo \<le> limit h" and "denotes (nodes h) a e" and "denotes (nodes h) b f"
    and "denotes (nodes h) x de" and "denotes (nodes h) y df"
  shows "\<exists>p h'. combine bo h (Some x) (Some y) (Some a) (Some b) = (Some p, h') \<and>
     grows h h' (bop_cost bo) \<and> denotes (nodes h') p (bop_D bo e f de df)"
  using assms combine_mul[OF _ assms(2-5)] combine_div[OF _ assms(2-5)]
    alloc_bin(1,2)[OF _ assms(4,5)]
  by (cases bo) (simp_all add: combine_def)

lemma derivative_bin:
  assumes "load h (Some i) = Inr op" and "vtable op = bop_vtable bo" and "inputs op = [Some a, Some b]"
    and "derivative d h (Some a) v = Inr (d1, h1)" and "derivative d h1 (Some b) v = Inr (d2, h2)"
  shows "derivative (Suc d) h (Some i) v = Inr (combine bo h2 d1 d2 (Some a) (Some b))"
  using assms by (cases bo) (simp_all add: combine_def)

lemma derivative_correct:
  assumes "denotes (nodes h) i e" and "depth e \<le> d" and "cost e \<le> limit h"
  shows "\<exists>q h'. derivative d h (Some i) v = Inr (Some q, h') \<and> grows h h' (cost e) \<and>
     denotes (nodes h') q (D v e)"
  using assms
proof (induction e arbitrary: d h i rule: expr.induct)
  case (EVar r)
  then obtain d' where d: "d = Suc d'" by (cases d) auto
  have i: "i < length (nodes h)" "vtable (nodes h ! i) = Placeholder r"
    using EVar(1) by (auto elim: denotes_varE)
  have "0 < limit h" using EVar(3) by simp
  then obtain q h' where "make_op_const h (if v = r then 1 else 0) = (Some q, h')" "grows h h' 1"
    "denotes (nodes h') q (ENum (if v = r then 1 else 0))"
    by (rule alloc_const)
  with i d show ?case by auto
next
  case (ENum c)
  then obtain d' where d: "d = Suc d'" by (cases d) auto
  have i: "i < length (nodes h)" "vtable (nodes h ! i) = Const c"
    using ENum(1) by (auto elim: denotes_numE)
  have "0 < limit h" using ENum(3) by simp
  then obtain q h' where "make_op_const h 0 = (Some q, h')" "grows h h' 1" "denotes (nodes h') q (ENum 0)"
    by (rule alloc_const)
  with i d show ?case by auto
next
  case (EBin bo e f)
  then obtain d' where d: "d = Suc d'" "depth e \<le> d'" "depth f \<le> d'"
    by (cases d) auto
  from EBin(3) obtain a b where i: "i < length (nodes h)" "inputs (nodes h ! i) = [Some a, Some b]"
    "vtable (nodes h ! i) = bop_vtable bo" and da: "denotes (nodes h) a e" and db: "denotes (nodes h) b f"
    by (auto elim: denotes_binE)
  obtain x h1 where h1: "derivative d' h (Some a) v = Inr (Some x, h1)" "grows h h1 (cost e)"
    "denotes (nodes h1) x (D v e)"
    using EBin.IH(1)[OF da d(2)] EBin.prems(3) by auto
  have "cost f \<le> limit h1" using h1(2) EBin.prems(3) by (simp add: grows_def)
  then obtain y h2 where h2: "derivative d' h1 (Some b) v = Inr (Some y, h2)" "grows h1 h2 (cost f)"
    "denotes (nodes h2) y (D v f)"
    using EBin.IH(2)[OF grows_denotes[OF db h1(2)] d(3)] by blast
  note g = grows_trans[OF h1(2) h2(2)]
  have "bop_cost bo \<le> limit h2" using g EBin.prems(3) by (simp add: grows_def)
  from combine_correct[OF this grows_denotes[OF da g] grows_denotes[OF db g] grows_denotes[OF h1(3) h2(2)] h2(3)]
  obtain p h' where "combine bo h2 (Some x) (Some y) (Some a) (Some b) = (Some p, h')"
    "grows h2 h' (bop_cost bo)" "denotes (nodes h') p (bop_D bo e f (D v e) (D v f))"
    by blast
  then show ?case
    unfolding d(1) derivative_bin[OF load_Some[OF i(1)] i(3,2) h1(1) h2(1)]
    using grows_trans[OF g] by auto
qed

subsection \<open>Over the reals, the derivative graph computes the derivative\<close>

primrec denominators_ok :: "('r \<Rightarrow> real) \<Rightarrow> ('r, real) expr \<Rightarrow> bool" where
  "denominators_ok env (EVar r) = True"
| "denominators_ok env (ENum c) = True"
| "denominators_ok env (EBin bo e f) \<longleftrightarrow>
     denominators_ok env e \<and> denominators_ok env f \<and> (bo = BDiv \<longrightarrow> eval env f \<noteq> 0)"

lemma D_correct:
  "denominators_ok env e \<Longrightarrow>
     ((\<lambda>t. eval (env(v := t)) e) has_real_derivative eval env (D v e)) (at (env v))"
proof (induction e)
  case (EVar r)
  then show ?case by (cases "v = r") (auto intro!: derivative_eq_intros)
next
  case (ENum c)
  then show ?case by simp
next
  case (EBin bo e f)
  have ok: "denominators_ok env e" "denominators_ok env f" using EBin.prems by simp_all
  note de = EBin.IH(1)[OF ok(1)] and df = EBin.IH(2)[OF ok(2)]
  show ?case
  proof (cases bo)
    case BDiv
    then have "eval (env(v := env v)) f \<noteq> 0" using EBin.prems by simp
    from DERIV_divide[OF de df this] BDiv show ?thesis by (simp add: mult.commute)
  qed (use DERIV_add[OF de df] DERIV_diff[OF de df] DERIV_mult[OF de df] in simp_all)
qed

subsection \<open>The demo program\<close>

text \<open>
  \<open>main.c\<close>: builds \<open>r = x*x / (x*x + 1)\<close> over the variable \<open>value\<close> (its address is the one
  reference, \<open>()\<close>), differentiates it, assigns 2 and prints both values.  The constructor results
  are used unchecked, as in the code.
\<close>

definition nn_main :: "nat \<Rightarrow> (unit, 'v :: {zero, one, numeral, plus, minus, times, inverse}) heap \<Rightarrow> c_error + 'v list" where
  "nn_main d h =
     (let (x, h) = make_op_placeholder h ();
          (xx, h) = make_op_mul h x x;
          (c1, h) = make_op_const h 1;
          (xx1, h) = make_op_add h xx c1;
          (r, h) = make_op_div h xx xx1
      in bindE (derivative d h r ()) (\<lambda>(dr, h).
         let env = (\<lambda>_. 2) in
         bindE (reset_graph d h r True) (\<lambda>h.
         bindE (compute_graph env d h r) (\<lambda>(v, h).
         bindE (reset_graph d h dr True) (\<lambda>h.
         bindE (compute_graph env d h dr) (\<lambda>(w, h).
           Inr [v, w]))))))"

definition demo_expr :: "(unit, 'v :: one) expr" where
  "demo_expr = (let xx = EBin BMul (EVar ()) (EVar ()) in EBin BDiv xx (EBin BAdd xx (ENum 1)))"

lemma demo_graph:
  assumes "5 \<le> limit h"
  shows "\<exists>x h1 xx h2 c1 h3 xx1 h4 r h5. make_op_placeholder h () = (Some x, h1) \<and>
     make_op_mul h1 (Some x) (Some x) = (Some xx, h2) \<and> make_op_const h2 1 = (Some c1, h3) \<and>
     make_op_add h3 (Some xx) (Some c1) = (Some xx1, h4) \<and>
     make_op_div h4 (Some xx) (Some xx1) = (Some r, h5) \<and> grows h h5 5 \<and>
     denotes (nodes h5) r demo_expr"
proof -
  let ?X = "EVar () :: (unit, 'a) expr"
  have l0: "0 < limit h" using assms by simp
  obtain h1 where 1: "make_op_placeholder h () = (Some (length (nodes h)), h1)" "grows h h1 1"
    "denotes (nodes h1) (length (nodes h)) ?X"
    using alloc_grows[OF l0, of "[]" "Placeholder ()"] d_var by (metis make_op_placeholder_def)
  have l1: "0 < limit h1" using 1(2) assms by (simp add: grows_def)
  obtain xx h2 where 2: "make_op_mul h1 (Some (length (nodes h))) (Some (length (nodes h))) = (Some xx, h2)"
    "grows h1 h2 1" "denotes (nodes h2) xx (EBin BMul ?X ?X)"
    using alloc_bin(3)[OF l1 1(3) 1(3)] by blast
  note g2 = grows_trans[OF 1(2) 2(2)]
  have l2: "0 < limit h2" using g2 assms by (simp add: grows_def)
  obtain c1 h3 where 3: "make_op_const h2 1 = (Some c1, h3)" "grows h2 h3 1" "denotes (nodes h3) c1 (ENum 1)"
    by (rule alloc_const[OF l2])
  note g3 = grows_trans[OF g2 3(2)]
  have l3: "0 < limit h3" using g3 assms by (simp add: grows_def)
  obtain xx1 h4 where 4: "make_op_add h3 (Some xx) (Some c1) = (Some xx1, h4)" "grows h3 h4 1"
    "denotes (nodes h4) xx1 (EBin BAdd (EBin BMul ?X ?X) (ENum 1))"
    using alloc_bin(1)[OF l3 grows_denotes[OF 2(3) 3(2)] 3(3)] by blast
  note g4 = grows_trans[OF g3 4(2)]
  have l4: "0 < limit h4" using g4 assms by (simp add: grows_def)
  obtain r h5 where 5: "make_op_div h4 (Some xx) (Some xx1) = (Some r, h5)" "grows h4 h5 1"
    "denotes (nodes h5) r (EBin BDiv (EBin BMul ?X ?X) (EBin BAdd (EBin BMul ?X ?X) (ENum 1)))"
    using alloc_bin(4)[OF l4 grows_denotes[OF grows_denotes[OF 2(3) 3(2)] 4(2)] 4(3)] by blast
  have "grows h h5 5" using grows_trans[OF g4 5(2)] by (simp add: numeral_eq_Suc)
  with 1 2 3 4 5 show ?thesis by (auto simp: demo_expr_def Let_def)
qed

subsection \<open>Properties\<close>

text \<open>
  C7. Evaluation is right whatever \<open>malloc\<close> left in the caches and however subgraphs are shared:
  a forced \<open>reset_graph\<close> followed by \<open>compute_graph\<close> at a node that denotes \<open>e\<close> returns the value
  of \<open>e\<close>, within call depth \<open>depth e\<close>.  After that, an unforced reset is enough: for any new values
  of the variables the next evaluation returns the new value of \<open>e\<close>.
\<close>

theorem reset_compute_reuse:
  assumes "denotes (nodes h) i e" and "depth e \<le> d"
  shows "\<exists>h1 h2 h3 h4. reset_graph d h (Some i) True = Inr h1 \<and>
     compute_graph env d h1 (Some i) = Inr (eval env e, h2) \<and>
     reset_graph d h2 (Some i) False = Inr h3 \<and>
     compute_graph env' d h3 (Some i) = Inr (eval env' e, h4)"
proof -
  obtain h1 h2 where 1: "reset_graph d h (Some i) True = Inr h1"
    "compute_graph env d h1 (Some i) = Inr (eval env e, h2)"
    "length (nodes h2) = length (nodes h)" "same_shape (nodes h) (nodes h2)"
    "\<And>j. reaches (nodes h) i j \<Longrightarrow> output_computed (nodes h2 ! j)"
    using reset_then_compute[OF assms, of True env] by blast
  have "clear_below (nodes h2) i"
    using 1(3-5) reaches_shape_iff[of "nodes h2" "nodes h"] by (auto simp: clear_below_def)
  then show ?thesis
    using 1(1,2) reset_then_compute[OF denotes_same_shape[OF assms(1) 1(4)] assms(2), of False env'] by blast
qed

text \<open>A square: the node 1 multiplies the placeholder 0 with itself; both caches hold garbage.\<close>

definition square_heap :: "(unit, real) heap" where
  "square_heap = \<lparr>nodes =
     [\<lparr>inputs = [], output_value = 7, output_computed = True, vtable = Placeholder ()\<rparr>,
      \<lparr>inputs = [Some 0, Some 0], output_value = 9, output_computed = True, vtable = Mul\<rparr>],
     limit = 10, garbage = (\<lambda>n. (real n, True))\<rparr>"

lemma square_denotes: "denotes (nodes square_heap) 1 (EBin BMul (EVar ()) (EVar ()))"
  by (intro d_bin[of _ _ 0 0] d_var) (simp_all add: square_heap_def)

theorem reset_compute_reuse_witness:
  "\<exists>h1 h2 h3 h4. reset_graph 3 square_heap (Some 1) True = Inr h1 \<and>
     compute_graph (\<lambda>_. 3) 3 h1 (Some 1) = Inr (9, h2) \<and>
     reset_graph 3 h2 (Some 1) False = Inr h3 \<and> compute_graph (\<lambda>_. 5) 3 h3 (Some 1) = Inr (25, h4)"
  using reset_compute_reuse[OF square_denotes, of 3 "\<lambda>_. 3" "\<lambda>_. 5"] by simp

text \<open>
  C9. Differentiation with respect to a variable allocates new nodes only, exactly \<open>cost e\<close> of
  them, changes no existing node, and over exact real arithmetic the resulting graph, once reset
  and evaluated, returns the derivative of the function that the original graph computes, at every
  point where no divisor vanishes.
\<close>

theorem derivative_graph_correct:
  fixes h :: "('r, real) heap"
  assumes e: "denotes (nodes h) i e" and d: "depth e \<le> d" and room: "cost e \<le> limit h"
    and dd: "depth (D v e) \<le> d" and ok: "denominators_ok env e"
  shows "\<exists>q h1 ms h2 y h3. derivative d h (Some i) v = Inr (Some q, h1) \<and>
     nodes h1 = nodes h @ ms \<and> length ms = cost e \<and>
     reset_graph d h1 (Some q) True = Inr h2 \<and> compute_graph env d h2 (Some q) = Inr (y, h3) \<and>
     ((\<lambda>t. eval (env(v := t)) e) has_real_derivative y) (at (env v))"
proof -
  obtain q h1 where 1: "derivative d h (Some i) v = Inr (Some q, h1)" "grows h h1 (cost e)"
    "denotes (nodes h1) q (D v e)"
    using derivative_correct[OF e d room] by blast
  obtain h2 h3 where "reset_graph d h1 (Some q) True = Inr h2"
    "compute_graph env d h2 (Some q) = Inr (eval env (D v e), h3)"
    using reset_then_compute[OF 1(3) dd, of True env] by blast
  with 1 D_correct[OF ok, of v] show ?thesis unfolding grows_def by blast
qed

theorem derivative_graph_correct_witness:
  "\<exists>y. ((\<lambda>t. t * t) has_real_derivative y) (at 3)"
  using derivative_graph_correct[OF square_denotes, of 5 "()" "\<lambda>_. 3"]
  by (auto simp: square_heap_def)

text \<open>
  The demo program prints 4/5 and 4/25, the value and the derivative of \<open>x*x / (x*x + 1)\<close> at 2,
  when 22 nodes can be allocated and 10 nested calls fit on the stack, whatever the heap held before.
\<close>

theorem nn_main_prints:
  fixes h :: "(unit, real) heap"
  assumes room: "22 \<le> limit h" and d: "10 \<le> d"
  shows "nn_main d h = Inr [4 / 5, 4 / 25]"
proof -
  let ?env = "\<lambda>_ :: unit. 2 :: real"
  have "5 \<le> limit h" using room by simp
  from demo_graph[OF this] obtain x h1 xx h2 c1 h3 xx1 h4 r h5 where
    g: "make_op_placeholder h () = (Some x, h1)" "make_op_mul h1 (Some x) (Some x) = (Some xx, h2)"
    "make_op_const h2 1 = (Some c1, h3)" "make_op_add h3 (Some xx) (Some c1) = (Some xx1, h4)"
    "make_op_div h4 (Some xx) (Some xx1) = (Some r, h5)" "grows h h5 5" and e: "denotes (nodes h5) r demo_expr"
    by blast
  have depths: "depth (demo_expr :: (unit, real) expr) \<le> d" "depth (D () (demo_expr :: (unit, real) expr)) \<le> d"
    using d by (simp_all add: demo_expr_def Let_def)
  have "cost (demo_expr :: (unit, real) expr) \<le> limit h5"
    using g(6) room by (simp add: demo_expr_def Let_def grows_def)
  then obtain q h6 where dv: "derivative d h5 (Some r) () = Inr (Some q, h6)" "grows h5 h6 (cost (demo_expr :: (unit, real) expr))"
    "denotes (nodes h6) q (D () demo_expr)"
    using derivative_correct[OF e depths(1)] by blast
  obtain h7 h8 where 1: "reset_graph d h6 (Some r) True = Inr h7"
    "compute_graph ?env d h7 (Some r) = Inr (eval ?env demo_expr, h8)" "same_shape (nodes h6) (nodes h8)"
    using reset_then_compute[OF grows_denotes[OF e dv(2)] depths(1), of True ?env] by blast
  obtain h9 h10 where 2: "reset_graph d h8 (Some q) True = Inr h9"
    "compute_graph ?env d h9 (Some q) = Inr (eval ?env (D () demo_expr), h10)"
    using reset_then_compute[OF denotes_same_shape[OF dv(3) 1(3)] depths(2), of True ?env] by blast
  have "eval ?env demo_expr = 4 / 5" "eval ?env (D () demo_expr) = 4 / 25"
    by (simp_all add: demo_expr_def Let_def)
  with g dv(1) 1 2 show ?thesis by (simp add: nn_main_def)
qed

theorem nn_main_prints_witness:
  "nn_main 10 \<lparr>nodes = [], limit = 22, garbage = (\<lambda>n. (real n, True))\<rparr> = Inr [4 / 5, 4 / 25]"
  by (rule nn_main_prints) simp_all

end
