(* ===== verification/GraphTyping.thy ===== *)
theory GraphTyping
  imports NeuralGraph
begin

text \<open>
  A typing of the heap of \<open>src/nn\<close>: every node has as many inputs as its vtable reads, and each of them is NULL or an
  older node.  Constructors, evaluation, resetting and differentiation keep heaps typed, and on a typed heap the only
  thing that can go wrong is a NULL that an unchecked \<open>malloc\<close> has left.
\<close>

subsection \<open>Typed nodes, heaps and pointers\<close>

fun arity :: "('r, 'v) vtable \<Rightarrow> nat" where
  "arity (Placeholder r) = 0"
| "arity (Const c) = 0"
| "arity Add = 2"
| "arity Sub = 2"
| "arity Mul = 2"
| "arity Div = 2"

definition points_below :: "nat \<Rightarrow> ptr \<Rightarrow> bool" where
  "points_below n p \<longleftrightarrow> (case p of None \<Rightarrow> True | Some j \<Rightarrow> j < n)"

definition typed_node :: "nat \<Rightarrow> ('r, 'v) operation \<Rightarrow> bool" where
  "typed_node n op \<longleftrightarrow> length (inputs op) = arity (vtable op) \<and> (\<forall>p \<in> set (inputs op). points_below n p)"

definition typed_heap :: "('r, 'v) heap \<Rightarrow> bool" where
  "typed_heap h \<longleftrightarrow> (\<forall>i < length (nodes h). typed_node i (nodes h ! i))"

definition typed_ptr :: "('r, 'v) heap \<Rightarrow> ptr \<Rightarrow> bool" where
  "typed_ptr h p \<longleftrightarrow> points_below (length (nodes h)) p"

text \<open>Fuel for a call on \<open>p\<close>: the depth below a node is at most its index and one for a NULL.\<close>

definition fuel_for :: "nat \<Rightarrow> ptr \<Rightarrow> bool" where
  "fuel_for d p \<longleftrightarrow> (case p of None \<Rightarrow> 0 < d | Some i \<Rightarrow> i + 1 < d)"

text \<open>What a heap becomes: the same nodes up to their caches, perhaps some more, and still typed.\<close>

definition typed_growth :: "('r, 'v) heap \<Rightarrow> ('r, 'v) heap \<Rightarrow> bool" where
  "typed_growth h h' \<longleftrightarrow> typed_heap h' \<and> same_shape (nodes h) (nodes h')"

lemma points_below_mono: "points_below m p \<Longrightarrow> m \<le> n \<Longrightarrow> points_below n p"
  by (auto simp: points_below_def split: option.splits)

lemma typed_ptr_grows: "typed_ptr h p \<Longrightarrow> typed_growth h h' \<Longrightarrow> typed_ptr h' p"
  unfolding typed_ptr_def typed_growth_def same_shape_def by (blast intro: points_below_mono)

lemma typed_growth_refl: "typed_heap h \<Longrightarrow> typed_growth h h"
  by (simp add: typed_growth_def)

lemma typed_growth_trans: "typed_growth h h' \<Longrightarrow> typed_growth h' h'' \<Longrightarrow> typed_growth h h''"
  by (auto simp: typed_growth_def intro: same_shape_trans)

lemma typed_input:
  assumes "typed_heap h" and "i < length (nodes h)" and "p \<in> set (inputs (nodes h ! i))"
  shows "points_below i p" and "typed_ptr h p"
proof -
  show "points_below i p" using assms by (simp add: typed_heap_def typed_node_def)
  then show "typed_ptr h p" using assms(2) points_below_mono unfolding typed_ptr_def by (meson less_imp_le)
qed

lemma load_typed: "typed_ptr h p \<Longrightarrow> load h p = Inl NullDeref \<or> (\<exists>i < length (nodes h). p = Some i \<and> load h p = Inr (nodes h ! i))"
  by (auto simp: typed_ptr_def points_below_def load_def split: option.splits)

lemma fuel_for_input: "fuel_for (Suc d) (Some i) \<Longrightarrow> points_below i p \<Longrightarrow> fuel_for d p"
  by (auto simp: fuel_for_def points_below_def split: option.splits)

lemma store_typed:
  assumes "typed_heap h" and "i < length (nodes h)" and "\<And>op. inputs (f op) = inputs op \<and> vtable (f op) = vtable op"
  shows "\<exists>h'. store h (Some i) f = Inr h' \<and> typed_growth h h'"
proof -
  have "typed_node j ((nodes h)[i := f (nodes h ! i)] ! j)" if "j < length (nodes h)" for j
    using assms that by (cases "j = i") (auto simp: typed_heap_def typed_node_def)
  moreover have "same_shape (nodes h) ((nodes h)[i := f (nodes h ! i)])"
    using assms(2,3) by (auto simp: same_shape_def nth_list_update)
  ultimately show ?thesis using assms(2) by (simp add: typed_growth_def typed_heap_def)
qed

subsection \<open>Constructors\<close>

lemma alloc_op_typed:
  assumes "typed_heap h" and "length ins = arity vt" and "\<forall>p \<in> set ins. typed_ptr h p" and "alloc_op h ins vt = (p, h')"
  shows "typed_growth h h' \<and> typed_ptr h' p"
proof (cases "limit h = 0")
  case True
  then show ?thesis using assms by (simp add: alloc_op_def typed_growth_refl typed_ptr_def points_below_def)
next
  case False
  let ?op = "\<lparr>inputs = ins, output_value = fst (garbage h (length (nodes h))),
    output_computed = snd (garbage h (length (nodes h))), vtable = vt\<rparr>"
  have n: "nodes h' = nodes h @ [?op]" and p: "p = Some (length (nodes h))"
    using False assms(4) by (auto simp: alloc_op_def Let_def)
  have "typed_node (length (nodes h)) ?op" using assms(2,3) by (simp add: typed_node_def typed_ptr_def)
  then have "typed_node i ((nodes h @ [?op]) ! i)" if "i < Suc (length (nodes h))" for i
    using assms(1) that by (cases "i = length (nodes h)") (simp_all add: typed_heap_def nth_append)
  then show ?thesis by (simp add: typed_growth_def typed_heap_def n p typed_ptr_def points_below_def)
qed

text \<open>What a constructor or a call that builds nodes returns: a grown typed heap and a pointer into it.\<close>

definition typed_result :: "('r, 'v) heap \<Rightarrow> ptr \<times> ('r, 'v) heap \<Rightarrow> bool" where
  "typed_result h r \<longleftrightarrow> typed_growth h (snd r) \<and> typed_ptr (snd r) (fst r)"

lemma typed_resultI: "typed_growth h h' \<Longrightarrow> typed_ptr h' p \<Longrightarrow> typed_result h (p, h')"
  by (simp add: typed_result_def)

lemma typed_resultD: "typed_result h (p, h') \<Longrightarrow> typed_growth h h' \<and> typed_ptr h' p \<and> typed_heap h'"
  by (simp add: typed_result_def typed_growth_def)

lemma typed_result_after: "typed_growth h h' \<Longrightarrow> typed_result h' r \<Longrightarrow> typed_result h r"
  by (auto simp: typed_result_def intro: typed_growth_trans)

lemma alloc_typed_result:
  "typed_heap h \<Longrightarrow> length ins = arity vt \<Longrightarrow> \<forall>p \<in> set ins. typed_ptr h p \<Longrightarrow> typed_result h (alloc_op h ins vt)"
  using alloc_op_typed[of h ins vt] by (cases "alloc_op h ins vt") (simp add: typed_result_def)

lemma make_leaf_typed:
  "typed_heap h \<Longrightarrow> typed_result h (make_op_placeholder h r)"
  "typed_heap h \<Longrightarrow> typed_result h (make_op_const h c)"
  by (simp_all add: make_op_placeholder_def make_op_const_def alloc_typed_result)

lemma make_pair_typed:
  assumes "typed_heap h" and "typed_ptr h a" and "typed_ptr h b"
  shows "typed_result h (make_op_add h a b)" and "typed_result h (make_op_sub h a b)"
    and "typed_result h (make_op_mul h a b)" and "typed_result h (make_op_div h a b)"
  using assms by (simp_all add: make_op_add_def make_op_sub_def make_op_mul_def make_op_div_def
      make_op_pairwise_def alloc_typed_result)

lemma derivative_mul_typed:
  assumes "typed_heap h" "typed_ptr h d1" "typed_ptr h d2" "typed_ptr h a" "typed_ptr h b"
  shows "typed_result h (derivative_mul h d1 d2 a b)"
proof -
  obtain p1 h1 where 1: "make_op_mul h d1 b = (p1, h1)" by fastforce
  obtain p2 h2 where 2: "make_op_mul h1 d2 a = (p2, h2)" by fastforce
  have g1: "typed_growth h h1 \<and> typed_ptr h1 p1 \<and> typed_heap h1"
    using make_pair_typed(3)[OF assms(1,2,5)] unfolding 1 by (rule typed_resultD)
  then have g2: "typed_growth h1 h2 \<and> typed_ptr h2 p2 \<and> typed_heap h2"
    using make_pair_typed(3)[of h1 d2 a] assms(3,4) typed_ptr_grows unfolding 2 by (blast dest: typed_resultD)
  have "typed_result h2 (make_op_add h2 p1 p2)"
    using g1 g2 typed_ptr_grows by (blast intro: make_pair_typed(1))
  then have "typed_result h (make_op_add h2 p1 p2)"
    using g1 g2 by (blast intro: typed_result_after)
  then show ?thesis using 1 2 by (simp add: Let_def)
qed

lemma derivative_div_typed:
  assumes "typed_heap h" "typed_ptr h d1" "typed_ptr h d2" "typed_ptr h a" "typed_ptr h b"
  shows "typed_result h (derivative_div h d1 d2 a b)"
proof -
  obtain p1 h1 where 1: "make_op_mul h d1 b = (p1, h1)" by fastforce
  obtain p2 h2 where 2: "make_op_mul h1 d2 a = (p2, h2)" by fastforce
  obtain p3 h3 where 3: "make_op_sub h2 p1 p2 = (p3, h3)" by fastforce
  obtain p4 h4 where 4: "make_op_mul h3 b b = (p4, h4)" by fastforce
  have g1: "typed_growth h h1 \<and> typed_ptr h1 p1 \<and> typed_heap h1"
    using make_pair_typed(3)[OF assms(1,2,5)] unfolding 1 by (rule typed_resultD)
  then have g2: "typed_growth h1 h2 \<and> typed_ptr h2 p2 \<and> typed_heap h2"
    using make_pair_typed(3)[of h1 d2 a] assms(3,4) typed_ptr_grows unfolding 2 by (blast dest: typed_resultD)
  have g3: "typed_growth h2 h3 \<and> typed_ptr h3 p3 \<and> typed_heap h3"
    using make_pair_typed(2)[of h2 p1 p2] g1 g2 typed_ptr_grows unfolding 3 by (blast dest: typed_resultD)
  have "typed_growth h h3" using g1 g2 g3 by (blast intro: typed_growth_trans)
  then have b3: "typed_ptr h3 b" using assms(5) typed_ptr_grows by blast
  have g4: "typed_growth h3 h4 \<and> typed_ptr h4 p4 \<and> typed_heap h4"
    using make_pair_typed(3)[of h3 b b] g3 b3 unfolding 4 by (blast dest: typed_resultD)
  have "typed_result h4 (make_op_div h4 p3 p4)"
    using g3 g4 typed_ptr_grows by (blast intro: make_pair_typed(4))
  then have "typed_result h (make_op_div h4 p3 p4)"
    using \<open>typed_growth h h3\<close> g4 by (blast intro: typed_result_after)
  then show ?thesis using 1 2 3 4 by (simp add: Let_def)
qed

lemma combine_typed:
  assumes "typed_ptr h d1" "typed_ptr h b" "typed_ptr h a" "typed_ptr h d2" "typed_heap h"
  shows "typed_result h (combine bo h d1 d2 a b)"
  using make_pair_typed(1,2)[OF assms(5,1,4)] derivative_mul_typed[OF assms(5,1,4,3,2)]
    derivative_div_typed[OF assms(5,1,4,3,2)]
  by (cases bo) (simp_all add: combine_def)

subsection \<open>Evaluation and resetting\<close>

text \<open>The same for calls that change caches only: they never fail but at a NULL.\<close>

definition typed_step :: "('r, 'v) heap \<Rightarrow> c_error + ('r, 'v) heap \<Rightarrow> bool" where
  "typed_step h r \<longleftrightarrow> (case r of Inl e \<Rightarrow> e = NullDeref
     | Inr h' \<Rightarrow> typed_growth h h' \<and> length (nodes h') = length (nodes h))"

lemma typed_step_Inr [simp]:
  "typed_step h (Inr h') \<longleftrightarrow> typed_growth h h' \<and> length (nodes h') = length (nodes h)"
  by (simp add: typed_step_def)

lemma typed_step_bind:
  assumes "typed_step h r"
    and "\<And>h'. r = Inr h' \<Longrightarrow> typed_growth h h' \<Longrightarrow> length (nodes h') = length (nodes h) \<Longrightarrow> typed_step h' (f h')"
  shows "typed_step h (bindE r f)"
  using assms by (cases r) (auto simp: typed_step_def split: sum.splits intro: typed_growth_trans)

lemma typed_step_bindE:
  "r = Inl NullDeref \<or> (\<exists>x. r = Inr x \<and> typed_step h (f x)) \<Longrightarrow> typed_step h (bindE r f)"
  by (auto simp: typed_step_def)

lemma typed_step_store:
  assumes "typed_heap h" and "i < length (nodes h)" and "\<And>op. inputs (f op) = inputs op \<and> vtable (f op) = vtable op"
  shows "typed_step h (store h (Some i) f)"
  using store_typed[of h i f] assms by auto

lemma compute_pair_typed:
  assumes "typed_heap h" and "i < length (nodes h)" and "arity (vtable (nodes h ! i)) = 2"
  shows "compute_pair f h (nodes h ! i) = Inl NullDeref \<or> (\<exists>v. compute_pair f h (nodes h ! i) = Inr v)"
proof -
  have "length (inputs (nodes h ! i)) = 2"
    using assms by (simp add: typed_heap_def typed_node_def)
  then obtain a b where ab: "inputs (nodes h ! i) = [a, b]"
    by (auto simp: length_Suc_conv numeral_2_eq_2)
  have "typed_ptr h a" "typed_ptr h b" using typed_input(2)[OF assms(1,2)] ab by simp_all
  from load_typed[OF this(1)] load_typed[OF this(2)] show ?thesis
    by (auto simp: compute_pair_def ab)
qed

lemma compute_typed:
  fixes h :: "('r, 'v :: {plus, minus, times, inverse}) heap"
  assumes "typed_heap h" and "i < length (nodes h)"
  shows "typed_step h (compute env h (Some i))"
proof -
  have "typed_step h (bindE r (\<lambda>v. store h (Some i) (\<lambda>op. op\<lparr>output_value := v\<rparr>)))"
    if "r = Inl NullDeref \<or> (\<exists>v. r = Inr v)" for r
    using that typed_step_store[OF assms] by (intro typed_step_bindE) auto
  from this[OF compute_pair_typed[OF assms]] this[of "Inr x" for x] assms(2) show ?thesis
    by (cases "vtable (nodes h ! i)") (simp_all add: compute_def)
qed

text \<open>The heap that \<open>compute_graph\<close> leaves.\<close>

abbreviation heap_of :: "c_error + 'v \<times> ('r, 'v) heap \<Rightarrow> c_error + ('r, 'v) heap" where
  "heap_of r \<equiv> bindE r (\<lambda>(v, h). Inr h)"

lemma heap_of_bind: "bindE r (\<lambda>(v, h). f h) = bindE (heap_of r) f"
  by (cases r) auto

lemma bindE_assoc: "bindE (bindE r f) g = bindE r (\<lambda>x. bindE (f x) g)"
  by (cases r) auto

lemma compute_inputs_typed:
  fixes h :: "('r, 'v :: {plus, minus, times, inverse}) heap"
  assumes "\<And>h p. typed_heap h \<Longrightarrow> typed_ptr h p \<Longrightarrow> fuel_for d p \<Longrightarrow> typed_step h (heap_of (compute_graph env d (h :: ('r, 'v) heap) p))"
    and "typed_heap h" and "\<forall>p \<in> set ps. typed_ptr h p \<and> fuel_for d p"
  shows "typed_step h (compute_inputs env d h ps)"
  using assms(2,3)
proof (induction ps arbitrary: h)
  case (Cons p ps)
  have "typed_step h (heap_of (compute_graph env d h p))" using assms(1) Cons.prems by simp
  then have "typed_step h (bindE (heap_of (compute_graph env d h p)) (\<lambda>h. compute_inputs env d h ps))"
  proof (rule typed_step_bind)
    fix h' assume "typed_growth h h'"
    with Cons show "typed_step h' (compute_inputs env d h' ps)"
      by (intro Cons.IH) (auto simp: typed_growth_def dest: typed_ptr_grows[unfolded typed_growth_def])
  qed
  then show ?case
    unfolding heap_of_bind[symmetric] by simp
qed (simp add: typed_growth_refl)

lemma compute_graph_typed:
  fixes h :: "('r, 'v :: {plus, minus, times, inverse}) heap"
  assumes "typed_heap h" and "typed_ptr h p" and "fuel_for d p"
  shows "typed_step h (heap_of (compute_graph env d h p))"
  using assms
proof (induction d arbitrary: h p)
  case (Suc d)
  from load_typed[OF Suc.prems(2)] show ?case
  proof
    assume "\<exists>i < length (nodes h). p = Some i \<and> load h p = Inr (nodes h ! i)"
    then obtain i where i: "i < length (nodes h)" "p = Some i" by blast
    have "\<forall>q \<in> set (inputs (nodes h ! i)). typed_ptr h q \<and> fuel_for d q"
      using typed_input[OF Suc.prems(1) i(1)] fuel_for_input Suc.prems(3) i(2) by blast
    with Suc.IH Suc.prems(1) have "typed_step h (compute_inputs env d h (inputs (nodes h ! i)))"
      by (intro compute_inputs_typed)
    then have "typed_step h (bindE (compute_inputs env d h (inputs (nodes h ! i))) (\<lambda>h.
       bindE (store h p (\<lambda>op. op\<lparr>output_computed := True\<rparr>)) (\<lambda>h. bindE (compute env h p) (\<lambda>h.
       bindE (load h p) (\<lambda>op. Inr h)))))"
      unfolding i(2)
      by (intro typed_step_bind[OF _ typed_step_bind[OF typed_step_store typed_step_bind[OF compute_typed]]])
        (use i(1) in \<open>auto simp: typed_growth_def\<close>)
    then show ?thesis
      using Suc.prems(1) i by (simp add: bindE_assoc typed_growth_refl)
  qed (simp add: typed_step_def)
qed (simp add: fuel_for_def split: option.splits)

lemma reset_inputs_typed:
  assumes "\<And>h p. typed_heap h \<Longrightarrow> typed_ptr h p \<Longrightarrow> fuel_for d p \<Longrightarrow> typed_step h (reset_graph d (h :: ('r, 'v) heap) p force)"
    and "typed_heap h" and "\<forall>p \<in> set ps. typed_ptr h p \<and> fuel_for d p"
  shows "typed_step h (reset_inputs d (h :: ('r, 'v) heap) ps force)"
  using assms(2,3)
proof (induction ps arbitrary: h)
  case (Cons p ps)
  then have "typed_step h (reset_graph d h p force)" using assms(1) by simp
  then show ?case
    unfolding reset_inputs.simps
  proof (rule typed_step_bind)
    fix h' assume "typed_growth h h'"
    with Cons show "typed_step h' (reset_inputs d h' ps force)"
      by (intro Cons.IH) (auto simp: typed_growth_def dest: typed_ptr_grows[unfolded typed_growth_def])
  qed
qed (simp add: typed_growth_refl)

lemma reset_graph_typed:
  assumes "typed_heap h" and "typed_ptr h p" and "fuel_for d p"
  shows "typed_step h (reset_graph d h p force)"
  using assms
proof (induction d arbitrary: h p)
  case (Suc d)
  from load_typed[OF Suc.prems(2)] show ?case
  proof
    assume "\<exists>i < length (nodes h). p = Some i \<and> load h p = Inr (nodes h ! i)"
    then obtain i where i: "i < length (nodes h)" "p = Some i" by blast
    have "\<forall>q \<in> set (inputs (nodes h ! i)). typed_ptr h q \<and> fuel_for d q"
      using typed_input[OF Suc.prems(1) i(1)] fuel_for_input Suc.prems(3) i(2) by blast
    with Suc.IH Suc.prems(1) have "typed_step h (reset_inputs d h (inputs (nodes h ! i)) force)"
      by (intro reset_inputs_typed)
    then have "typed_step h (bindE (reset_inputs d h (inputs (nodes h ! i)) force) (\<lambda>h.
       store h p (\<lambda>op. op\<lparr>output_computed := False\<rparr>)))"
      unfolding i(2) by (intro typed_step_bind[OF _ typed_step_store]) (use i(1) in \<open>auto simp: typed_growth_def\<close>)
    then show ?thesis
      using Suc.prems(1) i by (simp add: typed_growth_refl)
  qed (simp add: typed_step_def)
qed (simp add: fuel_for_def split: option.splits)

subsection \<open>Differentiation\<close>

definition typed_built :: "('r, 'v) heap \<Rightarrow> c_error + ptr \<times> ('r, 'v) heap \<Rightarrow> bool" where
  "typed_built h r \<longleftrightarrow> r = Inl NullDeref \<or> (\<exists>x. r = Inr x \<and> typed_result h x)"

lemma typed_built_Inr [simp]: "typed_built h (Inr x) \<longleftrightarrow> typed_result h x"
  by (simp add: typed_built_def)

lemma typed_built_bind:
  assumes "typed_built h r"
    and "\<And>p h'. r = Inr (p, h') \<Longrightarrow> typed_growth h h' \<Longrightarrow> typed_ptr h' p \<Longrightarrow> typed_heap h' \<Longrightarrow> typed_built h' (f p h')"
  shows "typed_built h (bindE r (\<lambda>(p, h). f p h))"
proof -
  consider "r = Inl NullDeref" | p h' where "r = Inr (p, h')" "typed_result h (p, h')"
    using assms(1) by (force simp: typed_built_def)
  then show ?thesis
  proof cases
    case 2
    from typed_resultD[OF 2(2)] assms(2)[OF 2(1)] have "typed_growth h h'" "typed_built h' (f p h')" by blast+
    then show ?thesis
      by (auto simp: 2(1) typed_built_def dest: typed_result_after)
  qed (simp add: typed_built_def)
qed

lemma derivative_typed:
  fixes h :: "('r, 'v :: {zero, one}) heap"
  assumes "typed_heap h" and "typed_ptr h p" and "fuel_for d p"
  shows "typed_built h (derivative d h p v)"
  using assms
proof (induction d arbitrary: h p)
  case (Suc d)
  from load_typed[OF Suc.prems(2)] show ?case
  proof
    assume "\<exists>i < length (nodes h). p = Some i \<and> load h p = Inr (nodes h ! i)"
    then obtain i where i: "i < length (nodes h)" "p = Some i" by blast
    show ?thesis
    proof (cases "arity (vtable (nodes h ! i)) = 2")
      case False
      then show ?thesis using i Suc.prems(1)
        by (cases "vtable (nodes h ! i)") (simp_all add: make_leaf_typed)
    next
      case True
      then have "length (inputs (nodes h ! i)) = 2"
        using Suc.prems(1) i(1) by (simp add: typed_heap_def typed_node_def)
      then obtain a b where ab: "inputs (nodes h ! i) = [a, b]"
        by (auto simp: length_Suc_conv numeral_2_eq_2)
      obtain bo where bo: "vtable (nodes h ! i) = bop_vtable bo"
        using True by (cases "vtable (nodes h ! i)") (auto intro: that[of BAdd] that[of BSub] that[of BMul] that[of BDiv])
      have t: "typed_ptr h a" "typed_ptr h b" "fuel_for d a" "fuel_for d b"
        using typed_input[OF Suc.prems(1) i(1)] fuel_for_input Suc.prems(3) i(2) ab by fastforce+
      have "typed_built h (bindE (derivative d h a v) (\<lambda>(d1, h1). bindE (derivative d h1 b v) (\<lambda>(d2, h2).
         Inr (combine bo h2 d1 d2 a b))))"
      proof (rule typed_built_bind[OF Suc.IH[OF Suc.prems(1) t(1,3)]])
        fix d1 h1 assume g1: "typed_growth h h1" "typed_ptr h1 d1" "typed_heap h1"
        note b1 = typed_ptr_grows[OF t(2) g1(1)]
        show "typed_built h1 (bindE (derivative d h1 b v) (\<lambda>(d2, h2). Inr (combine bo h2 d1 d2 a b)))"
        proof (rule typed_built_bind[OF Suc.IH[OF g1(3) b1 t(4)]])
          fix d2 h2 assume g2: "typed_growth h1 h2" "typed_ptr h2 d2" "typed_heap h2"
          have "typed_result h2 (combine bo h2 d1 d2 a b)"
            using typed_ptr_grows[OF g1(2) g2(1)] typed_ptr_grows[OF b1 g2(1)]
              typed_ptr_grows[OF typed_ptr_grows[OF t(1) g1(1)] g2(1)] g2(2,3)
            by (intro combine_typed)
          then show "typed_built h2 (Inr (combine bo h2 d1 d2 a b))" by simp
        qed
      qed
      then show ?thesis
        using i ab bo by (cases bo) (simp_all add: combine_def cong: sum.case_cong)
    qed
  qed (simp add: typed_built_def)
qed (simp add: fuel_for_def split: option.splits)

subsection \<open>Typed nodes denote expressions\<close>

definition no_nulls :: "('r, 'v) heap \<Rightarrow> bool" where
  "no_nulls h \<longleftrightarrow> (\<forall>op \<in> set (nodes h). None \<notin> set (inputs op))"

lemma typed_denotes:
  assumes "typed_heap h" and "no_nulls h" and "i < length (nodes h)"
  shows "\<exists>e. denotes (nodes h) i e \<and> depth e \<le> Suc i"
  using assms(3)
proof (induction i rule: less_induct)
  case (less i)
  have len: "length (inputs (nodes h ! i)) = arity (vtable (nodes h ! i))"
    using assms(1) less.prems by (simp add: typed_heap_def typed_node_def)
  show ?case
  proof (cases "arity (vtable (nodes h ! i)) = 2")
    case False
    then show ?thesis using less.prems len
      by (cases "vtable (nodes h ! i)") (auto intro!: exI denotes.intros)
  next
    case True
    then obtain p q where pq: "inputs (nodes h ! i) = [p, q]"
      using len by (auto simp: length_Suc_conv numeral_2_eq_2)
    obtain bo where bo: "vtable (nodes h ! i) = bop_vtable bo"
      using True by (cases "vtable (nodes h ! i)") (auto intro: that[of BAdd] that[of BSub] that[of BMul] that[of BDiv])
    have "None \<notin> set [p, q]"
      using assms(2) less.prems pq unfolding no_nulls_def by (metis nth_mem)
    then obtain a b where ab: "p = Some a" "q = Some b" by (cases p; cases q) auto
    have "a < i" "b < i"
      using typed_input(1)[OF assms(1) less.prems, of p] typed_input(1)[OF assms(1) less.prems, of q]
      by (simp_all add: pq ab points_below_def)
    then obtain e f where "denotes (nodes h) a e" "depth e \<le> Suc a" "denotes (nodes h) b f" "depth f \<le> Suc b"
      using less.IH[of a] less.IH[of b] less.prems by auto
    with d_bin[OF less.prems, of a b bo e f] pq ab bo \<open>a < i\<close> \<open>b < i\<close> show ?thesis
      by (intro exI[of _ "EBin bo e f"]) simp
  qed
qed

lemma fuel_for_typed: "typed_ptr h p \<Longrightarrow> length (nodes h) < d \<Longrightarrow> fuel_for d p"
  by (auto simp: typed_ptr_def points_below_def fuel_for_def split: option.splits)

subsection \<open>Properties\<close>

text \<open>
  C23. Graphs are type safe.  Call a heap typed when every node has as many inputs as its vtable reads, each of them
  NULL or an older node.  From a typed heap and a pointer into it, with more stack than there are nodes,
  \<open>compute_graph\<close>, \<open>reset_graph\<close> and \<open>derivative\<close> never read an input that is not there, never follow a pointer
  outside the heap and never recur for ever: they return, leaving a typed heap with the old nodes' inputs and
  operations unchanged and a result that points into it, unless they dereference a NULL.  The constructors of the
  binary operations keep the typing as well, and where no input is NULL every node denotes an expression no deeper
  than its position, so the evaluation and differentiation theorems apply to it.
\<close>

theorem graph_typing:
  fixes h :: "('r, 'v :: {zero, one, plus, minus, times, inverse}) heap"
  assumes typed: "typed_heap h" and p: "typed_ptr h p" and q: "typed_ptr h q" and d: "length (nodes h) < d"
  shows "(case compute_graph env d h p of Inl e \<Rightarrow> e = NullDeref
      | Inr (v, h') \<Rightarrow> typed_heap h' \<and> same_shape (nodes h) (nodes h') \<and> length (nodes h') = length (nodes h)) \<and>
    (case reset_graph d h p force of Inl e \<Rightarrow> e = NullDeref
      | Inr h' \<Rightarrow> typed_heap h' \<and> same_shape (nodes h) (nodes h') \<and> length (nodes h') = length (nodes h)) \<and>
    (case derivative d h p r of Inl e \<Rightarrow> e = NullDeref
      | Inr (x, h') \<Rightarrow> typed_heap h' \<and> same_shape (nodes h) (nodes h') \<and> typed_ptr h' x) \<and>
    typed_result h (make_op_add h p q) \<and> typed_result h (make_op_sub h p q) \<and>
    typed_result h (make_op_mul h p q) \<and> typed_result h (make_op_div h p q) \<and>
    (no_nulls h \<longrightarrow> (\<forall>i. p = Some i \<longrightarrow> (\<exists>e. denotes (nodes h) i e \<and> depth e \<le> Suc i)))"
proof (intro conjI)
  note fuel = fuel_for_typed[OF p d]
  show "case compute_graph env d h p of Inl e \<Rightarrow> e = NullDeref
      | Inr (v, h') \<Rightarrow> typed_heap h' \<and> same_shape (nodes h) (nodes h') \<and> length (nodes h') = length (nodes h)"
    using compute_graph_typed[OF typed p fuel, of env]
    by (cases "compute_graph env d h p") (auto simp: typed_step_def typed_growth_def)
  show "case reset_graph d h p force of Inl e \<Rightarrow> e = NullDeref
      | Inr h' \<Rightarrow> typed_heap h' \<and> same_shape (nodes h) (nodes h') \<and> length (nodes h') = length (nodes h)"
    using reset_graph_typed[OF typed p fuel, of force]
    by (cases "reset_graph d h p force") (auto simp: typed_step_def typed_growth_def)
  show "case derivative d h p r of Inl e \<Rightarrow> e = NullDeref
      | Inr (x, h') \<Rightarrow> typed_heap h' \<and> same_shape (nodes h) (nodes h') \<and> typed_ptr h' x"
    using derivative_typed[OF typed p fuel, of r]
    by (auto simp: typed_built_def typed_result_def typed_growth_def)
  show "no_nulls h \<longrightarrow> (\<forall>i. p = Some i \<longrightarrow> (\<exists>e. denotes (nodes h) i e \<and> depth e \<le> Suc i))"
    using typed_denotes[OF typed] p by (auto simp: typed_ptr_def points_below_def)
qed (rule make_pair_typed[OF typed p q])+

lemma square_typed: "typed_heap square_heap" "no_nulls square_heap"
  by (auto simp: typed_heap_def typed_node_def points_below_def no_nulls_def square_heap_def nth_Cons' less_Suc_eq)

theorem graph_typing_witness:
  "typed_heap square_heap \<and> (case derivative 3 square_heap (Some 1) () of Inl e \<Rightarrow> e = NullDeref
      | Inr (x, h') \<Rightarrow> typed_heap h' \<and> same_shape (nodes square_heap) (nodes h') \<and> typed_ptr h' x) \<and>
    (\<exists>e. denotes (nodes square_heap) 1 e \<and> depth e \<le> 2)"
  using graph_typing[OF square_typed(1), of "Some 1" "Some 0" 3 "\<lambda>_. 3" False "()"] square_typed
  by (simp add: typed_ptr_def points_below_def square_heap_def numeral_eq_Suc)

end
