(* ===== verification/Leb128.thy ===== *)
theory Leb128
  imports Prelude
begin

unbundle bit_operations_syntax

text \<open>
  The incremental signed LEB128 decoder of \<open>src/mmap/sample4/main.c\<close>: the parser struct and
  \<open>put_char\<close> over 32-bit words, and the program around it, which finds out how much of the file
  can be mapped and decodes the mapped bytes.  The specification side is the LEB128 encoder over
  the integers; decoding an encoded number gives the number back.
\<close>

subsection \<open>The decoder\<close>

datatype leb_state = LEB_ZERO | LEB_PARTIAL | LEB_FINISHED

record Parser =
  result :: uint32
  shift :: nat
  state :: leb_state

definition fresh_parser :: Parser where
  "fresh_parser = \<lparr>result = 0, shift = 0, state = LEB_ZERO\<rparr>"

text \<open>
  Returns the code, the parser and the value of \<open>*res\<close>.  A shift by 32 or more is undefined in C;
  \<open>~0 << shift\<close> is taken as the compilers define it.
\<close>

definition put_char :: "Parser \<Rightarrow> byte \<Rightarrow> int \<Rightarrow> c_error + (int \<times> Parser \<times> int)" where
  "put_char parser c res =
     (let parser = (if state parser = LEB_FINISHED
                    then parser\<lparr>state := LEB_ZERO, shift := 0, result := 0\<rparr> else parser);
          parser = parser\<lparr>state := LEB_PARTIAL\<rparr>
      in if 32 \<le> shift parser then Inl ShiftTooWide
      else
        let parser = parser\<lparr>result := result parser OR push_bit (shift parser) (ucast (c AND 0x7F))\<rparr>;
            parser = parser\<lparr>shift := shift parser + 7\<rparr>
        in if 0x80 AND c = 0
           then
             let parser = (if shift parser < 32 \<and> c AND 0x40 \<noteq> 0
                           then parser\<lparr>result := result parser OR push_bit (shift parser) (NOT 0)\<rparr>
                           else parser)
             in Inr (0, parser\<lparr>state := LEB_FINISHED\<rparr>, sint (result parser))
           else Inr (-2, parser, res))"

text \<open>The inner loop of \<open>main\<close> over the bytes at hand: the values it prints.\<close>

fun feed :: "Parser \<Rightarrow> int \<Rightarrow> byte list \<Rightarrow> c_error + (int list \<times> Parser \<times> int)" where
  "feed parser value [] = Inr ([], parser, value)"
| "feed parser value (c # cs) =
     bindE (put_char parser c value) (\<lambda>(r, parser, value).
     bindE (feed parser value cs) (\<lambda>(out, parser, value'').
       Inr (if r = 0 then value # out else out, parser, value'')))"

subsection \<open>The program\<close>

text \<open>
  \<open>mappable n\<close>: an \<open>mmap\<close> of \<open>n\<close> bytes of the file succeeds.  The probe grows the block by a page
  as long as that works.
\<close>

function probe :: "nat \<Rightarrow> (nat \<Rightarrow> bool) \<Rightarrow> nat \<Rightarrow> nat \<Rightarrow> nat" where
  "probe page_size mappable st_size block_size =
     (if 0 < page_size \<and> block_size < st_size
      then let next_block_size = min (block_size + page_size) st_size
           in if mappable next_block_size
              then probe page_size mappable st_size next_block_size
              else block_size
      else block_size)"
  by pat_completeness auto
termination
  by (relation "measure (\<lambda>(p, m, st, b). st - b)") auto

declare probe.simps [simp del]

text \<open>
  The bytes that \<open>mem[0], mem[1], ...\<close> yield for a mapping of \<open>block_size\<close> bytes at offset \<open>sz\<close>: whole
  pages, zero beyond the end of the file; a failed mapping has no bytes.
\<close>

definition mapped_bytes :: "nat \<Rightarrow> byte list \<Rightarrow> nat \<Rightarrow> nat \<Rightarrow> byte list" where
  "mapped_bytes page_size file block_size sz =
     (let n = (block_size + page_size - 1) div page_size * page_size
      in take n (drop sz file @ replicate n 0))"

text \<open>
  One iteration of the outer loop prints the values completed while \<open>i\<close> runs up to the size of the
  whole file, whatever the size of the block; reading past the mapping faults.
\<close>

definition decode_block ::
  "nat \<Rightarrow> (nat \<Rightarrow> bool) \<Rightarrow> byte list \<Rightarrow> nat \<Rightarrow> nat \<Rightarrow> Parser \<Rightarrow> int \<Rightarrow> c_error + (int list \<times> Parser \<times> int)" where
  "decode_block page_size mappable file block_size sz parser value =
     (let mem = (if 0 < block_size \<and> mappable block_size
                 then mapped_bytes page_size file block_size sz else [])
      in bindE (feed parser value (take (length file) mem)) (\<lambda>r.
           if length mem < length file then Inl OutOfBounds else Inr r))"

function decode_blocks ::
  "nat \<Rightarrow> (nat \<Rightarrow> bool) \<Rightarrow> byte list \<Rightarrow> nat \<Rightarrow> nat \<Rightarrow> Parser \<Rightarrow> int \<Rightarrow> c_error + int list" where
  "decode_blocks page_size mappable file block_size sz parser value =
     (if sz < length file
      then let block_size = min block_size (length file - sz)
           in bindE (decode_block page_size mappable file block_size sz parser value)
                (\<lambda>(out, parser, value).
                   if block_size = 0 then Inl Diverges
                   else bindE (decode_blocks page_size mappable file block_size (sz + block_size) parser value)
                     (\<lambda>out'. Inr (out @ out')))
      else Inr [])"
  by pat_completeness auto
termination
  by (relation "measure (\<lambda>(p, m, f, b, sz, q, v). length f - sz)") auto

declare decode_blocks.simps [simp del]

text \<open>The two kinds of lines that the program prints.\<close>

datatype leb_line =
    PageSize nat  \<comment> \<open>\<open>Page size: %d\<close>\<close>
  | Decoded int   \<comment> \<open>\<open>%d\<close>\<close>

definition leb_main :: "nat \<Rightarrow> (nat \<Rightarrow> bool) \<Rightarrow> byte list \<Rightarrow> c_error + leb_line list" where
  "leb_main page_size mappable file =
     (let block_size = probe page_size mappable (length file) 0
      in bindE (decode_blocks page_size mappable file block_size 0 fresh_parser 0) (\<lambda>out.
           Inr (PageSize page_size # map Decoded out)))"

subsection \<open>The encoder, as specification\<close>

text \<open>
  Seven bits at a time, least significant first; the top bit of a byte says that more follow, and
  the last byte's bit 6 is the sign.
\<close>

definition leb_stop :: "int \<Rightarrow> bool" where
  "leb_stop v \<longleftrightarrow> -64 \<le> v \<and> v < 64"

function sleb :: "int \<Rightarrow> byte list" where
  "sleb v = (if leb_stop v then [word_of_int (take_bit 7 v)]
             else (word_of_int (take_bit 7 v) OR 0x80) # sleb (drop_bit 7 v))"
  by pat_completeness auto
termination
proof (relation "measure (\<lambda>v. nat \<bar>v\<bar>)", goal_cases)
  case (2 v)
  then have "v < -64 \<or> 64 \<le> v" by (auto simp: leb_stop_def)
  then show ?case by (auto simp: drop_bit_eq_div)
qed simp

declare sleb.simps [simp del]

text \<open>The bits of an encoded byte.\<close>

lemma test_bit7: "0x80 AND c = 0 \<longleftrightarrow> \<not> bit c 7" for c :: byte
  using bit_iff_and_push_bit_not_eq_0[of c 7] by (simp add: and.commute)

lemma test_bit6: "c AND 0x40 = 0 \<longleftrightarrow> \<not> bit c 6" for c :: byte
  using bit_iff_and_push_bit_not_eq_0[of c 6] by simp

lemma low_mask: "(0x7F :: byte) = mask 7"
  by (simp add: mask_eq_exp_minus_1)

lemma high_bit: "bit (0x80 :: byte) n \<longleftrightarrow> n = 7" and high_bit_int: "bit (0x80 :: int) n \<longleftrightarrow> n = 7"
proof -
  have "bit (push_bit 7 (1 :: byte)) n \<longleftrightarrow> n = 7" "bit (push_bit 7 (1 :: int)) n \<longleftrightarrow> n = 7"
    by (auto simp only: bit_push_bit_iff bit_1_iff possible_bit_word possible_bit_int) auto
  moreover have "push_bit 7 (1 :: byte) = 0x80" "push_bit 7 (1 :: int) = 0x80" by simp_all
  ultimately show "bit (0x80 :: byte) n \<longleftrightarrow> n = 7" "bit (0x80 :: int) n \<longleftrightarrow> n = 7" by metis+
qed

lemma payload:
  "ucast ((word_of_int (take_bit 7 v) :: byte) AND 0x7F) = (word_of_int (take_bit 7 v) :: uint32)"
  "ucast (((word_of_int (take_bit 7 v) :: byte) OR 0x80) AND 0x7F) = (word_of_int (take_bit 7 v) :: uint32)"
  unfolding low_mask by (rule bit_word_eqI; auto simp: bit_simps high_bit high_bit_int)+

lemma last_byte_bits: "\<not> bit (word_of_int (take_bit 7 v) :: byte) 7"
  "bit (word_of_int (take_bit 7 v) :: byte) 6 \<longleftrightarrow> bit v 6"
  by (simp_all add: bit_simps)

lemma more_byte_bits: "bit ((word_of_int (take_bit 7 v) :: byte) OR 0x80) 7"
  by (simp add: bit_simps high_bit high_bit_int)

lemma leb_stop_sign: "leb_stop v \<Longrightarrow> bit v 6 \<longleftrightarrow> v < 0"
proof -
  assume "leb_stop v"
  then have "v div 64 = (if v < 0 then -1 else 0)"
    by (auto simp: leb_stop_def)
  then show ?thesis by (simp add: bit_iff_odd)
qed

lemma leb_stop_bits: "leb_stop v \<Longrightarrow> 6 \<le> n \<Longrightarrow> bit v n \<longleftrightarrow> v < 0"
proof -
  assume v: "leb_stop v" and n: "6 \<le> n"
  have "bit v n = bit (drop_bit 6 v) (n - 6)" using n by (simp add: bit_simps)
  also have "drop_bit 6 v = (if v < 0 then -1 else 0)"
    using v by (auto simp: leb_stop_def drop_bit_eq_div)
  finally show ?thesis by simp
qed

text \<open>The accumulated word after \<open>k\<close> bits, and after one more byte.\<close>

lemma accumulate:
  "(word_of_int (take_bit k v) :: uint32) OR push_bit k (word_of_int (take_bit 7 (drop_bit k v))) =
     word_of_int (take_bit (k + 7) v)"
  by (rule bit_word_eqI) (auto simp: bit_simps)

lemma sign_extend:
  assumes "leb_stop (drop_bit k v)"
  shows "(word_of_int (take_bit (k + 7) v) :: uint32) OR
           (if drop_bit k v < 0 then push_bit (k + 7) (NOT 0) else 0) = word_of_int v"
proof (rule bit_word_eqI)
  fix n assume n: "n < LENGTH(32)"
  show "bit ((word_of_int (take_bit (k + 7) v) :: uint32) OR
           (if drop_bit k v < 0 then push_bit (k + 7) (NOT 0) else 0)) n = bit (word_of_int v :: uint32) n"
  proof (cases "n < k + 7")
    case False
    then have "bit v n = (drop_bit k v < 0)"
      using leb_stop_bits[OF assms, of "n - k"] by (simp add: bit_simps)
    then show ?thesis using n False by (auto simp: bit_simps)
  qed (use n in \<open>auto simp: bit_simps\<close>)
qed

subsection \<open>Decoding inverts encoding\<close>

lemma put_char_last:
  assumes p: "state p \<noteq> LEB_FINISHED" "result p = word_of_int (take_bit k v)" "shift p = k" and k: "k < 32"
    and stop: "leb_stop (drop_bit k v)"
  shows "put_char p (word_of_int (take_bit 7 (drop_bit k v))) r =
    Inr (0, \<lparr>result = word_of_int v, shift = k + 7, state = LEB_FINISHED\<rparr>, sint (word_of_int v :: uint32))"
proof -
  have ext: "(word_of_int (take_bit (k + 7) v) :: uint32) OR
      (if drop_bit k v < 0 then push_bit (k + 7) (NOT 0) else 0) = word_of_int v"
    by (rule sign_extend[OF stop])
  have wide: "push_bit (k + 7) (NOT 0 :: uint32) = 0" if "\<not> k + 7 < 32"
    using that by (intro bit_word_eqI) (simp add: bit_simps)
  show ?thesis
    using p k ext wide leb_stop_sign[OF stop]
    by (auto simp: put_char_def Let_def payload accumulate test_bit7 test_bit6 last_byte_bits split: if_splits)
qed

lemma put_char_more:
  assumes p: "state p \<noteq> LEB_FINISHED" "result p = word_of_int (take_bit k v)" "shift p = k" and k: "k < 32"
  shows "put_char p (word_of_int (take_bit 7 (drop_bit k v)) OR 0x80) r =
    Inr (-2, \<lparr>result = word_of_int (take_bit (k + 7) v), shift = k + 7, state = LEB_PARTIAL\<rparr>, r)"
  using p k by (simp add: put_char_def Let_def payload accumulate test_bit7 more_byte_bits)

lemma put_char_restart: "state p = LEB_FINISHED \<Longrightarrow> put_char p c r = put_char fresh_parser c r"
  by (cases p) (simp add: put_char_def fresh_parser_def)

definition int32_range :: "int \<Rightarrow> bool" where
  "int32_range v \<longleftrightarrow> -(2 ^ 31) \<le> v \<and> v < 2 ^ 31"

lemma signed_of_int_32: "sint (word_of_int v :: uint32) = signed_take_bit 31 v"
  by transfer simp

lemma sint_of_int32: "int32_range v \<Longrightarrow> sint (word_of_int v :: uint32) = v"
  unfolding int32_range_def
  by (simp add: signed_of_int_32 signed_take_bit_int_eq_self)

lemma leb_stop_drop: "leb_stop x \<Longrightarrow> leb_stop (drop_bit n x)"
proof (induction n arbitrary: x)
  case (Suc n)
  then have "leb_stop (x div 2)" unfolding leb_stop_def by presburger
  then have "leb_stop (drop_bit n (x div 2))" by (rule Suc.IH)
  then show ?case by (simp only: drop_bit_Suc)
qed simp

lemma int32_stop: "int32_range v \<Longrightarrow> 25 \<le> k \<Longrightarrow> leb_stop (drop_bit k v)"
proof -
  assume v: "int32_range v" and k: "25 \<le> k"
  have "drop_bit (k - 25) (drop_bit 25 v) = drop_bit k v" using k by simp
  moreover have "leb_stop (drop_bit 25 v)" using v by (auto simp: int32_range_def leb_stop_def drop_bit_eq_div)
  ultimately show ?thesis using leb_stop_drop[of "drop_bit 25 v" "k - 25"] by (simp only:)
qed

text \<open>Decoding the rest of a number whose first \<open>k\<close> bits have been read.\<close>

lemma feed_append:
  "feed p r (xs @ ys) = bindE (feed p r xs) (\<lambda>(out, p', r').
     bindE (feed p' r' ys) (\<lambda>(out', p'', r''). Inr (out @ out', p'', r'')))"
proof (induction p r xs rule: feed.induct)
  case (1 p r)
  show ?case by (cases "feed p r ys") (auto simp: bindE_def split: prod.splits)
next
  case (2 p r c cs)
  show ?case
  proof (cases "put_char p c r")
    case (Inr x)
    obtain a q v where x: "x = (a, q, v)" by (cases x)
    have ih: "feed q v (cs @ ys) = bindE (feed q v cs) (\<lambda>(out, p', r').
       bindE (feed p' r' ys) (\<lambda>(out', p'', r''). Inr (out @ out', p'', r'')))"
      using 2 Inr x by blast
    show ?thesis
    proof (cases "feed q v cs")
      case (Inr y)
      obtain o1 p1 r1 where y: "y = (o1, p1, r1)" by (cases y)
      show ?thesis
        using Inr ih y x \<open>put_char p c r = Inr x\<close> by (cases "feed p1 r1 ys") (auto simp: split: prod.splits)
    qed (use Inr ih x in simp)
  qed simp
qed

lemma feed_sleb:
  assumes "int32_range v" and "k < 32"
    and "state p \<noteq> LEB_FINISHED" "result p = word_of_int (take_bit k v)" "shift p = k"
  shows "\<exists>p'. feed p r (sleb (drop_bit k v)) = Inr ([v], p', v) \<and> state p' = LEB_FINISHED"
  using assms(2-)
proof (induction "32 - k" arbitrary: k p rule: less_induct)
  case less
  show ?case
  proof (cases "leb_stop (drop_bit k v)")
    case True
    have "put_char p (word_of_int (take_bit 7 (drop_bit k v))) r =
        Inr (0, \<lparr>result = word_of_int v, shift = k + 7, state = LEB_FINISHED\<rparr>, v)"
      using put_char_last[OF less.prems(2-4) less.prems(1) True] sint_of_int32[OF assms(1)] by simp
    then show ?thesis using True by (simp add: sleb.simps[of "drop_bit k v"])
  next
    case False
    then have k: "k < 25" using int32_stop[OF assms(1), of k] by linarith
    let ?q = "\<lparr>result = word_of_int (take_bit (k + 7) v), shift = k + 7, state = LEB_PARTIAL\<rparr> :: Parser"
    have step: "put_char p (word_of_int (take_bit 7 (drop_bit k v)) OR 0x80) r = Inr (-2, ?q, r)"
      by (rule put_char_more[OF less.prems(2-4) less.prems(1)])
    have "\<exists>p'. feed ?q r (sleb (drop_bit (k + 7) v)) = Inr ([v], p', v) \<and> state p' = LEB_FINISHED"
      using k by (intro less.hyps) auto
    then show ?thesis
      using step False by (auto simp: sleb.simps[of "drop_bit k v"] add.commute)
  qed
qed

text \<open>A parser between numbers: as \<open>main\<close> initialises it, or just after a number.\<close>

definition between_numbers :: "Parser \<Rightarrow> bool" where
  "between_numbers p \<longleftrightarrow> p = fresh_parser \<or> state p = LEB_FINISHED"

lemma sleb_not_Nil: "sleb v \<noteq> []"
  by (subst sleb.simps) simp

lemma feed_restart: "state p = LEB_FINISHED \<Longrightarrow> xs \<noteq> [] \<Longrightarrow> feed p r xs = feed fresh_parser r xs"
  by (cases xs) (simp_all add: put_char_restart)

lemma feed_one:
  assumes "int32_range v" and "between_numbers p"
  shows "\<exists>p'. feed p r (sleb v) = Inr ([v], p', v) \<and> between_numbers p'"
proof -
  have "feed p r (sleb v) = feed fresh_parser r (sleb v)"
    using assms(2) feed_restart sleb_not_Nil by (auto simp: between_numbers_def)
  moreover have "\<exists>p'. feed fresh_parser r (sleb (drop_bit 0 v)) = Inr ([v], p', v) \<and> state p' = LEB_FINISHED"
    by (rule feed_sleb[OF assms(1)]) (simp_all add: fresh_parser_def)
  ultimately show ?thesis by (auto simp: between_numbers_def)
qed

lemma feed_all:
  "\<forall>v \<in> set vs. int32_range v \<Longrightarrow> between_numbers p \<Longrightarrow>
     \<exists>p' r'. feed p r (concat (map sleb vs)) = Inr (vs, p', r') \<and> between_numbers p'"
proof (induction vs arbitrary: p r)
  case (Cons v vs)
  obtain p1 where p1: "feed p r (sleb v) = Inr ([v], p1, v)" "between_numbers p1"
    using feed_one[of v p r] Cons.prems by auto
  obtain p' r' where "feed p1 v (concat (map sleb vs)) = Inr (vs, p', r')" "between_numbers p'"
    using Cons.IH[of p1 v] Cons.prems p1(2) by auto
  then show ?case using p1 by (simp add: feed_append)
qed simp

subsection \<open>The whole program\<close>

lemma probe_whole:
  assumes "0 < page_size"
  shows "k0 * page_size < st \<Longrightarrow>
    probe page_size mappable st (k0 * page_size) = st \<longleftrightarrow> (\<forall>k > k0. mappable (min (k * page_size) st))"
proof (induction "st - k0 * page_size" arbitrary: k0 rule: less_induct)
  case less
  let ?nb = "min (Suc k0 * page_size) st"
  have step: "probe page_size mappable st (k0 * page_size) = (if mappable ?nb then probe page_size mappable st ?nb else k0 * page_size)"
    using less.prems assms by (simp add: probe.simps[of page_size mappable st "k0 * page_size"] Let_def add.commute)
  show ?case
  proof (cases "mappable ?nb")
    case True
    show ?thesis
    proof (cases "Suc k0 * page_size < st")
      case lt: True
      have ih: "probe page_size mappable st (Suc k0 * page_size) = st \<longleftrightarrow> (\<forall>k > Suc k0. mappable (min (k * page_size) st))"
        using lt assms less.prems by (intro less.hyps) simp_all
      have "probe page_size mappable st (k0 * page_size) = probe page_size mappable st (Suc k0 * page_size)"
        using step True lt by simp
      then show ?thesis using ih True by (metis Suc_lessI Suc_lessD)
    next
      case False
      then have "probe page_size mappable st (k0 * page_size) = st"
        using step True by (simp add: probe.simps[of page_size mappable st st])
      moreover have "mappable (min (k * page_size) st)" if "k0 < k" for k
      proof -
        have "Suc k0 * page_size \<le> k * page_size" using that by (intro mult_le_mono1) simp
        then have "min (k * page_size) st = ?nb" using False by simp
        then show ?thesis using True by simp
      qed
      ultimately show ?thesis by blast
    qed
  next
    case False
    then show ?thesis using step less.prems by (metis lessI nat_neq_iff)
  qed
qed

text \<open>The probe ends on a page boundary or at the end of the file, never beyond it.\<close>

lemma probe_bounds:
  "b \<le> st \<Longrightarrow> page_size dvd b \<Longrightarrow>
     probe page_size mappable st b \<le> st \<and>
     (page_size dvd probe page_size mappable st b \<or> probe page_size mappable st b = st)"
proof (induction page_size mappable st b rule: probe.induct)
  case (1 page_size mappable st b)
  show ?case
  proof (cases "0 < page_size \<and> b < st \<and> mappable (min (b + page_size) st)")
    case True
    then have eq: "probe page_size mappable st b = probe page_size mappable st (min (b + page_size) st)"
      by (simp add: probe.simps[of page_size mappable st b] Let_def)
    show ?thesis
    proof (cases "b + page_size \<le> st")
      case le: True
      then have "min (b + page_size) st = b + page_size" by simp
      then show ?thesis using 1 True eq le by (metis dvd_add_triv_right_iff)
    next
      case False
      then have "min (b + page_size) st = st" by simp
      then show ?thesis using eq by (simp add: probe.simps[of page_size mappable st st])
    qed
  next
    case False
    then have "probe page_size mappable st b = b"
      by (auto simp: probe.simps[of page_size mappable st b] Let_def)
    then show ?thesis using 1(2,3) by simp
  qed
qed

lemma length_mapped_bytes:
  "length (mapped_bytes page_size file b sz) = (b + page_size - 1) div page_size * page_size"
  by (simp add: mapped_bytes_def Let_def)

lemma mapped_enough: "0 < page_size \<Longrightarrow> b \<le> (b + page_size - 1) div page_size * page_size"
  for b page_size :: nat
proof -
  assume "0 < page_size"
  have "b + page_size - 1 = (b + page_size - 1) div page_size * page_size + (b + page_size - 1) mod page_size"
    by simp
  moreover have "(b + page_size - 1) mod page_size < page_size" using \<open>0 < page_size\<close> by simp
  ultimately show ?thesis by linarith
qed

lemma mapped_exact: "0 < page_size \<Longrightarrow> page_size dvd b \<Longrightarrow> (b + page_size - 1) div page_size * page_size = b"
  for b page_size :: nat
proof -
  assume "0 < page_size" "page_size dvd b"
  moreover from this obtain k where "b = page_size * k" by auto
  moreover have "(page_size * k + (page_size - 1)) div page_size = k"
    using \<open>0 < page_size\<close> by (intro div_nat_eqI) simp_all
  moreover have "page_size * k + page_size - 1 = page_size * k + (page_size - 1)"
    using \<open>0 < page_size\<close> by simp
  ultimately show ?thesis by (simp only: mult.commute)
qed

lemma decode_whole_file:
  assumes "0 < page_size" and "mappable (length file)" and "file \<noteq> []"
  shows "decode_blocks page_size mappable file (length file) 0 p r =
           bindE (feed p r file) (\<lambda>(out, _). Inr out)"
proof -
  let ?n = "(length file + page_size - 1) div page_size * page_size"
  have n: "length file \<le> ?n" by (rule mapped_enough[OF assms(1)])
  then have mem: "take (length file) (mapped_bytes page_size file (length file) 0) = file"
    by (simp add: mapped_bytes_def Let_def)
  have "decode_block page_size mappable file (length file) 0 p r = feed p r file"
    using assms n mem by (simp add: decode_block_def Let_def length_mapped_bytes bindE_def split: sum.splits)
  moreover have "decode_blocks page_size mappable file (length file) (length file) q v = Inr []" for q v
    by (simp add: decode_blocks.simps)
  ultimately show ?thesis
    using assms(3) by (cases "feed p r file")
      (auto simp: decode_blocks.simps[where block_size = "length file" and sz = 0])
qed

text \<open>The file can be mapped by the page, two pages, and so on up to the whole of it, which the probe tries.\<close>

definition mapped_whole :: "nat \<Rightarrow> (nat \<Rightarrow> bool) \<Rightarrow> byte list \<Rightarrow> bool" where
  "mapped_whole page_size mappable file \<longleftrightarrow>
     file = [] \<or> (\<forall>k > 0. mappable (min (k * page_size) (length file)))"

lemma mapped_whole_probe:
  assumes "0 < page_size"
  shows "mapped_whole page_size mappable file \<longleftrightarrow> probe page_size mappable (length file) 0 = length file"
  using probe_whole[OF assms, of 0 "length file" mappable]
  by (cases "file = []") (simp_all add: mapped_whole_def probe.simps)

text \<open>
  When the probe finds that the file cannot be mapped whole, no run is defined: the inner loop
  runs to the size of the file, not of the block, and leaves the mapping.
\<close>

lemma leb_main_partial_map:
  assumes "0 < page_size" and "\<not> mapped_whole page_size mappable file"
  shows "\<exists>e. leb_main page_size mappable file = Inl e"
proof -
  let ?b = "probe page_size mappable (length file) 0"
  have lt: "?b < length file"
    using assms probe_bounds[of 0 "length file" page_size mappable] by (simp add: mapped_whole_probe)
  have dvd: "page_size dvd ?b"
    using probe_bounds[of 0 "length file" page_size mappable] lt by auto
  have len: "length (mapped_bytes page_size file ?b 0) < length file"
    using mapped_exact[OF assms(1) dvd] lt by (simp add: length_mapped_bytes)
  have "\<exists>e. decode_block page_size mappable file ?b 0 fresh_parser 0 = Inl e"
    using len lt
    by (auto simp: decode_block_def Let_def bindE_def split: sum.splits)
  then obtain e where "decode_block page_size mappable file ?b 0 fresh_parser 0 = Inl e" ..
  moreover have "min ?b (length file - 0) = ?b" using lt by simp
  ultimately have "decode_blocks page_size mappable file ?b 0 fresh_parser 0 = Inl e"
    using lt by (cases "file = []") (simp_all add: decode_blocks.simps[where block_size = ?b and sz = 0] Let_def)
  then show ?thesis by (simp add: leb_main_def)
qed

text \<open>
  C11. The program inverts the encoder: on a file that is the concatenation of the signed LEB128
  encodings of 32-bit integers it prints the page size and then exactly these integers, in order, and runs into no
  undefined behaviour, if \<open>mmap\<close> of one page, two pages and so on up to the whole file succeeds.  If one of these
  fails, the run is not defined.
\<close>
theorem leb_main_roundtrip:
  assumes "0 < page_size" and "\<forall>v \<in> set vs. int32_range v"
  shows "if mapped_whole page_size mappable (concat (map sleb vs))
    then leb_main page_size mappable (concat (map sleb vs)) = Inr (PageSize page_size # map Decoded vs)
    else \<exists>e. leb_main page_size mappable (concat (map sleb vs)) = Inl e"
proof (cases "mapped_whole page_size mappable (concat (map sleb vs))")
  case True
  let ?file = "concat (map sleb vs)"
  have probe: "probe page_size mappable (length ?file) 0 = length ?file"
    using True mapped_whole_probe[OF assms(1)] by blast
  have "leb_main page_size mappable ?file = Inr (PageSize page_size # map Decoded vs)"
  proof (cases "?file = []")
    case Nil: True
    then have "vs = []" using sleb_not_Nil by (cases vs) auto
    then show ?thesis by (simp add: leb_main_def decode_blocks.simps)
  next
    case False
    then have "0 < length ?file" by (simp only: length_greater_0_conv not_False_eq_True)
    moreover have "\<forall>k > 0. mappable (min (k * page_size) (length ?file))"
      using True False unfolding mapped_whole_def by blast
    ultimately have "mappable (min (length ?file * page_size) (length ?file))" by blast
    then have whole: "mappable (length ?file)" using assms(1) by (simp add: min_absorb2)
    obtain p' r' where "feed fresh_parser 0 ?file = Inr (vs, p', r')"
      using feed_all[OF assms(2), of fresh_parser 0] by (auto simp: between_numbers_def)
    then show ?thesis
      unfolding leb_main_def Let_def probe decode_whole_file[of page_size mappable, OF assms(1) whole False] by simp
  qed
  then show ?thesis using True by simp
next
  case False
  then show ?thesis using leb_main_partial_map[OF assms(1) False] by simp
qed

theorem leb_main_roundtrip_witness:
  "leb_main 4096 (\<lambda>_. True) (concat (map sleb [0, -1, 300, -(2 ^ 31), 2 ^ 31 - 1])) =
     Inr (PageSize 4096 # map Decoded [0, -1, 300, -(2 ^ 31), 2 ^ 31 - 1])"
  using leb_main_roundtrip[of 4096 "[0, -1, 300, -(2 ^ 31), 2 ^ 31 - 1]" "\<lambda>_. True"]
  by (simp add: int32_range_def mapped_whole_def del: sleb.simps)

lemma leb_main_partial_map_demo: "\<exists>e. leb_main 4 (\<lambda>n. n \<le> 4) (replicate 6 0) = Inl e"
  by (rule leb_main_partial_map) (auto simp: mapped_whole_def intro: exI[of _ 2])

text \<open>
  A number of more than five bytes is undefined behaviour: once five continuation bytes have
  been read the shift count is 35, and the next byte is shifted by it.
\<close>
theorem overlong_number:
  assumes "\<forall>c \<in> set cs. bit c 7" and "length cs = 5"
  shows "feed fresh_parser r (cs @ c # rest) = Inl ShiftTooWide"
proof -
  obtain c1 c2 c3 c4 c5 where cs: "cs = [c1, c2, c3, c4, c5]"
    using assms(2) by (auto simp: length_Suc_conv eval_nat_numeral)
  show ?thesis
    using assms(1) unfolding cs
    by (simp add: put_char_def fresh_parser_def Let_def test_bit7)
qed

theorem overlong_number_witness:
  "feed fresh_parser 0 (replicate 5 0x80 @ [0, 0]) = Inl ShiftTooWide"
  by (rule overlong_number) (auto simp: high_bit)

end
