(* ===== verification/LebReference.thy ===== *)
theory LebReference
  imports Leb128
begin

unbundle bit_operations_syntax

text \<open>
  The decoder that the comment at the head of \<open>src/mmap/sample4/main.c\<close> gives in JavaScript, and its comparison
  with the byte by byte decoder of the code.
\<close>

subsection \<open>The decoder of the comment\<close>

text \<open>
  The bit operators of JavaScript work on 32-bit integers and take shift counts modulo 32; \<open>input.shift()\<close> of
  an empty array is \<open>undefined\<close>, which they read as 0.  The rest of the input is returned too.
\<close>

fun js_loop :: "uint32 \<Rightarrow> nat \<Rightarrow> byte list \<Rightarrow> int \<times> byte list" where
  "js_loop res shft [] = (sint res, [])"
| "js_loop res shft (byte # input) =
     (let res = res OR push_bit (shft mod 32) (ucast (byte AND 0x7F)); shft = shft + 7
      in if 0x80 AND byte = 0
         then (if shft < 32 \<and> byte AND 0x40 \<noteq> 0 then sint (res OR push_bit (shft mod 32) (NOT 0))
               else sint res, input)
         else js_loop res shft input)"

definition js_decode :: "byte list \<Rightarrow> int \<times> byte list" where
  "js_decode input = js_loop 0 0 input"

text \<open>All numbers that are complete: one call after the other while a last byte is left.\<close>

definition more :: "byte \<Rightarrow> bool" where
  "more b \<longleftrightarrow> 0x80 AND b \<noteq> 0"

definition complete :: "byte list \<Rightarrow> bool" where
  "complete input \<longleftrightarrow> list_ex (\<lambda>b. \<not> more b) input"

lemma js_loop_shorter: "input \<noteq> [] \<Longrightarrow> length (snd (js_loop w s input)) < length input"
proof (induction w s input rule: js_loop.induct)
  case (2 w s b bs)
  then show ?case by (cases "bs = []") (auto simp: Let_def intro: less_SucI)
qed simp

function js_numbers :: "byte list \<Rightarrow> int list" where
  "js_numbers input =
     (if complete input then fst (js_decode input) # js_numbers (snd (js_decode input)) else [])"
  by pat_completeness auto
termination
proof (relation "measure length", goal_cases)
  case (2 input)
  then have "input \<noteq> []" by (auto simp: complete_def)
  then show ?case by (simp add: js_decode_def js_loop_shorter)
qed simp

declare js_numbers.simps [simp del]

text \<open>A number of more than five bytes; \<open>k\<close> bytes of the first number have been seen.\<close>

fun too_long :: "nat \<Rightarrow> byte list \<Rightarrow> bool" where
  "too_long k [] \<longleftrightarrow> False"
| "too_long k (b # bs) \<longleftrightarrow> 5 \<le> k \<or> too_long (if more b then k + 1 else 0) bs"

subsection \<open>The two in step\<close>

definition js_from :: "uint32 \<Rightarrow> nat \<Rightarrow> byte list \<Rightarrow> int list" where
  "js_from w s input =
     (if complete input then fst (js_loop w s input) # js_numbers (snd (js_loop w s input)) else [])"

lemma js_numbers_from: "js_numbers input = js_from 0 0 input"
  by (simp add: js_numbers.simps[of input] js_from_def js_decode_def)

lemma js_from_Nil: "js_from w s [] = []"
  by (simp add: js_from_def complete_def)

lemma js_from_more: "more b \<Longrightarrow> js_from w s (b # bs) = js_from (w OR push_bit (s mod 32) (ucast (b AND 0x7F))) (s + 7) bs"
  by (simp add: js_from_def complete_def more_def Let_def)

lemma js_from_last: "\<not> more b \<Longrightarrow> js_from w s (b # bs) = fst (js_loop w s [b]) # js_from 0 0 bs"
  using js_numbers_from[of bs] by (simp add: js_from_def[of w s] complete_def more_def Let_def)

lemma put_char_js:
  assumes "state p \<noteq> LEB_FINISHED" and "shift p < 32"
  shows "put_char p b r = Inr (if more b
      then (-2, \<lparr>result = result p OR push_bit (shift p) (ucast (b AND 0x7F)), shift = shift p + 7, state = LEB_PARTIAL\<rparr>, r)
      else (0, \<lparr>result = word_of_int (fst (js_loop (result p) (shift p) [b])), shift = shift p + 7, state = LEB_FINISHED\<rparr>,
            fst (js_loop (result p) (shift p) [b])))"
  using assms by (simp add: put_char_def Let_def more_def)

text \<open>What \<open>feed\<close> returns from a parser that has taken \<open>k\<close> bytes of a number.\<close>

definition agrees :: "nat \<Rightarrow> uint32 \<Rightarrow> byte list \<Rightarrow> c_error + int list \<times> Parser \<times> int \<Rightarrow> bool" where
  "agrees k w bs r \<longleftrightarrow> (case r of Inl e \<Rightarrow> e = ShiftTooWide \<and> too_long k bs
     | Inr (out, _) \<Rightarrow> out = js_from w (7 * k) bs \<and> \<not> too_long k bs)"

lemma feed_agrees:
  "(state p \<noteq> LEB_FINISHED \<longrightarrow> shift p = 7 * k \<longrightarrow> k \<le> 5 \<longrightarrow> agrees k (result p) bs (feed p r bs)) \<and>
   (state p = LEB_FINISHED \<longrightarrow> agrees 0 0 bs (feed p r bs))"
proof (induction bs arbitrary: p k r)
  case Nil
  show ?case by (simp add: agrees_def js_from_Nil)
next
  case (Cons b bs)
  have running: "agrees k (result p) (b # bs) (feed p r (b # bs))"
    if p: "state p \<noteq> LEB_FINISHED" "shift p = 7 * k" "k \<le> 5" for p k
  proof (cases "k = 5")
    case True
    then show ?thesis using p by (simp add: agrees_def put_char_def Let_def)
  next
    case False
    then have k: "k < 5" using p(3) by simp
    note step = put_char_js[OF p(1), of b r]
    show ?thesis
    proof (cases "more b")
      case True
      let ?q = "\<lparr>result = result p OR push_bit (7 * k) (ucast (b AND 0x7F)), shift = 7 * k + 7, state = LEB_PARTIAL\<rparr> :: Parser"
      have "agrees (k + 1) (result ?q) bs (feed ?q r bs)" using Cons.IH[of ?q "k + 1" r] k by simp
      then show ?thesis using True step p k
        by (cases "feed ?q r bs") (auto simp: agrees_def js_from_more add.commute)
    next
      case False
      let ?v = "fst (js_loop (result p) (7 * k) [b])"
      let ?q = "\<lparr>result = word_of_int ?v, shift = 7 * k + 7, state = LEB_FINISHED\<rparr> :: Parser"
      have "agrees 0 0 bs (feed ?q ?v bs)" using Cons.IH[of ?q _ ?v] by simp
      then show ?thesis using False step p k
        by (cases "feed ?q ?v bs") (auto simp: agrees_def js_from_last simp del: js_loop.simps)
    qed
  qed
  moreover have "agrees 0 0 (b # bs) (feed p r (b # bs))" if "state p = LEB_FINISHED"
    using running[of fresh_parser 0] put_char_restart[OF that, of b r] by (simp add: fresh_parser_def)
  ultimately show ?case by blast
qed

subsection \<open>Properties\<close>

text \<open>
  C22. The decoder of the code prints what the JavaScript decoder of its comment returns, number after number, for
  every input in which no number has more than five bytes, wherever the input is cut; a longer number makes the code
  shift by 35, which is undefined, where the comment's decoder goes on.
\<close>

theorem put_char_equals_comment:
  assumes "between_numbers p"
  shows "case feed p r input of
      Inl e \<Rightarrow> e = ShiftTooWide \<and> too_long 0 input
    | Inr (out, p', r') \<Rightarrow> out = js_numbers input \<and> \<not> too_long 0 input"
proof -
  have "agrees 0 0 input (feed p r input)"
    using assms feed_agrees[where p = p and k = 0 and bs = input and r = r] by (auto simp: between_numbers_def fresh_parser_def)
  then show ?thesis by (auto simp: agrees_def js_numbers_from split: sum.splits)
qed

theorem put_char_equals_comment_witness:
  "js_numbers [0xE5, 0x8E, 0x26, 0x7F] = [624485, -1]"
  using put_char_equals_comment[of fresh_parser "[0xE5, 0x8E, 0x26, 0x7F]" 0]
  by (simp add: between_numbers_def fresh_parser_def put_char_def mask_eq_exp_minus_1)

lemma comment_takes_long_numbers:
  "js_decode [0x80, 0x80, 0x80, 0x80, 0x80, 1] = (8, [])"
  "feed fresh_parser 0 [0x80, 0x80, 0x80, 0x80, 0x80, 1] = Inl ShiftTooWide"
  by (simp_all add: js_decode_def put_char_def fresh_parser_def)

end
