(* ===== verification/ByteStream.thy ===== *)
theory ByteStream
  imports Prelude
begin

text \<open>
  What the programs rely on in \<open>read\<close> and \<open>write\<close>: a descriptor opened for reading is the list of
  the bytes still to come, one opened for writing the list of the bytes accepted so far, and the
  kernel's freedom (short transfers, interrupted and failing calls) is a finite script of answers
  that the calls consume; once the script is used up every call transfers all it can.  The locale
  \<open>byte_source\<close> states the contract of \<open>read\<close> that the reading loops use.
\<close>

datatype errno = EINTR | EAGAIN | EIO | EPIPE | EBADF

datatype answer =
    Short nat   \<comment> \<open>transfer at most so many bytes (a read: one more)\<close>
  | Err errno

record source =
  pending :: "byte list"
  answers :: "answer list"

record sink =
  accepted :: "byte list"
  replies :: "answer list"

subsection \<open>The system calls\<close>

definition sys_read :: "nat \<Rightarrow> source \<Rightarrow> (errno + byte list) \<times> source" where
  "sys_read n s = (case answers s of
       [] \<Rightarrow> (Inr (take n (pending s)), s\<lparr>pending := drop n (pending s)\<rparr>)
     | Short k # as \<Rightarrow>
         (let m = min n (Suc k) in
          (Inr (take m (pending s)), s\<lparr>pending := drop m (pending s), answers := as\<rparr>))
     | Err e # as \<Rightarrow> (Inl e, s\<lparr>answers := as\<rparr>))"

text \<open>The number of bytes accepted, which may be zero.\<close>

definition sys_write :: "byte list \<Rightarrow> sink \<Rightarrow> (errno + nat) \<times> sink" where
  "sys_write xs s = (case replies s of
       [] \<Rightarrow> (Inr (length xs), s\<lparr>accepted := accepted s @ xs\<rparr>)
     | Short k # as \<Rightarrow>
         (let m = min k (length xs) in
          (Inr m, s\<lparr>accepted := accepted s @ take m xs, replies := as\<rparr>))
     | Err e # as \<Rightarrow> (Inl e, s\<lparr>replies := as\<rparr>))"

definition budget :: "source \<Rightarrow> nat" where
  "budget s = length (pending s) + length (answers s)"

lemma sys_write_accepted:
  "sys_write xs s = (r, s') \<Longrightarrow>
     (case r of Inl e \<Rightarrow> accepted s' = accepted s \<and> Err e \<in> set (replies s)
      | Inr k \<Rightarrow> k \<le> length xs \<and> accepted s' = accepted s @ take k xs)"
  by (auto simp: sys_write_def Let_def split: list.splits answer.splits)

lemma sys_write_replies: "sys_write xs s = (r, s') \<Longrightarrow> replies s' = tl (replies s)"
  by (auto simp: sys_write_def Let_def split: list.splits answer.splits)

lemma sys_write_all: "sys_write xs s = (Inr k, s') \<Longrightarrow> replies s = [] \<Longrightarrow> k = length xs"
  by (auto simp: sys_write_def)

lemma sys_read_answers: "sys_read n s = (r, s') \<Longrightarrow> answers s' = tl (answers s)"
  by (auto simp: sys_read_def Let_def split: list.splits answer.splits)

lemma sys_read_error: "sys_read n s = (Inl e, s') \<Longrightarrow> answers s = Err e # answers s'"
  by (auto simp: sys_read_def Let_def split: list.splits answer.splits)

subsection \<open>The contract of a readable descriptor\<close>

text \<open>\<open>reads get s xs s'\<close>: a sequence of calls, of any sizes, took \<open>s\<close> to \<open>s'\<close> and delivered \<open>xs\<close>.\<close>

inductive reads :: "(nat \<Rightarrow> 's \<Rightarrow> ('e + 'b list) \<times> 's) \<Rightarrow> 's \<Rightarrow> 'b list \<Rightarrow> 's \<Rightarrow> bool"
  for get :: "nat \<Rightarrow> 's \<Rightarrow> ('e + 'b list) \<times> 's" where
  reads_nil: "reads get s [] s"
| reads_got: "get n s = (Inr xs, s') \<Longrightarrow> reads get s' ys s'' \<Longrightarrow> reads get s (xs @ ys) s''"
| reads_err: "get n s = (Inl e, s') \<Longrightarrow> reads get s' ys s'' \<Longrightarrow> reads get s ys s''"

lemma reads_trans: "reads get s xs s' \<Longrightarrow> reads get s' ys s'' \<Longrightarrow> reads get s (xs @ ys) s''"
  by (induction rule: reads.induct) (auto intro: reads.intros)

lemma reads_one: "get n s = (Inr xs, s') \<Longrightarrow> reads get s xs s'"
  using reads_got[OF _ reads_nil] by fastforce

lemma reads_one_err: "get n s = (Inl e, s') \<Longrightarrow> reads get s [] s'"
  using reads_err[OF _ reads_nil] by fastforce

locale byte_source =
  fixes get :: "nat \<Rightarrow> 's \<Rightarrow> ('e + 'b list) \<times> 's"
    and to_come :: "'s \<Rightarrow> 'b list"
    and fuel :: "'s \<Rightarrow> nat"
  assumes get_bytes: "get n s = (Inr xs, s') \<Longrightarrow> to_come s = xs @ to_come s' \<and> length xs \<le> n"
    and get_eof: "get n s = (Inr [], s') \<Longrightarrow> 0 < n \<Longrightarrow> to_come s = []"
    and get_error: "get n s = (Inl e, s') \<Longrightarrow> to_come s' = to_come s \<and> fuel s' < fuel s"
    and get_progress: "get n s = (Inr xs, s') \<Longrightarrow> xs \<noteq> [] \<Longrightarrow> fuel s' < fuel s"
begin

lemma reads_prefix: "reads get s xs s' \<Longrightarrow> to_come s = xs @ to_come s'"
  by (induction rule: reads.induct) (use get_bytes get_error in fastforce)+

text \<open>Reading until the end of the file delivers everything, however it was cut up.\<close>

lemma reads_to_eof:
  assumes "reads get s xs s'" and "get n s' = (Inr [], s'')" and "0 < n"
  shows "xs = to_come s"
  using reads_prefix[OF assms(1)] get_eof[OF assms(2,3)] by simp

lemma get_chunk:
  assumes "get n s = (Inr xs, s')"
  shows "xs = take (length xs) (to_come s)" and "to_come s' = drop (length xs) (to_come s)"
  using get_bytes[OF assms] by simp_all

end

interpretation fd: byte_source sys_read pending budget
proof
  fix n s xs s' assume "sys_read n s = (Inr xs, s')"
  then show "pending s = xs @ pending s' \<and> length xs \<le> n"
    by (auto simp: sys_read_def Let_def split: list.splits answer.splits)
next
  fix n s s' assume "sys_read n s = (Inr [], s')" "0 < n"
  then show "pending s = []"
    by (auto simp: sys_read_def Let_def split: list.splits answer.splits)
next
  fix n s e s' assume "sys_read n s = (Inl e, s')"
  then show "pending s' = pending s \<and> budget s' < budget s"
    by (auto simp: sys_read_def budget_def Let_def split: list.splits answer.splits)
next
  fix n s xs s' assume "sys_read n s = (Inr xs, s')" "xs \<noteq> []"
  then show "budget s' < budget s"
    by (auto simp: sys_read_def budget_def Let_def split: list.splits answer.splits)
qed

end
