(* ===== verification/PipeSend.thy ===== *)
theory PipeSend
  imports ByteStream
begin

text \<open>
  \<open>src/fork/pipe-send/main.c\<close>: \<open>ensure_write\<close>, which repeats short writes, and the copying loop that
  the parent runs from its standard input into a pipe and the child from the pipe to the standard
  output.  The pipe is a byte source for the child whose bytes are those the parent's writes
  accepted.  What \<open>check_result\<close> prints stays in the buffer of \<open>stdout\<close> until the process exits; in the parent that
  buffer is then flushed into the pipe.
\<close>

subsection \<open>Code\<close>

function ensure_write :: "byte list \<Rightarrow> sink \<Rightarrow> int \<times> sink" where
  "ensure_write data out =
     (if data = [] then (0, out)
      else case sys_write data out of
          (Inl e, out) \<Rightarrow> (-1, out)
        | (Inr res, out) \<Rightarrow> ensure_write (drop res data) out)"
  by pat_completeness auto
termination
proof (relation "measure (\<lambda>(data, out). length data + length (replies out))", goal_cases)
  case (2 data out r s res)
  then show ?case
    using sys_write_replies[of data out r s] sys_write_all[of data out res s]
    by (cases "replies out") auto
qed simp

declare ensure_write.simps [simp del]

function copy_loop :: "source \<Rightarrow> sink \<Rightarrow> source \<times> sink" where
  "copy_loop inp out =
     (case sys_read 1024 inp of
        (Inl e, inp) \<Rightarrow> (inp, out)
      | (Inr buf, inp) \<Rightarrow>
          if buf = [] then (inp, out)
          else case ensure_write buf out of
              (r, out) \<Rightarrow> if r < 0 then (inp, out) else copy_loop inp out)"
  by pat_completeness auto
termination
  by (relation "measure (\<lambda>(inp, out). budget inp)") (auto dest!: fd.get_progress [OF sym])

declare copy_loop.simps [simp del]

text \<open>What \<open>check_result\<close> adds to the buffer; \<open>strerror_errno\<close> is the text of \<open>strerror(errno)\<close>.\<close>

definition check_result :: "int \<Rightarrow> string \<Rightarrow> byte list \<Rightarrow> byte list" where
  "check_result flag msg strerror_errno =
     (if flag = 0 then map of_char (msg @ '' error: '') @ strerror_errno @ [10] else [])"

text \<open>\<open>STDIN_FILENO\<close> and \<open>STDOUT_FILENO\<close>; \<open>dup2\<close> returns its second argument.\<close>

abbreviation "STDIN_FILENO \<equiv> 0 :: int"
abbreviation "STDOUT_FILENO \<equiv> 1 :: int"

text \<open>
  A process from the line after its redirection to its exit: the loop and the flush of the buffer, which repeats short
  writes as \<open>ensure_write\<close> does.
\<close>

definition copy_and_exit :: "byte list \<Rightarrow> source \<Rightarrow> sink \<Rightarrow> sink" where
  "copy_and_exit stdio inp out = (let (inp, out) = copy_loop inp out in snd (ensure_write stdio out))"

text \<open>
  The parent and then the child, whose reads are cut up as \<open>pipe_answers\<close> says.  When \<open>fork\<close> fails the program goes on as
  the parent of a pipe that it has closed for reading, and is killed by the first write into it.
\<close>

definition pipe_send_main ::
  "bool \<Rightarrow> byte list \<Rightarrow> source \<Rightarrow> answer list \<Rightarrow> answer list \<Rightarrow> answer list \<Rightarrow> byte list" where
  "pipe_send_main forked strerror_errno stdin pipe_replies pipe_answers stdout_replies =
     (if \<not> forked then []
      else let pipe = copy_and_exit (check_result (STDOUT_FILENO - 1) ''dup2'' strerror_errno) stdin
                        \<lparr>accepted = [], replies = pipe_replies\<rparr>;
               stdout = copy_and_exit (check_result (STDIN_FILENO - 1) ''dup2'' strerror_errno)
                        \<lparr>pending = accepted pipe, answers = pipe_answers\<rparr> \<lparr>accepted = [], replies = stdout_replies\<rparr>
           in accepted stdout)"

subsection \<open>Correctness\<close>

definition no_errors :: "answer list \<Rightarrow> bool" where
  "no_errors as \<longleftrightarrow> (\<forall>a \<in> set as. \<forall>e. a \<noteq> Err e)"

lemma no_errors_tl: "no_errors as \<Longrightarrow> no_errors (tl as)"
  by (cases as) (auto simp: no_errors_def)

lemma ensure_write_prefix:
  "ensure_write data out = (r, out') \<Longrightarrow>
     \<exists>n. accepted out' = accepted out @ take n data \<and> (0 \<le> r \<longrightarrow> length data \<le> n) \<and> (r = 0 \<or> r = -1)"
proof (induction data out arbitrary: r out' rule: ensure_write.induct)
  case (1 data out)
  show ?case
  proof (cases "data = []")
    case True
    then show ?thesis using 1(2) by (simp add: ensure_write.simps)
  next
    case False
    obtain q out1 where w: "sys_write data out = (q, out1)" by (cases "sys_write data out")
    show ?thesis
    proof (cases q)
      case (Inl e)
      then show ?thesis
        using 1(2) False w sys_write_accepted[OF w]
        by (auto simp: ensure_write.simps[of data] intro: exI[of _ 0])
    next
      case (Inr k)
      then have "ensure_write (drop k data) out1 = (r, out')"
        using 1(2) False w by (simp add: ensure_write.simps[of data])
      then obtain n where n: "accepted out' = accepted out1 @ take n (drop k data)"
        "0 \<le> r \<longrightarrow> length (drop k data) \<le> n" "r = 0 \<or> r = -1"
        using 1(1)[OF False w[symmetric] Inr] by blast
      have "accepted out1 = accepted out @ take k data"
        using sys_write_accepted[OF w] Inr by simp
      then have "accepted out' = accepted out @ take (k + n) data" using n(1) by (simp add: take_add)
      then show ?thesis using n(2,3) by (intro exI[of _ "k + n"]) auto
    qed
  qed
qed

lemma ensure_write_ok:
  "no_errors (replies out) \<Longrightarrow>
     \<exists>out'. ensure_write data out = (0, out') \<and> no_errors (replies out') \<and> accepted out' = accepted out @ data"
proof (induction data out rule: ensure_write.induct)
  case (1 data out)
  show ?case
  proof (cases "data = []")
    case False
    obtain q out1 where w: "sys_write data out = (q, out1)" by (cases "sys_write data out")
    have ok: "no_errors (replies out1)" using sys_write_replies[OF w] 1(2) no_errors_tl by metis
    obtain k where k: "q = Inr k"
      using sys_write_accepted[OF w] 1(2) by (cases q) (auto simp: no_errors_def)
    obtain out' where "ensure_write (drop k data) out1 = (0, out')" "no_errors (replies out')"
      "accepted out' = accepted out1 @ drop k data"
      using 1(1)[OF False w[symmetric] k ok] by blast
    moreover have "accepted out1 = accepted out @ take k data"
      using sys_write_accepted[OF w] k by simp
    ultimately show ?thesis using False w k by (simp add: ensure_write.simps[of data])
  qed (use 1(2) in \<open>simp add: ensure_write.simps\<close>)
qed

text \<open>Whatever the kernel answers, the loop passes on a prefix of what it read.\<close>

lemma copy_loop_prefix:
  "copy_loop inp out = (inp', out') \<Longrightarrow>
     \<exists>xs n. reads sys_read inp xs inp' \<and> accepted out' = accepted out @ take n xs"
proof (induction inp out arbitrary: inp' out' rule: copy_loop.induct)
  case (1 inp out)
  obtain r inp1 where rd: "sys_read 1024 inp = (r, inp1)" by (cases "sys_read 1024 inp")
  show ?case
  proof (cases r)
    case (Inl e)
    then show ?thesis
      using 1(2) rd reads_one_err[of sys_read 1024 inp e inp1] by (auto simp: copy_loop.simps[of inp])
  next
    case (Inr buf)
    have got: "reads sys_read inp buf inp1" using rd Inr reads_one by metis
    obtain q out1 where w: "ensure_write buf out = (q, out1)" by (cases "ensure_write buf out")
    obtain n where n: "accepted out1 = accepted out @ take n buf" "0 \<le> q \<longrightarrow> length buf \<le> n"
      using ensure_write_prefix[OF w] by blast
    show ?thesis
    proof (cases "buf = [] \<or> q < 0")
      case True
      then have "inp' = inp1" "accepted out' = accepted out @ take n buf"
        using 1(2) rd Inr w n(1) by (auto simp: copy_loop.simps[of inp] split: if_splits)
      then show ?thesis using got by blast
    next
      case False
      then have "copy_loop inp1 out1 = (inp', out')"
        using 1(2) rd Inr w by (simp add: copy_loop.simps[of inp])
      then obtain xs m where xs: "reads sys_read inp1 xs inp'" "accepted out' = accepted out1 @ take m xs"
        using 1(1)[OF rd[symmetric] Inr _ w[symmetric]] False by blast
      have "accepted out1 = accepted out @ buf" using n False by simp
      then have "accepted out' = accepted out @ take (length buf + m) (buf @ xs)" using xs(2) by simp
      then show ?thesis using reads_trans[OF got xs(1)] by blast
    qed
  qed
qed

lemma copy_loop_ok:
  "no_errors (answers inp) \<Longrightarrow> no_errors (replies out) \<Longrightarrow>
     accepted (snd (copy_loop inp out)) = accepted out @ pending inp \<and> no_errors (replies (snd (copy_loop inp out)))"
proof (induction inp out rule: copy_loop.induct)
  case (1 inp out)
  obtain r inp1 where rd: "sys_read 1024 inp = (r, inp1)" by (cases "sys_read 1024 inp")
  obtain buf where buf: "r = Inr buf"
    using rd 1(2) sys_read_error[of 1024 inp _ inp1] by (cases r) (auto simp: no_errors_def)
  have ok: "no_errors (answers inp1)" using sys_read_answers[OF rd] 1(2) no_errors_tl by metis
  obtain out1 where w: "ensure_write buf out = (0, out1)" "no_errors (replies out1)"
    "accepted out1 = accepted out @ buf"
    using ensure_write_ok[OF 1(3)] by blast
  have split: "pending inp = buf @ pending inp1" using fd.get_bytes rd buf by blast
  show ?case
  proof (cases "buf = []")
    case True
    then have "pending inp = []" using fd.get_eof[of 1024 inp inp1] rd buf by simp
    then show ?thesis using True rd buf 1(3) by (simp add: copy_loop.simps[of inp])
  next
    case False
    then have "accepted (snd (copy_loop inp1 out1)) = accepted out1 @ pending inp1 \<and>
        no_errors (replies (snd (copy_loop inp1 out1)))"
      using 1(1)[OF rd[symmetric] buf False w(1)[symmetric] _ ok w(2)] by simp
    then show ?thesis using False rd buf w split by (simp add: copy_loop.simps[of inp])
  qed
qed

lemma copy_and_exit_ok:
  assumes "no_errors (answers inp)" and "no_errors (replies out)"
  shows "accepted (copy_and_exit stdio inp out) = accepted out @ pending inp @ stdio"
proof -
  obtain inp1 out1 where c: "copy_loop inp out = (inp1, out1)" by (cases "copy_loop inp out")
  then have ok: "accepted out1 = accepted out @ pending inp" "no_errors (replies out1)"
    using copy_loop_ok[OF assms] by simp_all
  from ensure_write_ok[OF ok(2), of stdio] show ?thesis using c ok(1) by (auto simp: copy_and_exit_def)
qed

text \<open>
  C25. The bytes pass both processes unchanged and complete, however the kernel cuts up the reads and
  writes, as long as no call fails.  Behind them comes a message of the parent: its \<open>check_result\<close> gets 0 when \<open>dup2\<close>
  succeeds, so it reports an error, and the pipe is its standard output by then.
\<close>
theorem pipe_send_copies:
  assumes "no_errors (answers stdin)" "no_errors pr" "no_errors pa" "no_errors so"
  shows "pipe_send_main True err stdin pr pa so = pending stdin @ map of_char ''dup2 error: '' @ err @ [10]"
  using assms by (simp add: pipe_send_main_def copy_and_exit_ok check_result_def)

theorem pipe_send_copies_witness:
  "pipe_send_main True (map of_char ''Success'') \<lparr>pending = [1, 2, 3, 4, 5], answers = [Short 1, Short 0]\<rparr>
       [Short 0, Short 1] [Short 2] [Short 3] =
     [1, 2, 3, 4, 5] @ map of_char ''dup2 error: Success'' @ [10]"
  by (rule trans[OF pipe_send_copies]) (simp_all add: no_errors_def)

text \<open>
  Whatever fails, \<open>copy_loop\<close> returns, and what it wrote is a prefix of what was to be read:
  nothing is reordered, repeated or invented.  (An interrupted read ends the loop silently.)
\<close>
theorem copy_loop_sound:
  "\<exists>n. accepted (snd (copy_loop inp out)) = accepted out @ take n (pending inp)"
proof -
  obtain inp' out' where c: "copy_loop inp out = (inp', out')" by (cases "copy_loop inp out")
  obtain xs n where xs: "reads sys_read inp xs inp'" "accepted out' = accepted out @ take n xs"
    using copy_loop_prefix[OF c] by blast
  have "take n xs = take (min n (length xs)) (pending inp)"
    using fd.reads_prefix[OF xs(1)] by (simp add: min_def)
  then show ?thesis using xs(2) c by auto
qed

end
