(* ===== verification/ReadAll.thy ===== *)
theory ReadAll
  imports ByteStream
begin

text \<open>
  \<open>src/readall/main.c\<close>: reading a whole file into one \<open>malloc\<close>ed block, sized by seeking to the
  end.  The file may be read in pieces, with interruptions and errors, and may have changed since
  its size was taken; the theorems cover all of that.
\<close>

subsection \<open>Code\<close>

text \<open>The results of the calls that precede the reading: None and -1 are failures.\<close>

record file_env =
  open_result :: "source option"
  end_offset :: int
  seek_set_ok :: bool
  malloc_result :: "nat \<Rightarrow> byte list option"  \<comment> \<open>a block of so many bytes, with any contents\<close>

record FileContent =
  data :: "byte list option"
  file_size :: int

text \<open>The loop of lines 36 to 49: the block, and whether \<open>res\<close> still holds.\<close>

function read_loop :: "byte list \<Rightarrow> nat \<Rightarrow> nat \<Rightarrow> source \<Rightarrow> c_error + (byte list \<times> bool)" where
  "read_loop block sz offset f =
     (if offset < sz
      then case sys_read (sz - offset) f of
          (Inl e, f) \<Rightarrow> if e = EINTR then read_loop block sz offset f else Inr (block, False)
        | (Inr r, f) \<Rightarrow>
            if r = [] then Inr (block, False)
            else (case mem_write block offset r of
                Inl err \<Rightarrow> Inl err
              | Inr block \<Rightarrow> read_loop block sz (offset + length r) f)
      else Inr (block, True))"
  by pat_completeness auto
termination
  by (relation "measure (\<lambda>(block, sz, offset, f). budget f)")
    (auto dest!: fd.get_progress [OF sym] fd.get_error [OF sym])

declare read_loop.simps [simp del]

definition read_all :: "file_env \<Rightarrow> c_error + FileContent" where
  "read_all env =
     (case open_result env of
        None \<Rightarrow> Inr \<lparr>data = None, file_size = -1\<rparr>
      | Some f \<Rightarrow>
          if end_offset env = -1 \<or> \<not> seek_set_ok env then Inr \<lparr>data = None, file_size = -1\<rparr>
          else case malloc_result env (nat (end_offset env) + 1) of
              None \<Rightarrow> Inr \<lparr>data = None, file_size = -1\<rparr>
            | Some block \<Rightarrow>
                bindE (read_loop block (nat (end_offset env)) 0 f) (\<lambda>(block, res).
                bindE (mem_write block (nat (end_offset env)) [0]) (\<lambda>block.
                  Inr (if res then \<lparr>data = Some block, file_size = end_offset env\<rparr>
                       else \<lparr>data = None, file_size = -1\<rparr>))))"

text \<open>\<open>printf("%s")\<close> of a block: the bytes before the first NUL, which must be in the block.\<close>

definition print_string :: "byte list \<Rightarrow> c_error + byte list" where
  "print_string m = (if 0 \<in> set m then Inr (takeWhile (\<lambda>c. c \<noteq> 0) m) else Inl OutOfBounds)"

text \<open>The standard output (None: the error message) and the exit code.\<close>

definition read_all_main :: "file_env \<Rightarrow> c_error + (byte list option \<times> int)" where
  "read_all_main env = bindE (read_all env) (\<lambda>d. case data d of
       Some m \<Rightarrow> bindE (print_string m) (\<lambda>s. Inr (Some s, 0))
     | None \<Rightarrow> Inr (None, -1))"

subsection \<open>The loop\<close>

text \<open>
  What the loop leaves from offset \<open>offset\<close> on: the bytes read so far follow the old ones, and they are
  as many as asked for unless the file ended early or a read failed.
\<close>

definition filled :: "byte list \<Rightarrow> nat \<Rightarrow> nat \<Rightarrow> source \<Rightarrow> byte list \<Rightarrow> bool \<Rightarrow> bool" where
  "filled block sz offset f block' res \<longleftrightarrow> length block' = length block \<and>
     (\<exists>xs f'. reads sys_read f xs f' \<and> offset + length xs \<le> sz \<and>
        take (offset + length xs) block' = take offset block @ xs \<and>
        (if res then offset + length xs = sz
         else pending f' = [] \<and> offset + length xs < sz \<or> (\<exists>e. Err e \<in> set (answers f) \<and> e \<noteq> EINTR)))"

lemma filled_retry:
  assumes "sys_read n f = (Inl e, f1)" and "filled block sz offset f1 b' res"
  shows "filled block sz offset f b' res"
proof -
  obtain xs f' where *: "reads sys_read f1 xs f'" "offset + length xs \<le> sz" "length b' = length block"
      "take (offset + length xs) b' = take offset block @ xs"
      "if res then offset + length xs = sz
       else pending f' = [] \<and> offset + length xs < sz \<or> (\<exists>e. Err e \<in> set (answers f1) \<and> e \<noteq> EINTR)"
    using assms(2) unfolding filled_def by blast
  have r: "reads sys_read f xs f'" by (rule reads_err[OF assms(1) *(1)])
  have "set (answers f1) \<subseteq> set (answers f)" using sys_read_error[OF assms(1)] by auto
  then have "if res then offset + length xs = sz
       else pending f' = [] \<and> offset + length xs < sz \<or> (\<exists>e. Err e \<in> set (answers f) \<and> e \<noteq> EINTR)"
    using *(5) by (auto split: if_splits)
  then show ?thesis using r *(2-4) unfolding filled_def by blast
qed

lemma filled_more:
  assumes "sys_read n f = (Inr xs, f1)" and "offset + length xs \<le> sz" and "sz < length block"
    and "filled (take offset block @ xs @ drop (offset + length xs) block) sz (offset + length xs) f1 b' res"
  shows "filled block sz offset f b' res"
proof -
  obtain ys f' where *: "reads sys_read f1 ys f'" "offset + length xs + length ys \<le> sz"
      "length b' = length (take offset block @ xs @ drop (offset + length xs) block)"
      "take (offset + length xs + length ys) b' =
         take (offset + length xs) (take offset block @ xs @ drop (offset + length xs) block) @ ys"
      "if res then offset + length xs + length ys = sz
       else pending f' = [] \<and> offset + length xs + length ys < sz \<or> (\<exists>e. Err e \<in> set (answers f1) \<and> e \<noteq> EINTR)"
    using assms(4) unfolding filled_def by blast
  have r: "reads sys_read f (xs @ ys) f'" by (rule reads_got[OF assms(1) *(1)])
  have "set (answers f1) \<subseteq> set (answers f)"
    using sys_read_answers[OF assms(1)] by (cases "answers f") auto
  then have "if res then offset + length (xs @ ys) = sz
       else pending f' = [] \<and> offset + length (xs @ ys) < sz \<or> (\<exists>e. Err e \<in> set (answers f) \<and> e \<noteq> EINTR)"
    using *(5) by (auto simp: add.assoc split: if_splits)
  moreover have "take (offset + length (xs @ ys)) b' = take offset block @ xs @ ys"
    using *(4) assms(2,3) by (simp add: add.assoc)
  moreover have "length b' = length block" "offset + length (xs @ ys) \<le> sz"
    using *(2,3) assms(2,3) by simp_all
  ultimately show ?thesis using r unfolding filled_def by (intro conjI exI[of _ "xs @ ys"] exI[of _ f']) simp_all
qed

lemma filled_nothing:
  assumes "offset \<le> sz"
    and "if res then offset = sz else pending f = [] \<and> offset < sz \<or> (\<exists>e. Err e \<in> set (answers f) \<and> e \<noteq> EINTR)"
  shows "filled block sz offset f block res"
  unfolding filled_def using assms reads_nil[of sys_read f]
  by (intro conjI exI[of _ "[]"] exI[of _ f]) simp_all

lemma read_loop_result:
  assumes "sz < length block" and "offset \<le> sz"
  shows "\<exists>block' res. read_loop block sz offset f = Inr (block', res) \<and> filled block sz offset f block' res"
  using assms
proof (induction block sz offset f rule: read_loop.induct)
  case (1 block sz offset f)
  note unfold = read_loop.simps[of block sz offset f]
  show ?case
  proof (cases "offset < sz")
    case False
    then have "read_loop block sz offset f = Inr (block, True)" by (simp add: unfold)
    moreover have "filled block sz offset f block True"
      using False 1(4) by (intro filled_nothing) simp_all
    ultimately show ?thesis by blast
  next
    case True
    obtain r f1 where rd: "sys_read (sz - offset) f = (r, f1)" by (cases "sys_read (sz - offset) f")
    consider (intr) "r = Inl EINTR" | (err) e where "r = Inl e" "e \<noteq> EINTR" | (eof) "r = Inr []"
      | (got) xs where "r = Inr xs" "xs \<noteq> []" by (cases r) auto
    then show ?thesis
    proof cases
      case intr
      have "read_loop block sz offset f = read_loop block sz offset f1"
        using True rd intr by (simp add: unfold)
      then show ?thesis
        using 1(1)[OF True rd[symmetric] intr refl 1(3,4)] filled_retry[of "sz - offset" f EINTR f1] rd intr
        by fastforce
    next
      case err
      then have "Err e \<in> set (answers f)" using sys_read_error[of "sz - offset" f e f1] rd by simp
      then have "filled block sz offset f block False"
        using err(2) by (intro filled_nothing[OF 1(4)]) auto
      moreover have "read_loop block sz offset f = Inr (block, False)"
        using True rd err by (simp add: unfold)
      ultimately show ?thesis by blast
    next
      case eof
      have "pending f = []" using fd.get_eof[of "sz - offset" f f1] rd eof True by simp
      then have "filled block sz offset f block False"
        using True by (intro filled_nothing[OF 1(4)]) simp
      moreover have "read_loop block sz offset f = Inr (block, False)"
        using True rd eof by (simp add: unfold)
      ultimately show ?thesis by blast
    next
      case got
      have len: "length xs \<le> sz - offset" using fd.get_bytes[of "sz - offset" f xs f1] rd got by simp
      let ?b = "take offset block @ xs @ drop (offset + length xs) block"
      have w: "mem_write block offset xs = Inr ?b" using len 1(3) True by (intro mem_write_Inr) simp
      have eq: "read_loop block sz offset f = read_loop ?b sz (offset + length xs) f1"
        using True rd got w by (simp add: unfold)
      have le: "sz < length ?b" "offset + length xs \<le> sz" using len 1(3,4) by simp_all
      obtain b' res where "read_loop ?b sz (offset + length xs) f1 = Inr (b', res)"
        "filled ?b sz (offset + length xs) f1 b' res"
        using 1(2)[OF True rd[symmetric] got w le] by blast
      then show ?thesis
        using eq filled_more[of "sz - offset" f xs f1] rd got(1) le(2) 1(3) by auto
    qed
  qed
qed

subsection \<open>Properties\<close>

text \<open>What the library asks of \<open>malloc\<close>: a block has the size that was asked for.\<close>

definition malloc_sized :: "file_env \<Rightarrow> bool" where
  "malloc_sized env \<longleftrightarrow> (\<forall>n b. malloc_result env n = Some b \<longrightarrow> length b = n)"

lemma read_all_result:
  assumes "malloc_sized env" and "open_result env = Some f" and "0 \<le> end_offset env" and "seek_set_ok env"
    and "malloc_result env (nat (end_offset env) + 1) = Some block"
  shows "read_all env = Inr \<lparr>data = Some (take (nat (end_offset env)) (pending f) @ [0]), file_size = end_offset env\<rparr> \<and>
       nat (end_offset env) \<le> length (pending f) \<or>
     read_all env = Inr \<lparr>data = None, file_size = -1\<rparr> \<and>
       (length (pending f) < nat (end_offset env) \<or> (\<exists>e. Err e \<in> set (answers f) \<and> e \<noteq> EINTR))"
proof -
  let ?n = "nat (end_offset env)"
  have len: "length block = Suc ?n" using assms(1,5) by (auto simp: malloc_sized_def)
  obtain b' res where l: "read_loop block ?n 0 f = Inr (b', res)" and fl: "filled block ?n 0 f b' res"
    using read_loop_result[of ?n block 0 f] len by auto
  obtain xs f' where l2: "length b' = length block" "reads sys_read f xs f'" "length xs \<le> ?n"
    "take (length xs) b' = xs"
    "if res then length xs = ?n
     else pending f' = [] \<and> length xs < ?n \<or> (\<exists>e. Err e \<in> set (answers f) \<and> e \<noteq> EINTR)"
    using fl unfolding filled_def add_0 take_0 append_Nil by blast
  have pre: "pending f = xs @ pending f'" by (rule fd.reads_prefix[OF l2(2)])
  have "drop (Suc ?n) b' = []" using l2(1) len by simp
  then have "mem_write b' ?n [0] = Inr (take ?n b' @ [0])" using l2(1) len by simp
  then have "read_all env = Inr (if res then \<lparr>data = Some (take ?n b' @ [0]), file_size = end_offset env\<rparr>
      else \<lparr>data = None, file_size = -1\<rparr>)"
    using assms l by (simp add: read_all_def)
  then show ?thesis using l2(3-5) pre by (cases res) auto
qed

text \<open>
  C24. Memory safety and exactness: whatever the sizes, the answers and the errors, \<open>read_all\<close>
  writes inside its block only, and it returns either the file's first \<open>end_offset\<close> bytes followed by
  a NUL, or NULL and -1.
\<close>
theorem read_all_exact:
  assumes "malloc_sized env" and "-1 \<le> end_offset env"
  shows "read_all env = Inr \<lparr>data = None, file_size = -1\<rparr> \<or>
    (\<exists>f. open_result env = Some f \<and> nat (end_offset env) \<le> length (pending f) \<and>
       read_all env = Inr \<lparr>data = Some (take (nat (end_offset env)) (pending f) @ [0]), file_size = end_offset env\<rparr>)"
proof (cases "open_result env")
  case None
  then show ?thesis by (simp add: read_all_def)
next
  case (Some f)
  show ?thesis
  proof (cases "end_offset env = -1 \<or> \<not> seek_set_ok env \<or> malloc_result env (nat (end_offset env) + 1) = None")
    case True
    then show ?thesis using Some by (auto simp: read_all_def)
  next
    case False
    then show ?thesis using read_all_result[OF assms(1) Some] assms(2) Some by fastforce
  qed
qed

definition demo_env :: file_env where
  "demo_env = \<lparr>open_result = Some \<lparr>pending = [104, 105, 33], answers = [Err EINTR, Short 0]\<rparr>,
     end_offset = 3, seek_set_ok = True, malloc_result = (\<lambda>n. Some (replicate n 7))\<rparr>"

lemma demo_env_sized: "malloc_sized demo_env"
  by (simp add: malloc_sized_def demo_env_def)

theorem read_all_exact_witness:
  "read_all demo_env = Inr \<lparr>data = None, file_size = -1\<rparr> \<or>
    (\<exists>f. open_result demo_env = Some f \<and> nat (end_offset demo_env) \<le> length (pending f) \<and>
       read_all demo_env = Inr \<lparr>data = Some (take (nat (end_offset demo_env)) (pending f) @ [0]),
         file_size = end_offset demo_env\<rparr>)"
  by (rule read_all_exact) (simp_all add: demo_env_sized, simp add: demo_env_def)

text \<open>
  The program prints a text file of unchanged size exactly and returns 0 whenever the file can be
  opened, sought and allocated for, and the only failing reads are interrupted ones.
\<close>
theorem read_all_main_prints:
  assumes "malloc_sized env" and "open_result env = Some f" and "end_offset env = int (length (pending f))"
    and "seek_set_ok env" and "malloc_result env (length (pending f) + 1) \<noteq> None"
    and "\<forall>e. Err e \<in> set (answers f) \<longrightarrow> e = EINTR" and "0 \<notin> set (pending f)"
  shows "read_all_main env = Inr (Some (pending f), 0)"
proof -
  obtain block where "malloc_result env (nat (end_offset env) + 1) = Some block"
    using assms(3,5) by auto
  then have "read_all env = Inr \<lparr>data = Some (pending f @ [0]), file_size = end_offset env\<rparr>"
    using read_all_result[OF assms(1,2) _ assms(4)] assms(3,6) by auto
  moreover have "takeWhile (\<lambda>c. c \<noteq> 0) (pending f @ [0]) = pending f"
    using assms(7) by (subst takeWhile_append2) auto
  ultimately show ?thesis by (simp add: read_all_main_def print_string_def)
qed

theorem read_all_main_prints_witness: "read_all_main demo_env = Inr (Some [104, 105, 33], 0)"
  using read_all_main_prints[OF demo_env_sized] by (simp add: demo_env_def)

end
