(* ===== verification/BufRead.thy ===== *)
theory BufRead
  imports ByteStream
begin

text \<open>
  \<open>src/bufread/main.c\<close>: the buffered character reader over the raw \<open>read\<close> system call.  The system
  calls (inline assembly) are \<open>sys_read\<close> and \<open>sys_write\<close> with the kernel's convention that a failure
  is the negated error number.  The abstract view of a reader is the list of the characters that
  are still to come, in the buffer and in the file.
\<close>

subsection \<open>Code\<close>

definition BUF_SIZE :: nat where "BUF_SIZE = 4096"

record FileReadState =
  buf :: "byte list"
  bufsize :: nat
  lc :: int
  read_offset :: nat
  fill :: nat  \<comment> \<open>the field \<open>size\<close>\<close>

text \<open>\<open>stin_state\<close>, whose buffer is static and so zeroed.\<close>

definition stin :: FileReadState where
  "stin = \<lparr>buf = replicate BUF_SIZE 0, bufsize = BUF_SIZE, lc = -1, read_offset = 0, fill = 0\<rparr>"

primrec errno_code :: "errno \<Rightarrow> int" where
  "errno_code EINTR = 4" | "errno_code EIO = 5" | "errno_code EAGAIN = 11" | "errno_code EPIPE = 32" | "errno_code EBADF = 9"

text \<open>The return value, the buffer and the descriptor.\<close>

definition read_call :: "source \<Rightarrow> byte list \<Rightarrow> nat \<Rightarrow> c_error + (int \<times> byte list \<times> source)" where
  "read_call fd b n = (case sys_read n fd of
       (Inl e, fd) \<Rightarrow> Inr (- errno_code e, b, fd)
     | (Inr xs, fd) \<Rightarrow> bindE (mem_write b 0 xs) (\<lambda>b. Inr (int (length xs), b, fd)))"

definition lastchar :: "FileReadState \<Rightarrow> int" where
  "lastchar st = lc st"

definition nextchar_from_buffer :: "FileReadState \<Rightarrow> c_error + (int \<times> FileReadState)" where
  "nextchar_from_buffer st =
     (if read_offset st < fill st
      then if read_offset st < length (buf st)
           then let st = st\<lparr>lc := uint (buf st ! read_offset st), read_offset := read_offset st + 1\<rparr>
                in Inr (lastchar st, st)
           else Inl OutOfBounds
      else Inr (-1, st))"

definition nextchar :: "FileReadState \<Rightarrow> source \<Rightarrow> c_error + (int \<times> FileReadState \<times> source)" where
  "nextchar st fd =
     bindE (nextchar_from_buffer st) (\<lambda>(res, st).
       if res \<noteq> -1 then Inr (res, st, fd)
       else
         let st = st\<lparr>read_offset := 0, fill := 0\<rparr>
         in bindE (read_call fd (buf st) (bufsize st)) (\<lambda>(res, b, fd).
              let st = st\<lparr>buf := b\<rparr>
              in if res \<le> 0 then Inr (-1, st\<lparr>lc := -1\<rparr>, fd)
                 else bindE (nextchar_from_buffer (st\<lparr>fill := nat res\<rparr>)) (\<lambda>(r, st). Inr (r, st, fd))))"

text \<open>\<open>_start\<close>: copies one character; the exit code and the standard output.\<close>

definition start :: "source \<Rightarrow> sink \<Rightarrow> c_error + (int \<times> sink)" where
  "start fd out =
     bindE (nextchar stin fd) (\<lambda>(ch, st, fd).
       if ch = -1 then Inr (-1, out)
       else Inr (0, snd (sys_write [word_of_int ch] out)))"

text \<open>A client: \<open>n\<close> calls and their results.\<close>

fun read_chars :: "nat \<Rightarrow> FileReadState \<Rightarrow> source \<Rightarrow> c_error + int list" where
  "read_chars 0 st fd = Inr []"
| "read_chars (Suc n) st fd =
     bindE (nextchar st fd) (\<lambda>(ch, st, fd). bindE (read_chars n st fd) (\<lambda>chs. Inr (ch # chs)))"

subsection \<open>Invariant and abstraction\<close>

definition reader_ok :: "FileReadState \<Rightarrow> bool" where
  "reader_ok st \<longleftrightarrow> length (buf st) = bufsize st \<and> 0 < bufsize st \<and> read_offset st \<le> fill st \<and> fill st \<le> bufsize st"

definition unread :: "FileReadState \<Rightarrow> source \<Rightarrow> byte list" where
  "unread st fd = drop (read_offset st) (take (fill st) (buf st)) @ pending fd"

lemma reader_ok_stin: "reader_ok stin"
  by (simp add: reader_ok_def stin_def BUF_SIZE_def)

lemma unread_stin: "unread stin fd = pending fd"
  by (simp add: unread_def stin_def)

lemma from_buffer_some:
  assumes "reader_ok st" and "read_offset st < fill st"
  shows "\<exists>c st'. nextchar_from_buffer st = Inr (uint c, st') \<and> reader_ok st' \<and> lc st' = uint c \<and>
           unread st fd = c # unread st' fd"
proof -
  let ?c = "buf st ! read_offset st"
  let ?s = "st\<lparr>lc := uint ?c, read_offset := read_offset st + 1\<rparr>"
  have "drop (read_offset st) (take (fill st) (buf st)) = ?c # drop (Suc (read_offset st)) (take (fill st) (buf st))"
    using assms by (subst Cons_nth_drop_Suc [symmetric]) (simp_all add: reader_ok_def)
  moreover have "nextchar_from_buffer st = Inr (uint ?c, ?s)" "reader_ok ?s"
    using assms by (simp_all add: reader_ok_def nextchar_from_buffer_def lastchar_def Let_def)
  ultimately show ?thesis by (intro exI[of _ ?c] exI[of _ ?s]) (simp add: unread_def)
qed

lemma uint_not_minus1: "uint (c :: byte) \<noteq> -1"
  using uint_ge_0[of c] by linarith

text \<open>The outcomes of one call.\<close>

lemma nextchar_result:
  assumes "reader_ok st"
  shows "\<exists>ch st' fd'. nextchar st fd = Inr (ch, st', fd') \<and> reader_ok st' \<and> lc st' = ch \<and>
    (if ch = -1 then unread st' fd' = unread st fd \<and> (unread st fd = [] \<or> (\<exists>e. Err e \<in> set (answers fd)))
     else \<exists>c. ch = uint c \<and> unread st fd = c # unread st' fd') \<and> set (answers fd') \<subseteq> set (answers fd)"
proof (cases "read_offset st < fill st")
  case True
  obtain c st' where "nextchar_from_buffer st = Inr (uint c, st')" "reader_ok st'" "lc st' = uint c"
      "unread st fd = c # unread st' fd"
    using from_buffer_some[OF assms True] by blast
  then show ?thesis by (simp add: nextchar_def uint_not_minus1)
next
  case False
  then have empty: "nextchar_from_buffer st = Inr (-1, st)" "unread st fd = pending fd"
    by (simp_all add: nextchar_from_buffer_def unread_def)
  obtain r fd1 where rd: "sys_read (bufsize st) fd = (r, fd1)" by (cases "sys_read (bufsize st) fd")
  have ans: "set (answers fd1) \<subseteq> set (answers fd)"
    using sys_read_answers[OF rd] by (cases "answers fd") auto
  show ?thesis
  proof (cases r)
    case (Inl e)
    have "Err e \<in> set (answers fd)" using sys_read_error[of "bufsize st" fd e fd1] rd Inl by simp
    moreover have "pending fd1 = pending fd" using fd.get_error rd Inl by blast
    moreover have "- errno_code e \<le> 0" by (cases e) simp_all
    ultimately show ?thesis
      using empty rd Inl assms ans
      by (auto simp: nextchar_def read_call_def Let_def reader_ok_def unread_def)
  next
    case (Inr xs)
    have xs: "pending fd = xs @ pending fd1" "length xs \<le> bufsize st"
      using fd.get_bytes[of "bufsize st" fd xs fd1] rd Inr by simp_all
    let ?b = "xs @ drop (length xs) (buf st)"
    have w: "mem_write (buf st) 0 xs = Inr ?b"
      using xs(2) assms by (simp add: reader_ok_def)
    show ?thesis
    proof (cases "xs = []")
      case True
      have "pending fd = []"
        using fd.get_eof[of "bufsize st" fd fd1] rd Inr True assms by (simp add: reader_ok_def)
      then show ?thesis
        using empty rd Inr assms ans w True xs
        by (simp add: nextchar_def read_call_def Let_def reader_ok_def unread_def)
    next
      case False
      let ?s = "st\<lparr>read_offset := 0, buf := ?b, fill := length xs\<rparr>"
      have ok: "reader_ok ?s" using assms xs(2) by (simp add: reader_ok_def)
      have un: "unread ?s fd1 = unread st fd" using empty(2) xs(1) by (simp add: unread_def)
      obtain c st' where c: "nextchar_from_buffer ?s = Inr (uint c, st')" "reader_ok st'" "lc st' = uint c"
          "unread ?s fd1 = c # unread st' fd1"
        using from_buffer_some[OF ok, of fd1] False by auto
      have "nextchar st fd = Inr (uint c, st', fd1)"
        using empty(1) rd Inr w False c(1) by (simp add: nextchar_def read_call_def Let_def)
      then show ?thesis using c un ans by (auto simp: uint_not_minus1)
    qed
  qed
qed

subsection \<open>Properties\<close>

text \<open>
  C18. Refinement: \<open>nextchar\<close> never leaves the buffer and takes the head off the list of characters
  to come; when it returns -1 nothing is lost, and the list was empty or a read failed.
\<close>
theorem nextchar_refines_stream:
  assumes "reader_ok st"
  shows "\<exists>ch st' fd'. nextchar st fd = Inr (ch, st', fd') \<and> reader_ok st' \<and> lastchar st' = ch \<and>
    (case unread st fd of
       [] \<Rightarrow> ch = -1 \<and> unread st' fd' = []
     | c # cs \<Rightarrow> ch = uint c \<and> unread st' fd' = cs \<or>
         ch = -1 \<and> unread st' fd' = c # cs \<and> (\<exists>e. Err e \<in> set (answers fd)))"
proof -
  obtain ch st' fd' where n: "nextchar st fd = Inr (ch, st', fd')" "reader_ok st'" "lc st' = ch"
    "if ch = -1 then unread st' fd' = unread st fd \<and> (unread st fd = [] \<or> (\<exists>e. Err e \<in> set (answers fd)))
     else \<exists>c. ch = uint c \<and> unread st fd = c # unread st' fd'"
    using nextchar_result[OF assms, of fd] by blast
  show ?thesis
    by (rule exI[of _ ch], rule exI[of _ st'], rule exI[of _ fd'])
      (use n in \<open>auto simp: lastchar_def split: list.splits if_splits\<close>)
qed

theorem nextchar_refines_stream_witness:
  "\<exists>ch st' fd'. nextchar stin \<lparr>pending = [65], answers = []\<rparr> = Inr (ch, st', fd') \<and> reader_ok st' \<and>
     lastchar st' = ch \<and> ch = 65 \<and> unread st' fd' = []"
  using nextchar_refines_stream[OF reader_ok_stin, of "\<lparr>pending = [65], answers = []\<rparr>"]
  by (simp add: unread_stin)

lemma read_chars_result:
  assumes "reader_ok st" and "\<forall>e. Err e \<notin> set (answers fd)"
  shows "read_chars (length (unread st fd) + 1) st fd = Inr (map uint (unread st fd) @ [-1])"
  using assms
proof (induction "unread st fd" arbitrary: st fd)
  case Nil
  then show ?case
    using nextchar_result[OF Nil(2), of fd] by (auto simp: split: if_splits)
next
  case (Cons c cs)
  obtain ch st' fd' where n: "nextchar st fd = Inr (ch, st', fd')" "reader_ok st'"
    "if ch = -1 then unread st' fd' = unread st fd \<and> (unread st fd = [] \<or> (\<exists>e. Err e \<in> set (answers fd)))
     else \<exists>c. ch = uint c \<and> unread st fd = c # unread st' fd'" "set (answers fd') \<subseteq> set (answers fd)"
    using nextchar_result[OF Cons(3), of fd] by blast
  then have st': "ch = uint c" "unread st' fd' = cs" "\<forall>e. Err e \<notin> set (answers fd')"
    using Cons(2)[symmetric] Cons(4) by (auto split: if_splits)
  then show ?case using Cons(1)[OF st'(2)[symmetric] n(2) st'(3)] n(1) Cons(2)[symmetric] by simp
qed

text \<open>
  Reading from the initial state yields exactly the characters of the file as unsigned values,
  in order, and then -1, for a file of any length and reads of any size, if no read fails.
\<close>
theorem read_chars_whole_file:
  assumes "\<forall>e. Err e \<notin> set (answers fd)"
  shows "read_chars (length (pending fd) + 1) stin fd = Inr (map uint (pending fd) @ [-1])"
  using read_chars_result[OF reader_ok_stin assms] by (simp add: unread_stin)

theorem read_chars_whole_file_witness:
  "read_chars (length [72, 255, 0 :: byte] + 1) stin \<lparr>pending = [72, 255, 0], answers = [Short 0, Short 1]\<rparr> = Inr [72, 255, 0, -1]"
  using read_chars_whole_file[of "\<lparr>pending = [72, 255, 0], answers = [Short 0, Short 1]\<rparr>"]
  by (simp del: read_chars.simps)

end
