(* ===== verification/Memory.thy ===== *)
theory Memory
  imports Prelude
begin

text \<open>
  What the growing buffers rely on in \<open>malloc\<close>, \<open>realloc\<close> and \<open>free\<close>: a pointer is NULL, a live block
  with its bytes, or the address of a freed block.  The allocator is a parameter: the contents of a
  fresh block for each size, or None for a refusal.  The locale \<open>append_buffer\<close> is the contract
  of a buffer that grows at its end; \<open>Vector\<close> and \<open>RunBuffer\<close> meet it.
\<close>

datatype block = Null | Live "byte list" | Freed

type_synonym allocator = "nat \<Rightarrow> byte list option"

definition malloc :: "allocator \<Rightarrow> nat \<Rightarrow> block" where
  "malloc alloc n = (case alloc n of None \<Rightarrow> Null | Some b \<Rightarrow> Live b)"

text \<open>\<open>realloc\<close> keeps the common part of the old block.\<close>

definition realloc :: "allocator \<Rightarrow> block \<Rightarrow> nat \<Rightarrow> c_error + block" where
  "realloc alloc p n = (case p of
       Freed \<Rightarrow> Inl InvalidFree
     | Null \<Rightarrow> Inr (malloc alloc n)
     | Live b \<Rightarrow> (case alloc n of None \<Rightarrow> Inr Null | Some b' \<Rightarrow> Inr (Live (take n b @ drop (length b) b'))))"

definition free :: "block \<Rightarrow> c_error + block" where
  "free p = (case p of Null \<Rightarrow> Inr Null | Live b \<Rightarrow> Inr Freed | Freed \<Rightarrow> Inl InvalidFree)"

text \<open>\<open>memcpy\<close> to a pointer plus an offset.\<close>

definition block_write :: "block \<Rightarrow> nat \<Rightarrow> byte list \<Rightarrow> c_error + block" where
  "block_write p off xs = (case p of
       Null \<Rightarrow> Inl NullDeref
     | Freed \<Rightarrow> Inl OutOfBounds
     | Live b \<Rightarrow> bindE (mem_write b off xs) (\<lambda>b. Inr (Live b)))"

text \<open>
  What is known of an allocator: a block it returns has the size asked for.  Any request may be refused, which
  \<open>refuses alloc k\<close> says of some request of at most \<open>k\<close> bytes.
\<close>

definition sized :: "allocator \<Rightarrow> bool" where
  "sized alloc \<longleftrightarrow> (\<forall>n b. alloc n = Some b \<longrightarrow> length b = n)"

definition refuses :: "allocator \<Rightarrow> nat \<Rightarrow> bool" where
  "refuses alloc k \<longleftrightarrow> (\<exists>n \<le> k. alloc n = None)"

lemma refuses_mono: "k \<le> k' \<Longrightarrow> refuses alloc k \<Longrightarrow> refuses alloc k'"
  by (auto simp: refuses_def intro: le_trans)

lemma refuses_at: "alloc n = None \<Longrightarrow> n \<le> k \<Longrightarrow> refuses alloc k"
  by (auto simp: refuses_def)

lemma malloc_sized:
  assumes "sized alloc"
  shows "(\<exists>b. malloc alloc n = Live b \<and> length b = n) \<or> malloc alloc n = Null \<and> alloc n = None"
  using assms by (cases "alloc n") (auto simp: malloc_def sized_def)

lemma realloc_sized:
  assumes "sized alloc" and "length b \<le> n"
  shows "(\<exists>b'. realloc alloc (Live b) n = Inr (Live (b @ b')) \<and> length (b @ b') = n) \<or>
    realloc alloc (Live b) n = Inr Null \<and> alloc n = None"
proof (cases "alloc n")
  case (Some b1)
  then have "length b1 = n" using assms(1) by (simp add: sized_def)
  then show ?thesis using Some assms(2) by (intro disjI1 exI[of _ "drop (length b) b1"]) (simp add: realloc_def)
qed (simp add: realloc_def)

lemma block_write_at:
  "off + length xs \<le> length b \<Longrightarrow>
     block_write (Live b) off xs = Inr (Live (take off b @ xs @ drop (off + length xs) b))"
  by (simp add: block_write_def)

subsection \<open>The contract of an appending buffer\<close>

fun append_all :: "('s \<Rightarrow> 'b list \<Rightarrow> c_error + 's) \<Rightarrow> 's \<Rightarrow> 'b list list \<Rightarrow> c_error + 's" where
  "append_all put s [] = Inr s"
| "append_all put s (xs # xss) = bindE (put s xs) (\<lambda>s. append_all put s xss)"

text \<open>
  The first \<open>bound\<close> elements fit into any buffer that meets the contract, as long as the memory for them is not refused;
  the code does not look at a NULL from the allocator before it stores through it.
\<close>

locale append_buffer =
  fixes put :: "'s \<Rightarrow> 'b list \<Rightarrow> c_error + 's"
    and contents :: "'s \<Rightarrow> 'b list"
    and ok :: "'s \<Rightarrow> bool"
    and chunk :: "'b list \<Rightarrow> bool"
    and bound :: nat
    and refused :: "nat \<Rightarrow> bool"
  assumes append_ok: "ok s \<Longrightarrow> chunk xs \<Longrightarrow> length (contents s) + length xs \<le> bound \<Longrightarrow>
      (\<exists>s'. put s xs = Inr s' \<and> ok s' \<and> contents s' = contents s @ xs) \<or>
      put s xs = Inl NullDeref \<and> refused (length (contents s) + length xs)"
    and refused_mono: "k \<le> k' \<Longrightarrow> refused k \<Longrightarrow> refused k'"
begin

lemma append_all_ok:
  "ok s \<Longrightarrow> \<forall>xs \<in> set xss. chunk xs \<Longrightarrow> length (contents s) + length (concat xss) \<le> bound \<Longrightarrow>
     (\<exists>s'. append_all put s xss = Inr s' \<and> ok s' \<and> contents s' = contents s @ concat xss) \<or>
     append_all put s xss = Inl NullDeref \<and> refused (length (contents s) + length (concat xss))"
proof (induction xss arbitrary: s)
  case (Cons xs xss)
  consider s1 where "put s xs = Inr s1" "ok s1" "contents s1 = contents s @ xs"
    | "put s xs = Inl NullDeref" "refused (length (contents s) + length xs)"
    using append_ok[of s xs] Cons.prems by auto
  then show ?case
  proof cases
    case 1
    then show ?thesis using Cons.IH[of s1] Cons.prems by (auto simp: add.assoc)
  next
    case 2
    have "refused (length (contents s) + length (concat (xs # xss)))" by (rule refused_mono[OF _ 2(2)]) simp
    then show ?thesis using 2(1) by simp
  qed
qed simp

lemma append_unique: "ok s \<Longrightarrow> chunk xs \<Longrightarrow> length (contents s) + length xs \<le> bound \<Longrightarrow> put s xs = Inr s' \<Longrightarrow>
   ok s' \<and> contents s' = contents s @ xs"
  using append_ok[of s xs] by auto

end

end
