(* ===== verification/Vector.thy ===== *)
theory Vector
  imports Memory
begin

text \<open>
  The growing vector of \<open>src/sample2/main.c\<close>: the struct with its \<open>size_t\<close> fields as 64-bit words
  (products and shifts wrap), \<open>reserve\<close>, \<open>push_back\<close> and \<open>clear_vector\<close>, with the allocator's failures
  unchecked as in the code.
\<close>

record vector =
  vsize :: size_t
  capacity :: size_t
  element_size :: size_t
  memory :: block

definition make_vector :: "size_t \<Rightarrow> vector" where
  "make_vector es = \<lparr>vsize = 0, capacity = 0, element_size = es, memory = Null\<rparr>"

definition reserve :: "allocator \<Rightarrow> vector \<Rightarrow> size_t \<Rightarrow> c_error + vector" where
  "reserve alloc v cap =
     (let cap = (if cap < 1 then 1 else cap)
      in if cap \<le> capacity v then Inr v
      else bindE (if memory v = Null then Inr (malloc alloc (unat (cap * element_size v)))
                  else realloc alloc (memory v) (unat (cap * element_size v)))
             (\<lambda>p. Inr (v\<lparr>memory := p, capacity := cap\<rparr>)))"

text \<open>The offset from \<open>memory\<close>.\<close>

definition get_ith :: "vector \<Rightarrow> size_t \<Rightarrow> nat" where
  "get_ith v i = unat (element_size v * i)"

definition push_back :: "allocator \<Rightarrow> vector \<Rightarrow> byte list \<Rightarrow> c_error + vector" where
  "push_back alloc v element =
     bindE (if vsize v = capacity v then reserve alloc v (push_bit 1 (capacity v)) else Inr v) (\<lambda>v.
     bindE (mem_read element 0 (unat (element_size v))) (\<lambda>xs.
     bindE (block_write (memory v) (get_ith v (vsize v)) xs) (\<lambda>p.
       Inr (v\<lparr>memory := p, vsize := vsize v + 1\<rparr>))))"

definition clear_vector :: "vector \<Rightarrow> c_error + vector" where
  "clear_vector v =
     (if memory v \<noteq> Null
      then bindE (free (memory v)) (\<lambda>p. Inr (v\<lparr>memory := p, capacity := 0, vsize := 0\<rparr>))
      else Inr v)"

text \<open>Reading the \<open>i\<close>th element through \<open>get_ith\<close>.\<close>

definition read_ith :: "vector \<Rightarrow> size_t \<Rightarrow> c_error + byte list" where
  "read_ith v i = (case memory v of Live b \<Rightarrow> mem_read b (get_ith v i) (unat (element_size v))
     | Null \<Rightarrow> Inl NullDeref | Freed \<Rightarrow> Inl OutOfBounds)"

subsection \<open>Invariant\<close>

definition vec_ok :: "allocator \<Rightarrow> size_t \<Rightarrow> vector \<Rightarrow> bool" where
  "vec_ok alloc es v \<longleftrightarrow> sized alloc \<and> 0 < es \<and> element_size v = es \<and> vsize v \<le> capacity v \<and>
     (case memory v of Null \<Rightarrow> capacity v = 0 | Freed \<Rightarrow> False
      | Live b \<Rightarrow> length b = unat (capacity v) * unat es \<and> 0 < capacity v)"

definition vec_contents :: "vector \<Rightarrow> byte list" where
  "vec_contents v = (case memory v of Live b \<Rightarrow> take (unat (vsize v) * unat (element_size v)) b | _ \<Rightarrow> [])"

lemma vec_ok_make: "sized alloc \<Longrightarrow> 0 < es \<Longrightarrow> vec_ok alloc es (make_vector es)"
  by (simp add: vec_ok_def make_vector_def)

lemma vec_contents_make: "vec_contents (make_vector es) = []"
  by (simp add: vec_contents_def make_vector_def)

lemma length_vec_contents:
  assumes "vec_ok alloc es v"
  shows "length (vec_contents v) = unat (vsize v) * unat es"
proof (cases "memory v")
  case Null
  then have "vsize v \<le> 0" using assms by (auto simp: vec_ok_def)
  then show ?thesis using Null by (simp add: vec_contents_def word_le_nat_alt)
next
  case (Live b)
  then have "unat (vsize v) * unat es \<le> length b"
    using assms by (auto simp: vec_ok_def word_le_nat_alt)
  then show ?thesis using Live assms by (simp add: vec_contents_def vec_ok_def)
qed (use assms in \<open>simp add: vec_ok_def\<close>)

text \<open>What \<open>reserve\<close> does for \<open>push_back\<close>: room for one more element, the contents kept, or a NULL in \<open>memory\<close>.\<close>

lemma reserve_grows:
  assumes ok: "vec_ok alloc es v" and full: "vsize v = capacity v"
    and room: "length (vec_contents v) + unat es \<le> 2 ^ 62"
  shows "(\<exists>v' b. reserve alloc v (push_bit 1 (capacity v)) = Inr v' \<and> vec_ok alloc es v' \<and> memory v' = Live b \<and>
      vsize v' = vsize v \<and> vsize v' < capacity v' \<and> vec_contents v' = vec_contents v) \<or>
    (\<exists>v'. reserve alloc v (push_bit 1 (capacity v)) = Inr v' \<and> element_size v' = es \<and> memory v' = Null) \<and>
      refuses alloc (2 * (length (vec_contents v) + unat es))"
proof -
  let ?s = "unat (vsize v)"
  have es: "1 \<le> unat es" using ok by (simp add: vec_ok_def Suc_le_eq unat_gt_0 word_neq_0_conv)
  have bytes: "?s * unat es + unat es \<le> 2 ^ 62" using room length_vec_contents[OF ok] by simp
  have sv: "?s \<le> 2 ^ 62"
  proof -
    have "?s * 1 \<le> ?s * unat es" by (rule mult_le_mono2[OF es])
    with bytes show ?thesis by linarith
  qed
  define cap where "cap = (if push_bit 1 (capacity v) < 1 then 1 else push_bit 1 (capacity v) :: size_t)"
  have dbl: "unat (push_bit 1 (capacity v)) = 2 * ?s"
    using sv full by (simp add: unat_word_ariths push_bit_eq_mult unat_mult_lem[of 2] del: push_bit_of_Suc_0)
  have cap: "unat cap = (if ?s = 0 then 1 else 2 * ?s)"
    using dbl by (auto simp: cap_def word_less_nat_alt)
  have le: "unat cap * unat es \<le> 2 * (length (vec_contents v) + unat es)"
    using cap length_vec_contents[OF ok] by (cases "?s = 0") simp_all
  have prod: "unat (cap * es) = unat cap * unat es"
  proof -
    have "2 * (length (vec_contents v) + unat es) \<le> 2 * 2 ^ 62" using room by (rule mult_le_mono2)
    moreover have "2 * (2 :: nat) ^ 62 < 2 ^ LENGTH(64)" by simp
    ultimately have "unat cap * unat es < 2 ^ LENGTH(64)" using le by linarith
    then show "unat (cap * es) = unat cap * unat es" using unat_mult_lem[of cap es] by blast
  qed
  have bigger: "\<not> cap \<le> capacity v" "vsize v < cap"
    using cap full by (auto simp: word_le_nat_alt word_less_nat_alt split: if_splits)
  have sz: "sized alloc" and esz: "element_size v = es" using ok by (simp_all add: vec_ok_def)
  show ?thesis
  proof (cases "memory v")
    case Null
    have s0: "vsize v = 0" using ok full Null by (simp add: vec_ok_def)
    let ?v = "\<lambda>p. v\<lparr>memory := p, capacity := cap\<rparr>"
    have run: "reserve alloc v (push_bit 1 (capacity v)) = Inr (?v (malloc alloc (unat cap * unat es)))"
      using bigger(1) Null esz prod unfolding reserve_def cap_def[symmetric] Let_def by simp
    from malloc_sized[OF sz, of "unat cap * unat es"] show ?thesis
    proof (elim disjE exE conjE)
      fix b assume b: "malloc alloc (unat cap * unat es) = Live b" "length b = unat cap * unat es"
      have "vec_ok alloc es (?v (Live b))" using ok b(2) bigger(2) s0 by (simp add: vec_ok_def)
      moreover have "vec_contents (?v (Live b)) = vec_contents v" using s0 Null by (simp add: vec_contents_def)
      ultimately show ?thesis using bigger(2) run b by (intro disjI1 exI[of _ "?v (Live b)"] exI[of _ b]) simp
    next
      assume "malloc alloc (unat cap * unat es) = Null" "alloc (unat cap * unat es) = None"
      then show ?thesis using run esz refuses_at[of alloc "unat cap * unat es", OF _ le] by (intro disjI2) simp
    qed
  next
    case (Live b)
    have lb: "length b = ?s * unat es" using ok full Live by (simp add: vec_ok_def)
    have "length b \<le> unat cap * unat es" using lb cap by auto
    from realloc_sized[OF sz this] show ?thesis
    proof (elim disjE exE conjE)
      fix b' assume b': "realloc alloc (Live b) (unat cap * unat es) = Inr (Live (b @ b'))"
        "length (b @ b') = unat cap * unat es"
      let ?v = "v\<lparr>memory := Live (b @ b'), capacity := cap\<rparr>"
      have "reserve alloc v (push_bit 1 (capacity v)) = Inr ?v"
        using bigger(1) Live b'(1) esz prod unfolding reserve_def cap_def[symmetric] Let_def by simp
      moreover have "vec_ok alloc es ?v"
        using ok b'(2) bigger(2) by (auto simp: vec_ok_def word_neq_0_conv[symmetric])
      moreover have "vec_contents ?v = vec_contents v" using Live lb esz by (simp add: vec_contents_def)
      ultimately show ?thesis using bigger(2) by (intro disjI1 exI[of _ ?v] exI[of _ "b @ b'"]) simp
    next
      assume none: "realloc alloc (Live b) (unat cap * unat es) = Inr Null" "alloc (unat cap * unat es) = None"
      let ?v = "v\<lparr>memory := Null, capacity := cap\<rparr>"
      have "reserve alloc v (push_bit 1 (capacity v)) = Inr ?v"
        using bigger(1) Live none(1) esz prod unfolding reserve_def cap_def[symmetric] Let_def by simp
      then show ?thesis using esz refuses_at[of alloc "unat cap * unat es", OF none(2) le] by (intro disjI2) simp
    qed
  qed (use ok in \<open>simp add: vec_ok_def\<close>)
qed

text \<open>The store of an element into a block with room for it.\<close>

lemma push_into:
  assumes w: "(if vsize v = capacity v then reserve alloc v (push_bit 1 (capacity v)) else Inr v) = Inr w"
      "vec_ok alloc es w" "memory w = Live b" "vsize w < capacity w" "vec_contents w = vec_contents v"
    and xs: "length xs = unat es" and room: "length (vec_contents v) + length xs \<le> 2 ^ 62"
  shows "\<exists>v'. push_back alloc v xs = Inr v' \<and> vec_ok alloc es v' \<and> vec_contents v' = vec_contents v @ xs"
proof -
  let ?s = "unat (vsize w)"
  have lb: "length b = unat (capacity w) * unat es" and esz: "element_size w = es"
    using w(2,3) by (simp_all add: vec_ok_def)
  have "Suc ?s \<le> unat (capacity w)" using w(4) by (simp add: word_less_nat_alt)
  then have fit: "?s * unat es + unat es \<le> length b"
    using lb mult_le_mono1[of "Suc ?s" "unat (capacity w)" "unat es"] by (simp add: add.commute)
  have lc: "length (vec_contents w) = ?s * unat es" by (rule length_vec_contents[OF w(2)])
  have "?s * unat es < 2 ^ LENGTH(64)" using lc room w(5) by simp
  then have off: "get_ith w (vsize w) = ?s * unat es"
    using unat_mult_lem[of es "vsize w"] by (simp add: get_ith_def esz mult.commute)
  have sS: "unat (vsize w + 1) = Suc ?s"
    using w(4) unat_less_2p[of "capacity w"] by (simp add: word_less_nat_alt unat_add_fits)
  let ?b = "take (?s * unat es) b @ xs @ drop (?s * unat es + length xs) b"
  let ?v = "w\<lparr>memory := Live ?b, vsize := vsize w + 1\<rparr>"
  have "push_back alloc v xs = Inr ?v"
    using w(1,3) off fit xs by (simp add: push_back_def esz block_write_at)
  moreover have "vec_ok alloc es ?v"
    using w(2-4) sS fit xs lb by (auto simp: vec_ok_def word_le_nat_alt word_less_nat_alt)
  moreover have "vec_contents ?v = vec_contents v @ xs"
  proof -
    have "take (Suc ?s * unat es) ?b = take (?s * unat es) b @ xs"
      using fit xs by (simp add: add.commute)
    then have "vec_contents ?v = vec_contents w @ xs"
      using w(3) esz sS by (simp only: vec_contents_def) simp
    then show ?thesis using w(5) by simp
  qed
  ultimately show ?thesis by blast
qed

lemma push_back_appends:
  assumes ok: "vec_ok alloc es v" and xs: "length xs = unat es"
    and room: "length (vec_contents v) + length xs \<le> 2 ^ 62"
  shows "(\<exists>v'. push_back alloc v xs = Inr v' \<and> vec_ok alloc es v' \<and> vec_contents v' = vec_contents v @ xs) \<or>
    push_back alloc v xs = Inl NullDeref \<and> refuses alloc (2 * (length (vec_contents v) + length xs))"
proof -
  consider w where "vsize v = capacity v" "reserve alloc v (push_bit 1 (capacity v)) = Inr w" "element_size w = es"
      "memory w = Null" "refuses alloc (2 * (length (vec_contents v) + length xs))"
    | w b where "(if vsize v = capacity v then reserve alloc v (push_bit 1 (capacity v)) else Inr v) = Inr w"
      "vec_ok alloc es w" "memory w = Live b" "vsize w < capacity w" "vec_contents w = vec_contents v"
  proof (cases "vsize v = capacity v")
    case True
    then show ?thesis using reserve_grows[OF ok True] room xs that by auto
  next
    case False
    then have "vsize v < capacity v" using ok by (auto simp: vec_ok_def)
    moreover from this obtain b where "memory v = Live b"
      using ok by (cases "memory v") (auto simp: vec_ok_def)
    ultimately show ?thesis using False that ok by simp
  qed
  then show ?thesis
  proof cases
    case 1
    then show ?thesis using xs by (simp add: push_back_def block_write_def)
  next
    case w: (2 w b)
    show ?thesis by (rule disjI1) (rule push_into[OF w xs room])
  qed
qed
interpretation vec: append_buffer "push_back alloc" vec_contents "vec_ok alloc es"
    "\<lambda>xs. length xs = unat es" "2 ^ 62" "\<lambda>k. refuses alloc (2 * k)" for alloc es
proof unfold_locales
  fix k k' assume "k \<le> k'" and "refuses alloc (2 * k)"
  then show "refuses alloc (2 * k')" by (intro refuses_mono[of "2 * k" "2 * k'"]) simp_all
qed (rule push_back_appends)

subsection \<open>Properties\<close>

lemma read_ith_contents:
  assumes ok: "vec_ok alloc es v" and room: "length (vec_contents v) \<le> 2 ^ 62" and i: "unat i < unat (vsize v)"
  shows "read_ith v i = Inr (take (unat es) (drop (unat i * unat es) (vec_contents v)))"
proof -
  have "0 < capacity v" using ok i by (auto simp: vec_ok_def word_le_nat_alt word_less_nat_alt)
  then obtain b where b: "memory v = Live b" "length b = unat (capacity v) * unat es" and es: "element_size v = es"
    using ok by (auto simp: vec_ok_def split: block.splits)
  have below: "Suc (unat i) * unat es \<le> unat (vsize v) * unat es"
    using i by (intro mult_le_mono1) simp
  have cap: "unat (vsize v) * unat es \<le> length b"
    using ok b(2) by (auto simp: vec_ok_def word_le_nat_alt)
  have "unat i * unat es < 2 ^ LENGTH(64)"
    using below length_vec_contents[OF ok] room by simp
  then have off: "get_ith v i = unat i * unat es"
    using unat_mult_lem[of es i] by (simp add: get_ith_def es mult.commute)
  have le: "unat i * unat es + unat es \<le> unat (vsize v) * unat es" using below by simp
  then have "mem_read b (unat i * unat es) (unat es) = Inr (take (unat es) (drop (unat i * unat es) b))"
    using cap by (intro mem_read_Inr) (rule le_trans)
  moreover have "unat es \<le> unat (vsize v) * unat es - unat i * unat es" using le by linarith
  ultimately show ?thesis
    using b(1) es off by (simp add: read_ith_def vec_contents_def drop_take min_absorb1)
qed

lemma take_drop_concat:
  assumes "\<forall>xs \<in> set xss. length xs = n" and "i < length xss"
  shows "take n (drop (i * n) (concat xss)) = xss ! i"
  using assms
proof (induction xss arbitrary: i)
  case (Cons xs xss)
  then show ?case by (cases i) auto
qed simp

lemma vsize_append_all:
  assumes "append_all (push_back alloc) v xss = Inr w" and "\<forall>xs \<in> set xss. length xs = unat es"
    and "vec_ok alloc es v" and "length (vec_contents v) + length (concat xss) \<le> 2 ^ 62"
  shows "unat (vsize w) = unat (vsize v) + length xss"
proof -
  have w: "vec_ok alloc es w" "vec_contents w = vec_contents v @ concat xss"
    using vec.append_all_ok[OF assms(3,2,4)] assms(1) by auto
  have "length (concat xss) = length xss * unat es"
    using assms(2) by (induction xss) auto
  then have "unat (vsize w) * unat es = (unat (vsize v) + length xss) * unat es"
    using length_vec_contents[OF w(1)] length_vec_contents[OF assms(3)] w(2) by (simp add: add_mult_distrib)
  moreover have "0 < unat es" using assms(3) by (simp add: vec_ok_def unat_gt_0 word_neq_0_conv)
  ultimately show ?thesis by simp
qed

lemma append_all_reads:
  assumes ok: "vec_ok alloc es (make_vector es)" and xss: "\<forall>xs \<in> set xss. length xs = unat es" "length (concat xss) \<le> 2 ^ 62"
    and v: "append_all (push_back alloc) (make_vector es) xss = Inr v" "vec_ok alloc es v" "vec_contents v = concat xss"
  shows "unat (vsize v) = length xss \<and> (\<forall>i < length xss. read_ith v (of_nat i) = Inr (xss ! i))"
proof -
  have sz: "unat (vsize v) = length xss"
    using vsize_append_all[OF v(1) xss(1) ok] xss(2)
    unfolding vec_contents_make by (simp add: make_vector_def)
  have "read_ith v (of_nat i) = Inr (xss ! i)" if i: "i < length xss" for i
  proof -
    have "unat (of_nat i :: size_t) = i"
      using i sz unat_less_2p[of "vsize v"] by (intro unat_of_nat_fits) simp
    then show ?thesis
      using read_ith_contents[OF v(2), of "of_nat i"] v(3) sz i xss(2) take_drop_concat[OF xss(1) i] by simp
  qed
  then show ?thesis using sz by blast
qed

text \<open>
  C12. Pushing any elements onto a fresh vector, at most \<open>2 ^ 62\<close> bytes in all, never writes outside
  its memory: either \<open>get_ith\<close> finds every element at its index afterwards, or the allocator has refused a request of at most
  twice the bytes pushed and the program stores through the NULL that it returned, which \<open>reserve\<close> does not look at.
\<close>
theorem push_back_get_ith:
  assumes "sized alloc" and "0 < es" and "\<forall>xs \<in> set xss. length xs = unat es"
    and "length (concat xss) \<le> 2 ^ 62"
  shows "(\<exists>v. append_all (push_back alloc) (make_vector es) xss = Inr v \<and> unat (vsize v) = length xss \<and>
           (\<forall>i < length xss. read_ith v (of_nat i) = Inr (xss ! i))) \<or>
    append_all (push_back alloc) (make_vector es) xss = Inl NullDeref \<and>
      (\<exists>n \<le> 2 * length (concat xss). alloc n = None)"
proof -
  note ok = vec_ok_make[OF assms(1,2)]
  have "(\<exists>v. append_all (push_back alloc) (make_vector es) xss = Inr v \<and> vec_ok alloc es v \<and> vec_contents v = concat xss) \<or>
      append_all (push_back alloc) (make_vector es) xss = Inl NullDeref \<and> refuses alloc (2 * length (concat xss))"
    using vec.append_all_ok[OF ok assms(3)] assms(4) by (simp add: vec_contents_make)
  then show ?thesis using append_all_reads[OF ok assms(3,4)] unfolding refuses_def by blast
qed

definition roomy :: allocator where
  "roomy n = Some (replicate n 0)"

lemma roomy_sized: "sized roomy"
  by (simp add: sized_def roomy_def)

theorem push_back_get_ith_witness:
  "\<exists>v. append_all (push_back roomy) (make_vector 4) (replicate 3 [97, 98, 99, 0]) = Inr v \<and>
     read_ith v 2 = Inr [97, 98, 99, 0]"
proof -
  have "(\<exists>v. append_all (push_back roomy) (make_vector 4) (replicate 3 [97, 98, 99, 0]) = Inr v \<and>
     unat (vsize v) = length (replicate 3 [97, 98, 99, 0 :: byte]) \<and>
     (\<forall>i < length (replicate 3 [97, 98, 99, 0 :: byte]). read_ith v (of_nat i) = Inr (replicate 3 [97, 98, 99, 0] ! i))) \<or>
     append_all (push_back roomy) (make_vector 4) (replicate 3 [97, 98, 99, 0]) = Inl NullDeref \<and>
     (\<exists>n \<le> 2 * length (concat (replicate 3 [97, 98, 99, 0 :: byte])). roomy n = None)"
    by (rule push_back_get_ith) (simp_all add: roomy_sized length_concat sum_list_replicate)
  then obtain v where v: "append_all (push_back roomy) (make_vector 4) (replicate 3 [97, 98, 99, 0]) = Inr v"
    "\<forall>i < 3. read_ith v (of_nat i) = Inr (replicate 3 [97, 98, 99, 0] ! i)" by (auto simp: roomy_def)
  have "read_ith v (of_nat 2) = Inr (replicate 3 [97, 98, 99, 0] ! 2)" using spec[OF v(2), of 2] by simp
  then show ?thesis using v(1) by auto
qed

text \<open>
  \<open>clear_vector\<close> leaves \<open>memory\<close> dangling: after it, the next \<open>push_back\<close> passes the freed address
  to \<open>realloc\<close>, and a second \<open>clear_vector\<close> frees it again.
\<close>
theorem clear_vector_dangles:
  assumes "memory v = Live b"
  shows "\<exists>w. clear_vector v = Inr w \<and> push_back alloc w xs = Inl InvalidFree \<and> clear_vector w = Inl InvalidFree"
  using assms by (simp add: clear_vector_def free_def push_back_def reserve_def realloc_def Let_def)

theorem clear_vector_dangles_witness:
  "\<exists>w. clear_vector \<lparr>vsize = 0, capacity = 1, element_size = 4, memory = Live [0, 0, 0, 0]\<rparr> = Inr w \<and>
     push_back roomy w [1, 2, 3, 4] = Inl InvalidFree \<and> clear_vector w = Inl InvalidFree"
  by (rule clear_vector_dangles) simp

text \<open>
  \<open>malloc_big\<close>, which \<open>main\<close> calls: a gigabyte is allocated and filled with the number read, the result of \<open>malloc\<close>
  unchecked; then it loops for ever, so only the memory is left to describe.
\<close>

definition malloc_big :: "allocator \<Rightarrow> byte \<Rightarrow> c_error + block" where
  "malloc_big alloc x = block_write (malloc alloc (2 ^ 30)) 0 (replicate (2 ^ 30) x)"

lemma malloc_big_fills:
  "malloc_big alloc x = (case alloc (2 ^ 30) of None \<Rightarrow> Inl NullDeref
     | Some b \<Rightarrow> if 2 ^ 30 \<le> length b then Inr (Live (replicate (2 ^ 30) x @ drop (2 ^ 30) b)) else Inl OutOfBounds)"
  unfolding malloc_big_def malloc_def block_write_def mem_write_def
  by (auto split: option.split simp del: power_numeral)

text \<open>
  The rest of \<open>main\<close>, behind its \<open>return\<close>: three copies of \<open>"abc"\<close> are pushed, the last is printed, and the vector
  is cleared.
\<close>

definition vector_demo :: "allocator \<Rightarrow> c_error + byte list \<times> vector" where
  "vector_demo alloc =
     bindE (append_all (push_back alloc) (make_vector 4) (replicate 3 [97, 98, 99, 0])) (\<lambda>v.
     bindE (read_ith v 2) (\<lambda>s.
     bindE (clear_vector v) (\<lambda>v. Inr (takeWhile (\<lambda>c. c \<noteq> 0) s, v))))"

lemma vector_demo_prints:
  assumes "sized alloc"
  shows "(\<exists>v. vector_demo alloc = Inr ([97, 98, 99], v) \<and> memory v = Freed \<and> vsize v = 0) \<or>
    vector_demo alloc = Inl NullDeref \<and> refuses alloc 24"
proof -
  let ?xss = "replicate 3 [97, 98, 99, 0 :: byte]"
  have ok: "vec_ok alloc 4 (make_vector 4)" by (rule vec_ok_make[OF assms]) simp
  have len: "\<forall>xs \<in> set ?xss. length xs = unat (4 :: size_t)" and c: "length (concat ?xss) = 12"
    by (simp_all add: length_concat sum_list_replicate)
  have c62: "length (concat ?xss) \<le> 2 ^ 62" unfolding c by simp
  consider v where "append_all (push_back alloc) (make_vector 4) ?xss = Inr v" "vec_ok alloc 4 v" "vec_contents v = concat ?xss"
    | "append_all (push_back alloc) (make_vector 4) ?xss = Inl NullDeref" "refuses alloc 24"
    using vec.append_all_ok[OF ok len] c by (auto simp: vec_contents_make)
  then show ?thesis
  proof cases
    case (1 v)
    have "\<forall>i < length ?xss. read_ith v (of_nat i) = Inr (?xss ! i)" using append_all_reads[OF ok len c62 1] by blast
    from spec[OF this, of 2] have "read_ith v (of_nat 2) = Inr (?xss ! 2)" by simp
    then have r: "read_ith v 2 = Inr [97, 98, 99, 0]" by simp
    obtain b where "memory v = Live b" using 1(2,3) c by (cases "memory v") (auto simp: vec_contents_def)
    then have "clear_vector v = Inr (v\<lparr>memory := Freed, capacity := 0, vsize := 0\<rparr>)" by (simp add: clear_vector_def free_def)
    then show ?thesis using 1(1) r unfolding vector_demo_def by simp
  qed (simp add: vector_demo_def)
qed

text \<open>
  \<open>strings\<close>, which is not called: a string printed from the address of the single character \<open>c2\<close> has no NUL in that object.
\<close>

definition read_string :: "byte list \<Rightarrow> c_error + byte list" where
  "read_string m = (if 0 \<in> set m then Inr (takeWhile (\<lambda>c. c \<noteq> 0) m) else Inl OutOfBounds)"

definition strings :: "c_error + byte list list" where
  "strings = bindE (read_string [97, 98, 99, 0]) (\<lambda>s1. bindE (read_string [120]) (\<lambda>c2. Inr [s1, c2]))"

lemma strings_overreads: "strings = Inl OutOfBounds"
  by (simp add: strings_def read_string_def)

end
