(* ===== verification/RunBuffer.thy ===== *)
theory RunBuffer
  imports Memory PipeSend
begin

text \<open>
  \<open>src/fork/run/main.c\<close>: collecting the standard output of a child process.  The child is the byte
  source at the reading end of the pipe; the buffer doubles its capacity, a \<open>size_t\<close>, until the
  chunk fits.  \<open>check_result\<close> only prints a message, so a failed allocation goes on with NULL, a failed \<open>fork\<close> as the
  parent and a failed \<open>execv\<close> as a second reader.  The messages stay in the buffer of \<open>stdout\<close> until the process exits.
\<close>

subsection \<open>Code\<close>

record run_state =
  output_data :: block
  output_size :: size_t
  run_capacity :: size_t

text \<open>
  The inner loop.  After 64 shifts the capacity is 0 whatever it was, and the loop never ends; so
  the fuel 65 of \<open>append_chunk\<close> is exact.
\<close>

fun grow_capacity :: "nat \<Rightarrow> size_t \<Rightarrow> size_t \<Rightarrow> c_error + size_t" where
  "grow_capacity 0 need cap = Inl Diverges"
| "grow_capacity (Suc k) need cap =
     (if cap < need then grow_capacity k need (push_bit 1 cap) else Inr cap)"

definition run_start :: "allocator \<Rightarrow> run_state" where
  "run_start alloc = \<lparr>output_data = malloc alloc 4096, output_size = 0, run_capacity = 4096\<rparr>"

text \<open>The body of the reading loop, for a chunk of data.\<close>

definition append_chunk :: "allocator \<Rightarrow> run_state \<Rightarrow> byte list \<Rightarrow> c_error + run_state" where
  "append_chunk alloc st chunk =
     (let n = of_nat (length chunk)
      in bindE (if run_capacity st < n + output_size st
                then bindE (grow_capacity 65 (n + output_size st) (run_capacity st)) (\<lambda>cap.
                     bindE (realloc alloc (output_data st) (unat cap)) (\<lambda>p.
                       Inr (st\<lparr>run_capacity := cap, output_data := p\<rparr>)))
                else Inr st) (\<lambda>st.
         bindE (block_write (output_data st) (unat (output_size st)) chunk) (\<lambda>p.
           Inr (st\<lparr>output_data := p, output_size := output_size st + n\<rparr>))))"

function read_output :: "allocator \<Rightarrow> run_state \<Rightarrow> source \<Rightarrow> c_error + run_state" where
  "read_output alloc st child =
     (case sys_read 4096 child of
        (Inl e, child) \<Rightarrow> Inr st
      | (Inr chunk, child) \<Rightarrow>
          if chunk = [] then Inr st
          else (case append_chunk alloc st chunk of
              Inl err \<Rightarrow> Inl err
            | Inr st \<Rightarrow> read_output alloc st child))"
  by pat_completeness auto
termination
  by (relation "measure (\<lambda>(alloc, st, child). budget child)") (auto dest!: fd.get_progress [OF sym])

declare read_output.simps [simp del]

definition run :: "allocator \<Rightarrow> source \<Rightarrow> c_error + run_state" where
  "run alloc child = read_output alloc (run_start alloc) child"

text \<open>What \<open>check_result\<close> adds to the buffer of \<open>stdout\<close>; \<open>err\<close> is the text of \<open>strerror(errno)\<close>.\<close>

definition report :: "bool \<Rightarrow> string \<Rightarrow> byte list \<Rightarrow> byte list" where
  "report flag msg err = (if flag then [] else map of_char (msg @ '' error: '') @ err @ [10])"

definition output_bytes :: "run_state \<Rightarrow> c_error + byte list" where
  "output_bytes st = (case output_data st of
       Live b \<Rightarrow> mem_read b 0 (unat (output_size st))
     | Null \<Rightarrow> if output_size st = 0 then Inr [] else Inl NullDeref
     | Freed \<Rightarrow> Inl OutOfBounds)"

text \<open>
  The one \<open>write\<close> of \<open>main\<close> and the flush when it returns, which repeats short writes as \<open>ensure_write\<close> does: exit code and
  standard output.  \<open>stdio\<close> is what the buffer holds after the \<open>fork\<close>.
\<close>

definition run_main :: "byte list \<Rightarrow> byte list \<Rightarrow> allocator \<Rightarrow> source \<Rightarrow> sink \<Rightarrow> c_error + (int \<times> sink)" where
  "run_main err stdio alloc child out =
     bindE (run alloc child) (\<lambda>st. bindE (output_bytes st) (\<lambda>xs.
       let stdio = stdio @ report (malloc alloc 4096 \<noteq> Null) ''malloc'' err;
           (r, out) = sys_write xs out
       in Inr (case r of Inr n \<Rightarrow> if 0 < n then 0 else -1 | Inl e \<Rightarrow> -1, snd (ensure_write stdio out))))"

text \<open>
  The program with what becomes of the child.  Without one the pipe has no writer.  A child that cannot execute its
  program has closed its reading end and goes on: its read fails, and its output goes into the pipe.
\<close>

datatype child_start = ForkFails | ExecFails "answer list" | Executes source

fun run_program :: "byte list \<Rightarrow> allocator \<Rightarrow> child_start \<Rightarrow> sink \<Rightarrow> c_error + (int \<times> sink)" where
  "run_program err alloc (Executes child) out = run_main err [] alloc child out"
| "run_program err alloc ForkFails out =
     run_main err (report False ''fork'' err) alloc \<lparr>pending = [], answers = []\<rparr> out"
| "run_program err alloc (ExecFails pipe_answers) out =
     bindE (run_main err [] alloc \<lparr>pending = [], answers = [Err EBADF]\<rparr> \<lparr>accepted = [], replies = []\<rparr>) (\<lambda>(code, pipe).
       run_main err [] alloc \<lparr>pending = accepted pipe, answers = pipe_answers\<rparr> out)"

subsection \<open>Growth\<close>

lemma grow_capacity_result:
  assumes "0 < unat cap" and "unat need \<le> unat cap * 2 ^ k" and "unat need \<le> 2 ^ 62"
  shows "\<exists>cap'. grow_capacity (Suc k) need cap = Inr cap' \<and> unat need \<le> unat cap' \<and> unat cap \<le> unat cap' \<and>
           unat cap' \<le> max (unat cap) (2 * unat need)"
  using assms
proof (induction k arbitrary: cap)
  case 0
  then show ?case by (auto simp: word_less_nat_alt)
next
  case (Suc k)
  show ?case
  proof (cases "cap < need")
    case True
    then have lt: "unat cap < unat need" by (simp add: word_less_nat_alt)
    have "unat cap * 2 < 2 ^ LENGTH(64)" using lt Suc.prems(3) by simp
    then have dbl: "unat (push_bit 1 cap) = 2 * unat cap"
      using unat_mult_lem[of cap 2] by (simp add: push_bit_eq_mult)
    obtain cap' where "grow_capacity (Suc k) need (push_bit 1 cap) = Inr cap'" "unat need \<le> unat cap'"
      "2 * unat cap \<le> unat cap'" "unat cap' \<le> max (2 * unat cap) (2 * unat need)"
      using Suc.IH[of "push_bit 1 cap"] Suc.prems dbl by (auto simp: mult.assoc)
    then show ?thesis using True lt by auto
  qed (auto simp: word_less_nat_alt)
qed

lemma grow_enough:
  assumes "4096 \<le> unat cap" and "unat need \<le> 2 ^ 62"
  shows "\<exists>cap'. grow_capacity 65 need cap = Inr cap' \<and> unat need \<le> unat cap' \<and> unat cap \<le> unat cap' \<and>
           unat cap' \<le> max (unat cap) (2 * unat need)"
proof -
  have "unat need \<le> 1 * 2 ^ 64" using assms(2) by simp
  also have "\<dots> \<le> unat cap * 2 ^ 64" by (rule mult_le_mono1) (use assms(1) in simp)
  finally have "unat need \<le> unat cap * 2 ^ 64" .
  moreover have "0 < unat cap" using assms(1) by simp
  ultimately show ?thesis using grow_capacity_result[of cap need 64] assms(2) by simp
qed

subsection \<open>The buffer\<close>

definition run_ok :: "allocator \<Rightarrow> run_state \<Rightarrow> bool" where
  "run_ok alloc st \<longleftrightarrow> sized alloc \<and> 4096 \<le> unat (run_capacity st) \<and>
     unat (output_size st) \<le> unat (run_capacity st) \<and>
     unat (run_capacity st) \<le> max 4096 (2 * unat (output_size st)) \<and>
     (case output_data st of Live b \<Rightarrow> length b = unat (run_capacity st) | _ \<Rightarrow> False)"

definition run_contents :: "run_state \<Rightarrow> byte list" where
  "run_contents st = (case output_data st of Live b \<Rightarrow> take (unat (output_size st)) b | _ \<Rightarrow> [])"

lemma run_ok_block:
  assumes "run_ok alloc st"
  obtains b where "output_data st = Live b" "length b = unat (run_capacity st)"
  using assms by (auto simp: run_ok_def split: block.splits)

lemma length_run_contents: "run_ok alloc st \<Longrightarrow> length (run_contents st) = unat (output_size st)"
  by (auto simp: run_ok_def run_contents_def split: block.splits)

lemma run_ok_start:
  assumes "sized alloc" and "alloc 4096 \<noteq> None"
  shows "run_ok alloc (run_start alloc)" and "run_contents (run_start alloc) = []"
proof -
  obtain b where "malloc alloc 4096 = Live b" "length b = 4096"
    using malloc_sized[OF assms(1), of 4096] assms(2) by auto
  then show "run_ok alloc (run_start alloc)" "run_contents (run_start alloc) = []"
    using assms by (simp_all add: run_ok_def run_contents_def run_start_def)
qed

lemma run_contents_update:
  "run_contents (st\<lparr>output_data := Live b, output_size := k\<rparr>) = take (unat k) b"
  by (simp add: run_contents_def)

lemma make_room:
  assumes ok: "run_ok alloc st" and need: "unat (n + output_size st) \<le> 2 ^ 62"
    and full: "run_capacity st < n + output_size st" and more: "output_size st \<le> n + output_size st"
  shows "\<exists>cap b. grow_capacity 65 (n + output_size st) (run_capacity st) = Inr cap \<and> output_data st = Live b \<and>
    unat (n + output_size st) \<le> unat cap \<and> 4096 \<le> unat cap \<and> unat cap \<le> 2 * unat (n + output_size st) \<and>
    ((\<exists>b'. realloc alloc (Live b) (unat cap) = Inr (Live (b @ b')) \<and> length (b @ b') = unat cap) \<or>
     realloc alloc (Live b) (unat cap) = Inr Null \<and> alloc (unat cap) = None)"
proof -
  let ?need = "n + output_size st"
  have c: "4096 \<le> unat (run_capacity st)" and sv: "sized alloc" using ok by (simp_all add: run_ok_def)
  obtain cap where cap: "grow_capacity 65 ?need (run_capacity st) = Inr cap" "unat ?need \<le> unat cap"
    "unat (run_capacity st) \<le> unat cap" "unat cap \<le> max (unat (run_capacity st)) (2 * unat ?need)"
    using grow_enough[OF c need] by blast
  obtain b where b: "output_data st = Live b" "length b = unat (run_capacity st)" by (rule run_ok_block[OF ok])
  have top: "unat cap \<le> 2 * unat ?need" using cap(4) full by (simp add: word_less_nat_alt)
  show ?thesis using cap b top le_trans[OF c cap(3)] realloc_sized[OF sv, of b "unat cap"] by (auto simp del: length_append)
qed

text \<open>The store of a chunk into a block with room for it.\<close>

lemma append_chunk_into:
  assumes ok: "run_ok alloc st" and len: "length xs \<le> 4096"
    and room: "length (run_contents st) + length xs \<le> 2 ^ 62"
    and st1: "(if run_capacity st < of_nat (length xs) + output_size st
       then bindE (grow_capacity 65 (of_nat (length xs) + output_size st) (run_capacity st)) (\<lambda>cap.
            bindE (realloc alloc (output_data st) (unat cap)) (\<lambda>p.
              Inr (st\<lparr>run_capacity := cap, output_data := p\<rparr>)))
       else Inr st) = Inr st1"
    and b: "output_data st1 = Live b" "length b = unat (run_capacity st1)" "output_size st1 = output_size st"
      "take (unat (output_size st)) b = run_contents st" "length xs + unat (output_size st) \<le> length b"
      "4096 \<le> length b" "length b \<le> max 4096 (2 * (length xs + unat (output_size st)))"
  shows "\<exists>st'. append_chunk alloc st xs = Inr st' \<and> run_ok alloc st' \<and> run_contents st' = run_contents st @ xs"
proof -
  let ?n = "of_nat (length xs) :: size_t" and ?s = "unat (output_size st)"
  have n: "unat ?n = length xs" using len by (intro unat_of_nat_fits) simp
  have need: "unat (?n + output_size st) = length xs + ?s"
    using n room length_run_contents[OF ok] by (subst unat_add_fits) simp_all
  let ?b = "take ?s b @ xs @ drop (?s + length xs) b"
  let ?st = "st1\<lparr>output_data := Live ?b, output_size := output_size st + ?n\<rparr>"
  have fit: "?s + length xs \<le> length b" using b(5) by simp
  have "append_chunk alloc st xs = Inr ?st"
    using st1 b(1,3) fit by (simp add: append_chunk_def Let_def block_write_at)
  moreover have sz: "unat (output_size st + ?n) = ?s + length xs" using need by (simp add: add.commute)
  have "length ?b = length b" by (rule length_splice[OF fit])
  then have "run_ok alloc ?st" using ok b sz by (simp add: run_ok_def add.commute)
  moreover have "run_contents ?st = run_contents st @ xs"
  proof -
    have "take (?s + length xs) ?b = take ?s b @ xs" using fit by simp
    then have "take (?s + length xs) ?b = run_contents st @ xs" unfolding b(4) .
    moreover have "run_contents ?st = take (?s + length xs) ?b"
      by (simp only: run_contents_update sz)
    ultimately show ?thesis by (simp only:)
  qed
  ultimately show ?thesis by blast
qed

lemma append_chunk_appends:
  assumes ok: "run_ok alloc st" and len: "length xs \<le> 4096"
    and room: "length (run_contents st) + length xs \<le> 2 ^ 62"
  shows "(\<exists>st'. append_chunk alloc st xs = Inr st' \<and> run_ok alloc st' \<and> run_contents st' = run_contents st @ xs) \<or>
    append_chunk alloc st xs = Inl NullDeref \<and> refuses alloc (max 4096 (2 * (length (run_contents st) + length xs)))"
proof -
  let ?n = "of_nat (length xs) :: size_t" and ?s = "unat (output_size st)"
  have n: "unat ?n = length xs" using len by (intro unat_of_nat_fits) simp
  have s: "length (run_contents st) = ?s" by (rule length_run_contents[OF ok])
  have need: "unat (?n + output_size st) = length xs + ?s"
    using n room s by (subst unat_add_fits) simp_all
  show ?thesis
  proof (cases "run_capacity st < ?n + output_size st")
    case True
    have "unat (?n + output_size st) \<le> 2 ^ 62" using need room s by linarith
    moreover have "output_size st \<le> ?n + output_size st" using need by (simp add: word_le_nat_alt)
    ultimately obtain cap b where c: "grow_capacity 65 (?n + output_size st) (run_capacity st) = Inr cap"
      "output_data st = Live b" "unat (?n + output_size st) \<le> unat cap" "4096 \<le> unat cap"
      "unat cap \<le> 2 * unat (?n + output_size st)"
      and re: "(\<exists>b'. realloc alloc (Live b) (unat cap) = Inr (Live (b @ b')) \<and> length (b @ b') = unat cap) \<or>
        realloc alloc (Live b) (unat cap) = Inr Null \<and> alloc (unat cap) = None"
      using make_room[OF ok _ True] by blast
    have "?s \<le> length b" using ok c(2) by (simp add: run_ok_def)
    then have pre: "take ?s (b @ b') = run_contents st" for b' using c(2) by (simp add: run_contents_def)
    from re show ?thesis
    proof (elim disjE exE conjE)
      fix b' assume b': "realloc alloc (Live b) (unat cap) = Inr (Live (b @ b'))" "length (b @ b') = unat cap"
      show ?thesis
        by (rule disjI1, rule append_chunk_into[OF ok len room,
              of "st\<lparr>run_capacity := cap, output_data := Live (b @ b')\<rparr>" "b @ b'"])
          (use True b' c need pre in \<open>simp_all del: length_append take_append\<close>)
    next
      assume "realloc alloc (Live b) (unat cap) = Inr Null" and none: "alloc (unat cap) = None"
      then have "append_chunk alloc st xs = Inl NullDeref"
        using True c(1,2) by (simp add: append_chunk_def Let_def block_write_def)
      moreover have "unat cap \<le> max 4096 (2 * (length (run_contents st) + length xs))" using c(5) need s by simp
      ultimately show ?thesis using refuses_at[of alloc "unat cap", OF none] by blast
    qed
  next
    case False
    obtain b where "output_data st = Live b" "length b = unat (run_capacity st)" by (rule run_ok_block[OF ok])
    moreover have "length xs + ?s \<le> unat (run_capacity st)"
      using False need by (simp add: word_less_nat_alt)
    ultimately show ?thesis
      by (intro disjI1 append_chunk_into[OF ok len room, of st b])
        (use False ok in \<open>simp_all add: run_ok_def run_contents_def max_def split: if_splits\<close>)
  qed
qed

interpretation run_buffer: append_buffer "append_chunk alloc" run_contents "run_ok alloc"
    "\<lambda>xs. length xs \<le> 4096" "2 ^ 62" "\<lambda>k. refuses alloc (max 4096 (2 * k))" for alloc
proof unfold_locales
  fix k k' assume "k \<le> k'" and "refuses alloc (max 4096 (2 * k))"
  then show "refuses alloc (max 4096 (2 * k'))" by (intro refuses_mono[of "max 4096 (2 * k)" "max 4096 (2 * k')"]) auto
qed (rule append_chunk_appends)

subsection \<open>Properties\<close>

lemma read_output_collects:
  "run_ok alloc st \<Longrightarrow> length (run_contents st) + length (pending child) \<le> 2 ^ 62 \<Longrightarrow>
     (\<exists>st' n. read_output alloc st child = Inr st' \<and> run_ok alloc st' \<and>
       run_contents st' = run_contents st @ take n (pending child) \<and>
       ((\<forall>e. Err e \<notin> set (answers child)) \<longrightarrow> length (pending child) \<le> n)) \<or>
     read_output alloc st child = Inl NullDeref \<and>
       refuses alloc (max 4096 (2 * (length (run_contents st) + length (pending child))))"
proof (induction alloc st child rule: read_output.induct)
  case (1 alloc st child)
  note unfold = read_output.simps[of alloc st child]
  obtain r child1 where rd: "sys_read 4096 child = (r, child1)" by (cases "sys_read 4096 child")
  show ?case
  proof (cases r)
    case (Inl e)
    then have "Err e \<in> set (answers child)" using sys_read_error[of 4096 child e child1] rd by simp
    then show ?thesis using unfold rd Inl 1(2) by (intro disjI1 exI[of _ st] exI[of _ 0]) auto
  next
    case (Inr xs)
    have xs: "pending child = xs @ pending child1" "length xs \<le> 4096"
      using fd.get_bytes[of 4096 child xs child1] rd Inr by simp_all
    show ?thesis
    proof (cases "xs = []")
      case True
      then have "pending child = []" using fd.get_eof[of 4096 child child1] rd Inr by simp
      then show ?thesis using unfold rd Inr True 1(2) by (intro disjI1 exI[of _ st] exI[of _ 0]) simp
    next
      case False
      have room: "length (run_contents st) + length xs \<le> 2 ^ 62" using 1(3) xs(1) by simp
      from run_buffer.append_ok[OF 1(2) xs(2) room] show ?thesis
      proof (elim disjE exE conjE)
        fix st1 assume st1: "append_chunk alloc st xs = Inr st1" "run_ok alloc st1" "run_contents st1 = run_contents st @ xs"
        have same: "length (run_contents st1) + length (pending child1) = length (run_contents st) + length (pending child)"
          using st1(3) xs(1) by simp
        have cont: "read_output alloc st child = read_output alloc st1 child1" using unfold rd Inr False st1(1) by simp
        have room1: "length (run_contents st1) + length (pending child1) \<le> 2 ^ 62" using same 1(3) by simp
        have ans: "set (answers child1) \<subseteq> set (answers child)"
          using sys_read_answers[OF rd] by (cases "answers child") auto
        from 1(1)[OF rd[symmetric] Inr False st1(1,2) room1] show ?thesis
        proof (elim disjE exE conjE)
          fix st' n
          assume "read_output alloc st1 child1 = Inr st'" "run_ok alloc st'"
            "run_contents st' = run_contents st1 @ take n (pending child1)"
            "(\<forall>e. Err e \<notin> set (answers child1)) \<longrightarrow> length (pending child1) \<le> n"
          then show ?thesis
            using cont st1(3) xs(1) ans by (intro disjI1 exI[of _ st'] exI[of _ "length xs + n"]) auto
        qed (use cont same in simp)
      next
        assume none: "append_chunk alloc st xs = Inl NullDeref"
          "refuses alloc (max 4096 (2 * (length (run_contents st) + length xs)))"
        have "refuses alloc (max 4096 (2 * (length (run_contents st) + length (pending child))))"
          by (rule run_buffer.refused_mono[OF _ none(2)]) (simp add: xs(1))
        then show ?thesis using unfold rd Inr False none(1) by simp
      qed
    qed
  qed
qed

text \<open>Without a first block the run ends at the first byte.\<close>

lemma run_without_block:
  assumes "alloc 4096 = None"
  shows "run alloc child = Inl NullDeref \<or> run alloc child = Inr \<lparr>output_data = Null, output_size = 0, run_capacity = 4096\<rparr>"
proof -
  obtain r child1 where rd: "sys_read 4096 child = (r, child1)" by (cases "sys_read 4096 child")
  have start: "run_start alloc = \<lparr>output_data = Null, output_size = 0, run_capacity = 4096\<rparr>"
    using assms by (simp add: run_start_def malloc_def)
  have "append_chunk alloc (run_start alloc) xs = Inl NullDeref" if "length xs \<le> 4096" for xs
  proof -
    have "unat (of_nat (length xs) :: size_t) = length xs" using that by (intro unat_of_nat_fits) simp
    then have "\<not> 4096 < (of_nat (length xs) :: size_t)" using that by (simp add: word_less_nat_alt)
    then show ?thesis by (simp add: append_chunk_def start Let_def block_write_def)
  qed
  moreover have "length xs \<le> 4096" if "r = Inr xs" for xs using fd.get_bytes[of 4096 child xs child1] rd that by simp
  ultimately show ?thesis
    using rd by (cases r) (simp_all add: run_def start read_output.simps[of alloc "\<lparr>output_data = Null, output_size = 0, run_capacity = 4096\<rparr>" child])
qed

lemma run_outcomes:
  assumes "sized alloc" and "length (pending child) \<le> 2 ^ 62"
  shows "(\<exists>st n. run alloc child = Inr st \<and> run_ok alloc st \<and> run_contents st = take n (pending child) \<and>
       ((\<forall>e. Err e \<notin> set (answers child)) \<longrightarrow> length (pending child) \<le> n)) \<or>
    refuses alloc (max 4096 (2 * length (pending child))) \<and>
      (run alloc child = Inl NullDeref \<or> run alloc child = Inr \<lparr>output_data = Null, output_size = 0, run_capacity = 4096\<rparr>)"
proof (cases "alloc 4096 = None")
  case True
  then have "refuses alloc (max 4096 (2 * length (pending child)))" by (rule refuses_at) simp
  then show ?thesis using run_without_block[of alloc child] True by blast
next
  case False
  note start = run_ok_start[OF assms(1) False]
  show ?thesis using read_output_collects[OF start(1), of child] start(2) assms(2) by (simp add: run_def) blast
qed

text \<open>
  C20. The buffer grows as needed without ever being overrun: \<open>run\<close> collects a prefix of what the
  child wrote, all of it if no read fails, in a block of at most twice that size or 4096 bytes, whichever is more; or the
  allocator has refused a request of at most twice the child's output or 4096 bytes, and then the program stores through NULL or has
  collected nothing.
\<close>
theorem run_collects:
  assumes "sized alloc" and "length (pending child) \<le> 2 ^ 62"
  shows "(\<exists>st b n. run alloc child = Inr st \<and> output_data st = Live b \<and>
      take (unat (output_size st)) b = take n (pending child) \<and>
      length b \<le> max 4096 (2 * unat (output_size st)) \<and>
      ((\<forall>e. Err e \<notin> set (answers child)) \<longrightarrow> length (pending child) \<le> n)) \<or>
    (\<exists>k \<le> max 4096 (2 * length (pending child)). alloc k = None) \<and>
      (run alloc child = Inl NullDeref \<or> run alloc child = Inr \<lparr>output_data = Null, output_size = 0, run_capacity = 4096\<rparr>)"
  using run_outcomes[OF assms]
proof (elim disjE exE conjE)
  fix st n assume st: "run alloc child = Inr st" "run_ok alloc st" "run_contents st = take n (pending child)"
    "(\<forall>e. Err e \<notin> set (answers child)) \<longrightarrow> length (pending child) \<le> n"
  obtain b where b: "output_data st = Live b" "length b = unat (run_capacity st)" by (rule run_ok_block[OF st(2)])
  have "unat (run_capacity st) \<le> max 4096 (2 * unat (output_size st))" using st(2) by (simp add: run_ok_def)
  moreover have "take (unat (output_size st)) b = take n (pending child)"
    using st(3) b(1) by (simp add: run_contents_def)
  ultimately show ?thesis using st(1,4) b by auto
qed (simp_all add: refuses_def)

definition fresh_blocks :: allocator where
  "fresh_blocks n = Some (replicate n 0)"

lemma fresh_blocks_sized: "sized fresh_blocks"
  by (simp add: sized_def fresh_blocks_def)

theorem run_collects_witness:
  "\<exists>st b n. run fresh_blocks \<lparr>pending = replicate 5000 7, answers = [Short 10]\<rparr> = Inr st \<and> output_data st = Live b \<and>
    take (unat (output_size st)) b = take n (replicate 5000 7) \<and>
    length b \<le> max 4096 (2 * unat (output_size st)) \<and> 5000 \<le> n"
  using run_collects[OF fresh_blocks_sized, of "\<lparr>pending = replicate 5000 7, answers = [Short 10]\<rparr>"]
  by (simp add: fresh_blocks_def)

text \<open>
  The program prints the child's whole output and returns 0 when that is not empty, no read fails, the allocator serves all
  requests up to twice its size, and the one final \<open>write\<close> is not cut short.
\<close>
theorem run_main_prints:
  assumes "sized alloc" "\<not> refuses alloc (max 4096 (2 * length (pending child)))"
    and "0 < length (pending child)" "length (pending child) \<le> 2 ^ 62"
    and "\<forall>e. Err e \<notin> set (answers child)" and "replies out = []"
  shows "run_program err alloc (Executes child) out = Inr (0, out\<lparr>accepted := accepted out @ pending child\<rparr>)"
proof -
  obtain st n where st: "run alloc child = Inr st" "run_ok alloc st" "run_contents st = take n (pending child)"
    "length (pending child) \<le> n"
    using run_outcomes[OF assms(1,4)] assms(2,5) by blast
  obtain b where b: "output_data st = Live b" "length b = unat (run_capacity st)" by (rule run_ok_block[OF st(2)])
  have "unat (output_size st) \<le> length b" using st(2) b(2) by (simp add: run_ok_def)
  then have "mem_read b 0 (unat (output_size st)) = Inr (pending child)"
    using st(3,4) b(1) by (simp add: run_contents_def)
  then have "output_bytes st = Inr (pending child)" using b(1) by (simp add: output_bytes_def)
  moreover have "malloc alloc 4096 \<noteq> Null"
    using assms(2) by (auto simp: refuses_def malloc_def split: option.splits)
  ultimately show ?thesis
    using st(1) assms(3,6) by (simp add: run_main_def sys_write_def report_def ensure_write.simps)
qed

theorem run_main_prints_witness:
  "run_program [] fresh_blocks (Executes \<lparr>pending = [108, 115], answers = [Short 0]\<rparr>) \<lparr>accepted = [], replies = []\<rparr> =
     Inr (0, \<lparr>accepted = [108, 115], replies = []\<rparr>)"
  using run_main_prints[OF fresh_blocks_sized, of "\<lparr>pending = [108, 115], answers = [Short 0]\<rparr>"
    "\<lparr>accepted = [], replies = []\<rparr>"] by (simp add: refuses_def fresh_blocks_def)

text \<open>Without a child that runs its program the exit code is -1, and only a failed \<open>fork\<close> says why.\<close>

lemma run_main_empty:
  assumes "alloc 4096 \<noteq> None" and "pending child = []" and "replies out = []"
  shows "run_main err stdio alloc child out = Inr (-1, out\<lparr>accepted := accepted out @ stdio\<rparr>)"
proof -
  obtain b where b: "malloc alloc 4096 = Live b" using assms(1) by (auto simp: malloc_def)
  have "\<exists>rest. sys_read 4096 child = (Inr [], rest) \<or> (\<exists>e. sys_read 4096 child = (Inl e, rest))"
    using assms(2) by (auto simp: sys_read_def Let_def split: list.split answer.split)
  then have "run alloc child = Inr (run_start alloc)"
    by (auto simp: run_def read_output.simps[of alloc "run_start alloc" child])
  moreover have "output_bytes (run_start alloc) = Inr []" using b by (simp add: output_bytes_def run_start_def)
  moreover have "snd (ensure_write stdio out) = out\<lparr>accepted := accepted out @ stdio\<rparr>"
    using assms(3) by (cases "stdio = []") (simp_all add: ensure_write.simps sys_write_def)
  ultimately show ?thesis using b assms(3) by (simp add: run_main_def report_def sys_write_def)
qed

theorem run_program_no_child:
  assumes "alloc 4096 \<noteq> None" and "replies out = []"
  shows "run_program err alloc ForkFails out =
      Inr (-1, out\<lparr>accepted := accepted out @ map of_char ''fork error: '' @ err @ [10]\<rparr>) \<and>
    run_program err alloc (ExecFails as) out = Inr (-1, out)"
  using assms by (simp add: run_main_empty report_def)

end
