(* ===== verification/Eventfd.thy ===== *)
theory Eventfd
  imports Prelude
begin

text \<open>
  The \<open>eventfd\<close> objects that the programs synchronise on, as the manual page documents them: a 64-bit
  counter; \<open>read\<close> blocks while it is 0 and takes the whole counter, or one unit in semaphore mode;
  \<open>write\<close> adds, and blocks while the sum would exceed \<open>2 ^ 64 - 2\<close>.  None is a call that blocks.
\<close>

record eventfd =
  efd_count :: nat
  efd_semaphore :: bool

definition efd_read :: "eventfd \<Rightarrow> (nat \<times> eventfd) option" where
  "efd_read e =
     (if efd_count e = 0 then None
      else if efd_semaphore e then Some (1, e\<lparr>efd_count := efd_count e - 1\<rparr>)
      else Some (efd_count e, e\<lparr>efd_count := 0\<rparr>))"

definition efd_write :: "nat \<Rightarrow> eventfd \<Rightarrow> eventfd option" where
  "efd_write x e =
     (if efd_count e + x \<le> 2 ^ 64 - 2 then Some (e\<lparr>efd_count := efd_count e + x\<rparr>) else None)"

text \<open>\<open>eventfd(n, 0)\<close>, a plain counter.\<close>

definition plain_efd :: "nat \<Rightarrow> eventfd" where
  "plain_efd n = \<lparr>efd_count = n, efd_semaphore = False\<rparr>"

lemma plain_efd_read [simp]: "efd_read (plain_efd n) = (if n = 0 then None else Some (n, plain_efd 0))"
  by (simp add: efd_read_def plain_efd_def)

lemma plain_efd_write: "m + n \<le> 2 ^ 64 - 2 \<Longrightarrow> efd_write n (plain_efd m) = Some (plain_efd (m + n))"
  by (simp add: efd_write_def plain_efd_def)

lemma plain_efd_write_Some: "efd_write n (plain_efd m) = Some e \<Longrightarrow> e = plain_efd (m + n)"
  by (auto simp: efd_write_def plain_efd_def split: if_splits)

lemma efd_count_plain [simp]: "efd_count (plain_efd n) = n"
  by (simp add: plain_efd_def)

lemma plain_efd_eq [simp]: "plain_efd m = plain_efd n \<longleftrightarrow> m = n"
  by (simp add: plain_efd_def)

end
