(* ===== verification/EvfdSync.thy ===== *)
theory EvfdSync
  imports Transition Eventfd
begin

text \<open>
  \<open>src/fork/evfd-sync/main.c\<close>: eight processes in a ring pass a number on through eventfds; each
  prints the number it receives, adds one and hands it to the next, and exits once the number is
  above \<open>N\<close>.  A step is one system call (or one \<open>printf\<close>) of one process.  The standard output is a
  terminal, so that a \<open>printf\<close> of a line is a write.  The calls on eventfds do not fail; a failing \<open>fork\<close>, which
  \<open>check_result\<close> only reports, is in EvfdMissing.
\<close>

subsection \<open>Code\<close>

definition THREADS :: nat where "THREADS = 8"
definition N_LAST :: nat where "N_LAST = 10"  \<comment> \<open>\<open>N\<close>\<close>

datatype child_pc = AtRead | AtPrint nat | AtWrite nat | Exited
datatype parent_pc = PInit | PWait | PDone

record ring_state =
  fds :: "nat \<Rightarrow> eventfd"
  pcs :: "nat \<Rightarrow> child_pc"
  parent :: parent_pc
  reaped :: "nat set"
  printed :: "nat list"

definition ring_init :: "ring_state \<Rightarrow> bool" where
  "ring_init s \<longleftrightarrow> s = \<lparr>fds = (\<lambda>_. plain_efd 0), pcs = (\<lambda>_. AtRead), parent = PInit, reaped = {}, printed = []\<rparr>"

inductive ring_step :: "ring_state \<Rightarrow> ring_state \<Rightarrow> bool" where
  parent_write: "parent s = PInit \<Longrightarrow> efd_write 1 (fds s 0) = Some e \<Longrightarrow>
    ring_step s (s\<lparr>fds := (fds s)(0 := e), parent := PWait\<rparr>)"
| parent_reap: "parent s = PWait \<Longrightarrow> i < THREADS \<Longrightarrow> pcs s i = Exited \<Longrightarrow> i \<notin> reaped s \<Longrightarrow>
    ring_step s (s\<lparr>reaped := insert i (reaped s)\<rparr>)"
| parent_done: "parent s = PWait \<Longrightarrow> \<forall>i < THREADS. i \<in> reaped s \<Longrightarrow>
    ring_step s (s\<lparr>parent := PDone\<rparr>)"
| child_read: "i < THREADS \<Longrightarrow> pcs s i = AtRead \<Longrightarrow> efd_read (fds s i) = Some (x, e) \<Longrightarrow>
    ring_step s (s\<lparr>fds := (fds s)(i := e), pcs := (pcs s)(i := AtPrint x)\<rparr>)"
| child_print: "i < THREADS \<Longrightarrow> pcs s i = AtPrint x \<Longrightarrow>
    ring_step s (s\<lparr>printed := (if x \<le> N_LAST then printed s @ [x] else printed s), pcs := (pcs s)(i := AtWrite (x + 1))\<rparr>)"
| child_write: "i < THREADS \<Longrightarrow> pcs s i = AtWrite x \<Longrightarrow> nxt = (i + 1) mod THREADS \<Longrightarrow>
    efd_write x (fds s nxt) = Some e \<Longrightarrow>
    ring_step s (s\<lparr>fds := (fds s)(nxt := e), pcs := (pcs s)(i := if x > N_LAST then Exited else AtRead)\<rparr>)"

inductive_cases ring_stepE: "ring_step s t"

subsection \<open>The path of the number\<close>

text \<open>
  The number \<open>v\<close> is always due at process \<open>(v - 1) mod THREADS\<close>.  A process has exited when it has handled
  a number from \<open>N_LAST\<close> on; after \<open>N_LAST + THREADS\<close> there is none left.
\<close>

definition due :: "nat \<Rightarrow> nat" where
  "due v = (v - 1) mod THREADS"

definition gone :: "nat \<Rightarrow> nat \<Rightarrow> bool" where
  "gone v i \<longleftrightarrow> (\<exists>u. N_LAST \<le> u \<and> u < v \<and> due u = i)"

definition idle :: "nat \<Rightarrow> nat \<Rightarrow> child_pc" where
  "idle v i = (if gone v i then Exited else AtRead)"

lemma due_less: "due v < THREADS"
  by (simp add: due_def THREADS_def)

lemma due_Suc: "1 \<le> v \<Longrightarrow> (due v + 1) mod THREADS = due (Suc v)"
  by (simp add: due_def mod_Suc_eq)

lemma due_not_gone: "v < N_LAST + THREADS \<Longrightarrow> \<not> gone v (due v)"
proof
  assume v: "v < N_LAST + THREADS" and "gone v (due v)"
  then obtain u where u: "N_LAST \<le> u" "u < v" "due u = due v" by (auto simp: gone_def)
  have "u - 1 = v - 1"
    by (rule mod_inj_window[of _ THREADS]) (use u v in \<open>auto simp: due_def N_LAST_def\<close>)
  then show False using u by (simp add: N_LAST_def)
qed

lemma gone_Suc: "gone (Suc v) i \<longleftrightarrow> gone v i \<or> N_LAST \<le> v \<and> due v = i"
  by (auto simp: gone_def less_Suc_eq)

lemma all_gone: "i < THREADS \<Longrightarrow> gone (N_LAST + THREADS) i"
proof -
  assume i: "i < THREADS"
  let ?u = "if i = 0 then 17 else i + 9"
  have "due ?u = i" using i by (auto simp: due_def THREADS_def)
  moreover have "N_LAST \<le> ?u" "?u < N_LAST + THREADS" using i by (auto simp: N_LAST_def THREADS_def)
  ultimately show ?thesis unfolding gone_def by blast
qed

lemma upt_print: "1 \<le> v \<Longrightarrow> [1..<min (v + 1) (N_LAST + 1)] =
    (if v \<le> N_LAST then [1..<min v (N_LAST + 1)] @ [v] else [1..<min v (N_LAST + 1)])"
  by (cases "v \<le> N_LAST") (simp_all add: min_absorb1 min_absorb2)

subsection \<open>Invariant\<close>

text \<open>Where the number is: in an eventfd, or with a process before or after its \<open>printf\<close>.\<close>

datatype place = InFd | Received | Handled

definition at_place :: "place \<Rightarrow> nat \<Rightarrow> ring_state \<Rightarrow> bool" where
  "at_place p v s \<longleftrightarrow> 1 \<le> v \<and> v + (if p = InFd then 0 else 1) \<le> N_LAST + THREADS \<and>
     fds s = (\<lambda>i. plain_efd (if p = InFd \<and> i = due v then v else 0)) \<and>
     pcs s = (case p of InFd \<Rightarrow> idle v | Received \<Rightarrow> (idle v)(due v := AtPrint v)
                | Handled \<Rightarrow> (idle v)(due v := AtWrite (v + 1))) \<and>
     printed s = [1..<min (v + (if p = Handled then 1 else 0)) (N_LAST + 1)]"

definition ring_inv :: "ring_state \<Rightarrow> bool" where
  "ring_inv s \<longleftrightarrow> ring_init s \<or>
     (\<exists>p v. at_place p v s) \<and> parent s \<noteq> PInit \<and> reaped s \<subseteq> {i. i < THREADS \<and> pcs s i = Exited} \<and>
     (parent s = PDone \<longrightarrow> (\<forall>i < THREADS. i \<in> reaped s))"

lemma idle_cases: "idle v i = AtRead \<or> idle v i = Exited"
  by (simp add: idle_def)

lemma idle_Suc: "(idle v)(due v := if N_LAST < Suc v then Exited else AtRead) = idle (Suc v)"
  if "v < N_LAST + THREADS"
  using due_not_gone[OF that] by (auto simp: idle_def gone_Suc fun_eq_iff)

text \<open>The steps of the children, by the place of the number.\<close>

lemma read_at:
  assumes "at_place p v s" and "i < THREADS" "pcs s i = AtRead" "efd_read (fds s i) = Some (x, e)"
  shows "at_place Received v (s\<lparr>fds := (fds s)(i := e), pcs := (pcs s)(i := AtPrint x)\<rparr>)" and "i = due v" and "p = InFd"
proof -
  show p: "p = InFd" and i: "i = due v"
    using assms by (auto simp: at_place_def split: if_splits)
  have x: "x = v" "e = plain_efd 0" and v: "1 \<le> v" using assms(1,4) p i by (auto simp: at_place_def split: if_splits)
  have "v < N_LAST + THREADS"
  proof (rule ccontr)
    assume "\<not> v < N_LAST + THREADS"
    then have "v = N_LAST + THREADS" using assms(1) p by (simp add: at_place_def)
    then have "pcs s i = Exited" using assms(1) p all_gone[OF assms(2)] by (simp add: at_place_def idle_def)
    with assms(3) show False by simp
  qed
  then show "at_place Received v (s\<lparr>fds := (fds s)(i := e), pcs := (pcs s)(i := AtPrint x)\<rparr>)"
    using assms(1) p i x by (auto simp: at_place_def fun_eq_iff)
qed

lemma pcs_place:
  assumes "at_place p v s"
  shows "pcs s i = AtPrint x \<longleftrightarrow> p = Received \<and> i = due v \<and> x = v"
    and "pcs s i = AtWrite x \<longleftrightarrow> p = Handled \<and> i = due v \<and> x = v + 1"
  using assms by (auto simp: at_place_def idle_def split: place.splits)

lemma print_at:
  assumes "at_place Received v s"
  shows "at_place Handled v (s\<lparr>printed := (if v \<le> N_LAST then printed s @ [v] else printed s),
           pcs := (pcs s)(due v := AtWrite (v + 1))\<rparr>)"
proof -
  have v: "1 \<le> v" and out: "printed s = [1..<min v (N_LAST + 1)]" using assms by (simp_all add: at_place_def)
  have "(if v \<le> N_LAST then printed s @ [v] else printed s) = [1..<min (v + 1) (N_LAST + 1)]"
    unfolding out upt_print[OF v] by (rule refl)
  then show ?thesis using assms by (simp add: at_place_def)
qed

lemma write_at:
  assumes "at_place Handled v s" and "efd_write (v + 1) (fds s (due (Suc v))) = Some e"
  shows "at_place InFd (Suc v) (s\<lparr>fds := (fds s)(due (Suc v) := e),
           pcs := (pcs s)(due v := if v + 1 > N_LAST then Exited else AtRead)\<rparr>)"
proof -
  have e: "e = plain_efd (Suc v)" using assms by (auto simp: at_place_def dest!: plain_efd_write_Some)
  have v: "v < N_LAST + THREADS" using assms(1) by (simp add: at_place_def)
  have "(pcs s)(due v := if v + 1 > N_LAST then Exited else AtRead) = idle (Suc v)"
    using assms(1) idle_Suc[OF v] by (simp add: at_place_def)
  moreover have "(fds s)(due (Suc v) := e) = (\<lambda>i. plain_efd (if i = due (Suc v) then Suc v else 0))"
    using assms(1) e by (simp add: at_place_def fun_eq_iff)
  ultimately show ?thesis using assms(1) by (simp add: at_place_def)
qed

lemma ring_inv_step:
  assumes inv: "ring_inv s" and step: "ring_step s t"
  shows "ring_inv t"
proof (cases "ring_init s")
  case True
  from step show ?thesis
  proof cases
    case (parent_write e)
    then have "e = plain_efd 1" using True by (auto simp: ring_init_def dest!: plain_efd_write_Some)
    then have "at_place InFd 1 t"
      using parent_write True
      by (auto simp: at_place_def ring_init_def due_def idle_def gone_def N_LAST_def THREADS_def fun_eq_iff)
    then show ?thesis using parent_write True by (auto simp: ring_inv_def ring_init_def)
  qed (use True in \<open>simp_all add: ring_init_def\<close>)
next
  case False
  then obtain p v where at: "at_place p v s" and par: "parent s \<noteq> PInit"
    and r: "reaped s \<subseteq> {i. i < THREADS \<and> pcs s i = Exited}"
    and d: "parent s = PDone \<longrightarrow> (\<forall>i < THREADS. i \<in> reaped s)"
    using inv by (auto simp: ring_inv_def)
  from step show ?thesis
  proof cases
    case (child_read i x e)
    show ?thesis using read_at(1)[OF at child_read(2-4)] child_read par r d
      unfolding ring_inv_def by fastforce
  next
    case (child_print i x)
    then have "at_place Handled v t" using print_at[of v s] at pcs_place(1)[OF at] by auto
    then show ?thesis using child_print par r d unfolding ring_inv_def by fastforce
  next
    case (child_write i x nxt e)
    then have "p = Handled" "i = due v" "x = v + 1" using pcs_place(2)[OF at] by auto
    then have "at_place InFd (Suc v) t"
      using write_at[of v s e] at child_write due_Suc[of v] by (auto simp: at_place_def)
    then show ?thesis using child_write par r d unfolding ring_inv_def by fastforce
  next
    case (parent_reap i)
    have "at_place p v t" using at parent_reap by (simp add: at_place_def)
    then show ?thesis using parent_reap par r d unfolding ring_inv_def by fastforce
  next
    case parent_done
    have "at_place p v t" using at parent_done by (simp add: at_place_def)
    then show ?thesis using parent_done par r d unfolding ring_inv_def by fastforce
  qed (use par in simp)
qed

subsection \<open>Termination\<close>

definition progress :: "ring_state \<Rightarrow> nat" where
  "progress s = (\<Sum>i<THREADS. case pcs s i of AtPrint x \<Rightarrow> 3 * x + 1 | AtWrite x \<Rightarrow> 3 * (x - 1) + 2 | _ \<Rightarrow> 0) +
     (\<Sum>i<THREADS. 3 * efd_count (fds s i))"

definition ring_mu :: "ring_state \<Rightarrow> nat" where
  "ring_mu s = (3 * (N_LAST + THREADS) + 3 - progress s) + (THREADS - card (reaped s)) +
     (case parent s of PInit \<Rightarrow> 2 | PWait \<Rightarrow> 1 | PDone \<Rightarrow> 0)"

lemma progress_place:
  assumes fds: "fds s = (\<lambda>i. plain_efd (if p = InFd \<and> i = d then v else 0))" and d: "d < THREADS"
    and base: "\<And>i. base i = AtRead \<or> base i = Exited"
    and pcs: "pcs s = (case p of InFd \<Rightarrow> base | Received \<Rightarrow> base(d := AtPrint v) | Handled \<Rightarrow> base(d := AtWrite (v + 1)))"
  shows "progress s = 3 * v + (case p of InFd \<Rightarrow> 0 | Received \<Rightarrow> 1 | Handled \<Rightarrow> 2)"
proof -
  have fd: "(\<Sum>i<THREADS. 3 * efd_count (fds s i)) = (if p = InFd then 3 * v else 0)"
    using d by (simp add: fds if_distrib[of "(*) 3"] if_distrib[of efd_count] sum.delta cong: if_cong)
  have "(\<Sum>i<THREADS. case pcs s i of AtPrint x \<Rightarrow> 3 * x + 1 | AtWrite x \<Rightarrow> 3 * (x - 1) + 2 | _ \<Rightarrow> 0) =
      (\<Sum>i<THREADS. if i = d then (case p of InFd \<Rightarrow> 0 | Received \<Rightarrow> 3 * v + 1 | Handled \<Rightarrow> 3 * v + 2) else 0)"
  proof (intro sum.cong refl)
    fix i
    show "(case pcs s i of AtPrint x \<Rightarrow> 3 * x + 1 | AtWrite x \<Rightarrow> 3 * (x - 1) + 2 | _ \<Rightarrow> 0) =
        (if i = d then (case p of InFd \<Rightarrow> 0 | Received \<Rightarrow> 3 * v + 1 | Handled \<Rightarrow> 3 * v + 2) else 0)"
      using base[of i] by (cases p) (auto simp: pcs)
  qed
  also have "\<dots> = (case p of InFd \<Rightarrow> 0 | Received \<Rightarrow> 3 * v + 1 | Handled \<Rightarrow> 3 * v + 2)"
    using d by (simp add: sum.delta)
  finally show ?thesis using fd by (cases p) (simp_all add: progress_def)
qed

lemma progress_at:
  assumes "at_place p v s"
  shows "progress s = 3 * v + (case p of InFd \<Rightarrow> 0 | Received \<Rightarrow> 1 | Handled \<Rightarrow> 2)"
  using assms by (intro progress_place[of s p "due v" v "idle v"]) (auto simp: at_place_def due_less idle_cases)

lemma progress_bound: "at_place p v s \<Longrightarrow> progress s \<le> 3 * (N_LAST + THREADS)"
  using progress_at[of p v s] by (cases p) (auto simp: at_place_def)

lemma ring_mu_step:
  assumes inv: "ring_inv s" and step: "ring_step s t"
  shows "ring_mu t < ring_mu s"
proof (cases "ring_init s")
  case True
  have s: "parent s = PInit" "progress s = 0" using True by (simp_all add: ring_init_def progress_def)
  from step show ?thesis
  proof cases
    case (parent_write e)
    then show ?thesis using s True by (simp add: ring_mu_def)
  qed (use True in \<open>simp_all add: ring_init_def\<close>)
next
  case False
  then obtain p v where at: "at_place p v s" and par: "parent s \<noteq> PInit"
    and r: "reaped s \<subseteq> {i. i < THREADS \<and> pcs s i = Exited}"
    using inv by (auto simp: ring_inv_def)
  have fin: "finite (reaped s)" "reaped s \<subseteq> {..<THREADS}" using r by (auto intro: finite_subset)
  have move: "ring_mu t < ring_mu s" if "at_place q w t" "parent t = parent s" "reaped t = reaped s"
      "progress t = progress s + 1" for q w
    using that progress_bound[OF that(1)] by (simp add: ring_mu_def)
  from step show ?thesis
  proof cases
    case (child_read i x e)
    have "at_place Received v t" "p = InFd" using read_at[OF at child_read(2-4)] child_read(1) by auto
    then show ?thesis using at child_read(1) by (intro move) (simp_all add: progress_at)
  next
    case (child_print i x)
    then have p: "p = Received" "i = due v" "x = v" using pcs_place(1)[OF at] by auto
    then have "at_place Handled v t" using print_at[of v s] at child_print by auto
    then show ?thesis using at p child_print(1) by (intro move) (simp_all add: progress_at)
  next
    case (child_write i x nxt e)
    then have p: "p = Handled" "i = due v" "x = v + 1" using pcs_place(2)[OF at] by auto
    then have "at_place InFd (Suc v) t"
      using write_at[of v s e] at child_write due_Suc[of v] by (auto simp: at_place_def)
    then show ?thesis using at p child_write(1) by (intro move) (simp_all add: progress_at)
  next
    case (parent_reap i)
    have "card (insert i (reaped s)) \<le> card {..<THREADS}" using fin parent_reap by (intro card_mono) auto
    then have "card (insert i (reaped s)) = Suc (card (reaped s))" "Suc (card (reaped s)) \<le> THREADS"
      using fin(1) parent_reap by simp_all
    moreover have "progress t = progress s" using parent_reap by (simp add: progress_def)
    ultimately show ?thesis using parent_reap by (simp add: ring_mu_def)
  next
    case parent_done
    then show ?thesis by (simp add: ring_mu_def progress_def)
  qed (use par in simp)
qed

lemma ring_inv_init: "ring_init s \<Longrightarrow> ring_inv s"
  by (simp add: ring_inv_def)

interpretation ring: terminating_system ring_init ring_step ring_inv ring_mu
  by unfold_locales (auto intro: ring_inv_init ring_inv_step ring_mu_step)

lemma ring_stuck:
  assumes inv: "ring_inv s" and stuck: "stuck ring_step s"
  shows "at_place InFd (N_LAST + THREADS) s" and "parent s = PDone"
proof -
  have no: "\<not> ring_step s t" for t using stuck by (simp add: stuck_def)
  have "\<not> ring_init s"
  proof
    assume "ring_init s"
    then have "parent s = PInit" "efd_write 1 (fds s 0) = Some (plain_efd 1)"
      by (simp_all add: ring_init_def plain_efd_write)
    from parent_write[OF this] no show False by blast
  qed
  then obtain p v where at: "at_place p v s" and par: "parent s \<noteq> PInit"
    using inv by (auto simp: ring_inv_def)
  have v: "1 \<le> v" "v + (if p = InFd then 0 else 1) \<le> N_LAST + THREADS" using at by (simp_all add: at_place_def)
  have p: "p = InFd"
  proof (cases p)
    case Received
    then have "pcs s (due v) = AtPrint v" using pcs_place(1)[OF at] by simp
    from child_print[OF due_less this] no show ?thesis by blast
  next
    case Handled
    then have "pcs s (due v) = AtWrite (v + 1)" using pcs_place(2)[OF at] by simp
    moreover have "efd_write (v + 1) (fds s ((due v + 1) mod THREADS)) = Some (plain_efd (0 + (v + 1)))"
      using at v Handled by (simp only: at_place_def) (subst plain_efd_write [symmetric], auto simp: N_LAST_def THREADS_def)
    ultimately show ?thesis using child_write[OF due_less _ refl] no by blast
  qed
  have "v = N_LAST + THREADS"
  proof (rule ccontr)
    assume "v \<noteq> N_LAST + THREADS"
    then have "\<not> gone v (due v)" using v p by (intro due_not_gone) simp
    then have "pcs s (due v) = AtRead" "efd_read (fds s (due v)) = Some (v, plain_efd 0)"
      using at p v by (simp_all add: at_place_def idle_def)
    from child_read[OF due_less this] no show False by blast
  qed
  with at p show last: "at_place InFd (N_LAST + THREADS) s" by simp
  then have ex: "pcs s i = Exited" if "i < THREADS" for i
    using all_gone[OF that] by (simp add: at_place_def idle_def)
  show "parent s = PDone"
  proof (cases "parent s")
    case PWait
    show ?thesis
    proof (cases "\<forall>i < THREADS. i \<in> reaped s")
      case True
      from parent_done[OF PWait this] no show ?thesis by blast
    next
      case False
      then obtain i where "i < THREADS" "i \<notin> reaped s" by blast
      from parent_reap[OF PWait this(1) ex[OF this(1)] this(2)] no show ?thesis by blast
    qed
  qed (use par in simp_all)
qed

subsection \<open>Properties\<close>

text \<open>
  At every moment of every interleaving the numbers printed so far are 1, 2, 3, ... in order,
  none beyond \<open>N\<close>, and at most one process is between its read and its write.
\<close>
theorem ring_prints_in_order:
  assumes "reachable ring_init ring_step s"
  shows "(\<exists>k \<le> N_LAST. printed s = [1..<k + 1]) \<and>
    card {i. i < THREADS \<and> pcs s i \<noteq> AtRead \<and> pcs s i \<noteq> Exited} \<le> 1"
proof -
  have inv: "ring_inv s" by (rule ring.inv_reachable[OF assms])
  have "(\<exists>k \<le> N_LAST. printed s = [1..<k + 1]) \<and> (\<exists>d. \<forall>i. pcs s i \<noteq> AtRead \<and> pcs s i \<noteq> Exited \<longrightarrow> i = d)"
  proof (cases "ring_init s")
    case True
    then show ?thesis by (auto simp: ring_init_def intro: exI[of _ 0])
  next
    case False
    then obtain p v where at: "at_place p v s" using inv by (auto simp: ring_inv_def)
    define m where "m = min (v + (if p = Handled then 1 else 0)) (N_LAST + 1)"
    have m: "1 \<le> m" "m \<le> N_LAST + 1" "printed s = [1..<m]"
      using at by (simp_all add: at_place_def m_def)
    then have "m - 1 \<le> N_LAST" "m - 1 + 1 = m" by simp_all
    then have "\<exists>k \<le> N_LAST. printed s = [1..<k + 1]" using m(3) by metis
    moreover have "\<forall>i. pcs s i \<noteq> AtRead \<and> pcs s i \<noteq> Exited \<longrightarrow> i = due v"
      using at by (auto simp: at_place_def idle_def split: place.splits if_splits)
    ultimately show ?thesis by blast
  qed
  then obtain d where pr: "\<exists>k \<le> N_LAST. printed s = [1..<k + 1]"
    and d: "\<forall>i. pcs s i \<noteq> AtRead \<and> pcs s i \<noteq> Exited \<longrightarrow> i = d" by blast
  have "{i. i < THREADS \<and> pcs s i \<noteq> AtRead \<and> pcs s i \<noteq> Exited} \<subseteq> {d}" using d by blast
  then have "card {i. i < THREADS \<and> pcs s i \<noteq> AtRead \<and> pcs s i \<noteq> Exited} \<le> 1"
    using card_mono[of "{d}"] by fastforce
  with pr show ?thesis by blast
qed

definition ring_start :: ring_state where
  "ring_start = \<lparr>fds = (\<lambda>_. plain_efd 0), pcs = (\<lambda>_. AtRead), parent = PInit, reaped = {}, printed = []\<rparr>"

definition ring_after_read :: ring_state where
  "ring_after_read = ring_start\<lparr>fds := (fds ring_start)(0 := plain_efd 1, 0 := plain_efd 0), parent := PWait,
     pcs := (pcs ring_start)(0 := AtPrint 1)\<rparr>"

lemma ring_start_init: "ring_init ring_start"
  by (simp add: ring_init_def ring_start_def)

lemma ring_after_read_reachable: "reachable ring_init ring_step ring_after_read"
proof -
  let ?s = "ring_start\<lparr>fds := (fds ring_start)(0 := plain_efd 1), parent := PWait\<rparr>"
  have "ring_step ring_start ?s" by (rule parent_write) (simp_all add: ring_start_def plain_efd_write)
  moreover have "ring_step ?s (?s\<lparr>fds := (fds ?s)(0 := plain_efd 0), pcs := (pcs ?s)(0 := AtPrint 1)\<rparr>)"
    by (rule child_read) (simp_all add: ring_start_def THREADS_def)
  ultimately show ?thesis
    using reach_init[of ring_init ring_start ring_step, OF ring_start_init]
    by (auto simp: ring_after_read_def ring_start_def intro: reach_step)
qed

theorem ring_prints_in_order_witness:
  "\<exists>k \<le> N_LAST. printed ring_after_read = [1..<k + 1]"
  using ring_prints_in_order[OF ring_after_read_reachable] by blast

text \<open>
  C15. No execution has more than 67 steps, whatever the interleaving, and one that cannot go on has
  printed exactly 1 to 10, every process has exited and the parent has returned: no deadlock.
\<close>
theorem ring_terminates:
  assumes "ring_init s" and "(ring_step ^^ n) s t"
  shows "n \<le> 67 \<and>
    (stuck ring_step t \<longrightarrow> printed t = [1, 2, 3, 4, 5, 6, 7, 8, 9, 10] \<and> parent t = PDone \<and>
       (\<forall>i < THREADS. pcs t i = Exited)) \<and>
    (\<exists>u. ring_step\<^sup>*\<^sup>* t u \<and> stuck ring_step u)"
proof (intro conjI)
  have inv: "ring_inv s" by (rule ring_inv_init[OF assms(1)])
  have "ring_mu s = 67"
    using assms(1) by (simp add: ring_mu_def ring_init_def progress_def N_LAST_def THREADS_def)
  then show "n \<le> 67" using ring.run_length_bound[OF assms(2) inv] by simp
  have inv_t: "ring_inv t" using ring.inv_steps relpowp_imp_rtranclp[OF assms(2)] inv by blast
  then show "\<exists>u. ring_step\<^sup>*\<^sup>* t u \<and> stuck ring_step u" by (rule ring.reaches_stuck)
  show "stuck ring_step t \<longrightarrow> printed t = [1, 2, 3, 4, 5, 6, 7, 8, 9, 10] \<and> parent t = PDone \<and>
      (\<forall>i < THREADS. pcs t i = Exited)"
  proof
    assume "stuck ring_step t"
    note final = ring_stuck[OF inv_t this]
    have "printed t = [1..<11]" using final(1) by (simp add: at_place_def N_LAST_def THREADS_def)
    moreover have "pcs t i = Exited" if "i < THREADS" for i
      using final(1) all_gone[OF that] by (simp add: at_place_def idle_def)
    ultimately show "printed t = [1, 2, 3, 4, 5, 6, 7, 8, 9, 10] \<and> parent t = PDone \<and>
        (\<forall>i < THREADS. pcs t i = Exited)"
      using final(2) by (simp add: upt_rec)
  qed
qed

theorem ring_terminates_witness:
  "\<exists>u. ring_step\<^sup>*\<^sup>* ring_start u \<and> printed u = [1, 2, 3, 4, 5, 6, 7, 8, 9, 10] \<and> parent u = PDone"
proof -
  have "(ring_step ^^ 0) ring_start ring_start" by simp
  from ring_terminates[OF ring_start_init this] obtain u where u: "ring_step\<^sup>*\<^sup>* ring_start u" "stuck ring_step u"
    by blast
  then obtain n where "(ring_step ^^ n) ring_start u" by (auto simp: rtranclp_power)
  from ring_terminates[OF ring_start_init this] u show ?thesis by blast
qed

end
