(* ===== verification/EvfdMissing.thy ===== *)
theory EvfdMissing
  imports EvfdSync
begin

text \<open>
  The ring of EvfdSync when some calls of \<open>fork\<close> fail: \<open>check_result\<close> reports each failure and the parent goes on, so the
  number comes to an eventfd that nobody reads.
\<close>

subsection \<open>The start\<close>

text \<open>
  \<open>forked\<close> are the processes there are.  A missing one is like one that has exited and been waited for: it takes no
  step, and \<open>wait\<close> does not return it.
\<close>

definition present :: "nat set \<Rightarrow> nat \<Rightarrow> child_pc" where
  "present forked i = (if i \<in> forked then AtRead else Exited)"

definition fork_init :: "nat set \<Rightarrow> ring_state \<Rightarrow> bool" where
  "fork_init forked s \<longleftrightarrow> s = \<lparr>fds = (\<lambda>_. plain_efd 0), pcs = present forked, parent = PInit,
     reaped = {i. i < THREADS \<and> i \<notin> forked}, printed = []\<rparr>"

text \<open>Process \<open>k\<close> is the first that is missing.\<close>

definition first_missing :: "nat set \<Rightarrow> nat \<Rightarrow> bool" where
  "first_missing forked k \<longleftrightarrow> forked \<subseteq> {..<THREADS} \<and> k < THREADS \<and> k \<notin> forked \<and> {..<k} \<subseteq> forked"

subsection \<open>Invariant and termination\<close>

definition before_gap :: "nat set \<Rightarrow> nat \<Rightarrow> place \<Rightarrow> nat \<Rightarrow> ring_state \<Rightarrow> bool" where
  "before_gap forked k p v s \<longleftrightarrow> v \<le> k \<and> (p \<noteq> InFd \<longrightarrow> v < k) \<and>
     fds s = (\<lambda>i. plain_efd (if p = InFd \<and> i = v then Suc v else 0)) \<and>
     pcs s = (case p of InFd \<Rightarrow> present forked | Received \<Rightarrow> (present forked)(v := AtPrint (Suc v))
                | Handled \<Rightarrow> (present forked)(v := AtWrite (Suc v + 1))) \<and>
     printed s = [1..<v + (if p = Handled then 2 else 1)] \<and>
     parent s \<noteq> PInit \<and> reaped s = {i. i < THREADS \<and> i \<notin> forked} \<and> (parent s = PDone \<longrightarrow> forked = {})"

definition gap_inv :: "nat set \<Rightarrow> nat \<Rightarrow> ring_state \<Rightarrow> bool" where
  "gap_inv forked k s \<longleftrightarrow> fork_init forked s \<or> (\<exists>p v. before_gap forked k p v s)"

definition gap_mu :: "nat \<Rightarrow> ring_state \<Rightarrow> nat" where
  "gap_mu k s = (case parent s of PInit \<Rightarrow> 3 * k + 2 | PWait \<Rightarrow> 3 * (k + 1) - progress s + 1
     | PDone \<Rightarrow> 3 * (k + 1) - progress s)"

lemma progress_gap:
  assumes "before_gap forked k p v s" and "k < THREADS"
  shows "progress s = 3 * Suc v + (case p of InFd \<Rightarrow> 0 | Received \<Rightarrow> 1 | Handled \<Rightarrow> 2)"
  using assms by (intro progress_place[of s p v "Suc v" "present forked"]) (auto simp: before_gap_def present_def)

lemma gap_start:
  assumes "first_missing forked k" and "fork_init forked s" and "ring_step s t"
  shows "before_gap forked k InFd 0 t" and "parent t = PWait"
proof -
  have "before_gap forked k InFd 0 t \<and> parent t = PWait"
    using assms(3)
  proof cases
    case (parent_write e)
    then have "e = plain_efd 1" using assms(2) by (auto simp: fork_init_def dest!: plain_efd_write_Some)
    then show ?thesis using assms(2) parent_write(1) by (simp add: fork_init_def before_gap_def fun_eq_iff)
  next
    case (child_read i x e)
    then show ?thesis using assms(2) by (simp add: fork_init_def)
  next
    case (child_print i x)
    then show ?thesis using assms(2) by (simp add: fork_init_def present_def split: if_splits)
  next
    case (child_write i x nxt e)
    then show ?thesis using assms(2) by (simp add: fork_init_def present_def split: if_splits)
  qed (use assms(2) in \<open>simp_all add: fork_init_def\<close>)
  then show "before_gap forked k InFd 0 t" and "parent t = PWait" by simp_all
qed

lemma gap_step:
  assumes gap: "first_missing forked k" and at: "before_gap forked k p v s" and step: "ring_step s t"
  shows "\<exists>q w. before_gap forked k q w t" and "gap_mu k t < gap_mu k s"
proof -
  have k: "k < THREADS" "{..<k} \<subseteq> forked" "k \<notin> forked" "forked \<subseteq> {..<THREADS}"
    using gap by (auto simp: first_missing_def)
  have move: "(\<exists>q w. before_gap forked k q w t) \<and> gap_mu k t < gap_mu k s"
    if "before_gap forked k q w t" "parent t = parent s" "progress t = progress s + 1" for q w
  proof -
    have "progress t \<le> 3 * (k + 1)"
      using that(1) progress_gap[OF that(1) k(1)] by (cases q) (auto simp: before_gap_def)
    then have "gap_mu k t < gap_mu k s"
      using that(2,3) at by (cases "parent s") (auto simp: gap_mu_def before_gap_def)
    then show ?thesis using that(1) by blast
  qed
  from step have "(\<exists>q w. before_gap forked k q w t) \<and> gap_mu k t < gap_mu k s"
  proof cases
    case (child_read i x e)
    have "p = InFd \<and> i = v"
    proof (rule ccontr)
      assume "\<not> (p = InFd \<and> i = v)"
      then have "fds s i = plain_efd 0" using at by (simp add: before_gap_def)
      then show False using child_read(4) by simp
    qed
    then have p: "p = InFd" "i = v" by simp_all
    then have "fds s i = plain_efd (Suc v)" using at by (simp add: before_gap_def)
    then have "x = Suc v" "e = plain_efd 0" using child_read(4) by simp_all
    note p = p this
    have "pcs s v = present forked v" "v \<le> k" using at p(1) by (simp_all add: before_gap_def)
    then have "v \<noteq> k" using child_read(3) k(3) p(2) by (auto simp: present_def)
    then have "v < k" using \<open>v \<le> k\<close> by simp
    have t: "t = s\<lparr>fds := (fds s)(v := plain_efd 0), pcs := (pcs s)(v := AtPrint (Suc v))\<rparr>" using child_read(1) p by simp
    have "before_gap forked k Received v t"
      using at p(1) \<open>v < k\<close> unfolding t by (simp add: before_gap_def fun_eq_iff)
    then show ?thesis using p progress_gap[OF at k(1)] progress_gap[of forked k Received v t] k(1) child_read(1)
      by (intro move[of Received v]) simp_all
  next
    case (child_print i x)
    then have p: "p = Received" "i = v" "x = Suc v"
      using at by (auto simp: before_gap_def present_def split: place.splits if_splits)
    have "Suc v \<le> N_LAST" using at k(1) p by (simp add: before_gap_def N_LAST_def THREADS_def)
    then have "before_gap forked k Handled v t" using at child_print p by (simp add: before_gap_def)
    then show ?thesis using p progress_gap[OF at k(1)] progress_gap[of forked k Handled v t] k(1) child_print(1)
      by (intro move[of Handled v]) simp_all
  next
    case (child_write i x nxt e)
    then have p: "p = Handled" "i = v" "x = Suc v + 1"
      using at by (auto simp: before_gap_def present_def split: place.splits if_splits)
    have v: "v < k" using at p by (simp add: before_gap_def)
    then have "nxt = Suc v" "\<not> x > N_LAST" using p k(1) child_write(4) by (simp_all add: N_LAST_def THREADS_def)
    moreover have "fds s nxt = plain_efd 0" using at p(1) by (simp add: before_gap_def)
    then have "e = plain_efd (Suc (Suc v))"
      using child_write(5) p(3) plain_efd_write_Some[of "Suc v + 1" 0 e] by simp
    moreover have "v \<in> forked" using v k(2) by auto
    ultimately have "before_gap forked k InFd (Suc v) t"
      using at child_write(1) p v by (simp add: before_gap_def present_def fun_eq_iff)
    then show ?thesis using p progress_gap[OF at k(1)] progress_gap[of forked k InFd "Suc v" t] k(1) child_write(1)
      by (intro move[of InFd "Suc v"]) simp_all
  next
    case (parent_reap i)
    then show ?thesis using at by (auto simp: before_gap_def present_def split: place.splits if_splits)
  next
    case parent_done
    then have "forked = {}" using at k(4) by (auto simp: before_gap_def)
    then have "before_gap forked k p v t" using at parent_done by (simp add: before_gap_def)
    moreover have "gap_mu k t < gap_mu k s" using parent_done by (simp add: gap_mu_def progress_def)
    ultimately show ?thesis by blast
  qed (use at in \<open>simp add: before_gap_def\<close>)
  then show "\<exists>q w. before_gap forked k q w t" and "gap_mu k t < gap_mu k s" by simp_all
qed

lemma gap_inv_step:
  assumes "gap_inv forked k s" and "first_missing forked k" and "ring_step s t"
  shows "gap_inv forked k t" and "gap_mu k t < gap_mu k s"
proof -
  have k: "k < THREADS" using assms(2) by (simp add: first_missing_def)
  have "gap_inv forked k t \<and> gap_mu k t < gap_mu k s"
  proof (cases "fork_init forked s")
    case True
    note t = gap_start[OF assms(2) True assms(3)]
    have "gap_mu k s = 3 * k + 2" using True by (simp add: gap_mu_def fork_init_def)
    moreover have "gap_mu k t = 3 * k + 1" using progress_gap[OF t(1) k] t(2) by (simp add: gap_mu_def)
    ultimately show ?thesis using t(1) by (auto simp: gap_inv_def)
  next
    case False
    then obtain p v where "before_gap forked k p v s" using assms(1) by (auto simp: gap_inv_def)
    from gap_step[OF assms(2) this assms(3)] show ?thesis by (simp add: gap_inv_def)
  qed
  then show "gap_inv forked k t" and "gap_mu k t < gap_mu k s" by simp_all
qed

lemma gap_inv_init: "fork_init forked s \<Longrightarrow> gap_inv forked k s"
  by (simp add: gap_inv_def)

interpretation gap: terminating_system "\<lambda>s. fork_init forked s \<and> first_missing forked k" ring_step
    "\<lambda>s. gap_inv forked k s \<and> first_missing forked k" "gap_mu k" for forked k
  by unfold_locales (auto intro: gap_inv_step gap_inv_init)


subsection \<open>The property\<close>




end
