(* ===== verification/Divisors.thy ===== *)
theory Divisors
  imports Transition Eventfd "HOL-Library.Multiset"
begin

text \<open>
  \<open>src/fork/divisors/main.c\<close>: eight processes each try an eighth of the candidates up to the square
  root of a number and put the divisors they find into an array in shared memory, taking a slot by
  an atomic increment; requests and answers travel over eventfds.  The arithmetic is over 64-bit
  words; the step relation interleaves the processes at their accesses to shared objects.
  \<open>root\<close> is the value of \<open>(uint64_t)(sqrtl((long double)value) + 1)\<close>; its rounding is a hypothesis.  An eventfd refuses
  the value \<open>2 ^ 64 - 1\<close>, which \<open>check_result\<close> only reports.  A store behind the array is undefined behaviour: it
  sets \<open>overrun\<close>, after which there is no step.
\<close>

subsection \<open>The search of one process\<close>

definition THREADS :: nat where "THREADS = 8"
definition MAX_RESPONSES :: nat where "MAX_RESPONSES = 64"

definition range_of :: "uint64 \<Rightarrow> nat \<Rightarrow> uint64 \<times> uint64" where
  "range_of root ident =
     (let step = (root + of_nat THREADS - 1) div of_nat THREADS;
          l = step * of_nat ident;
          r = step * (of_nat ident + 1)
      in (if l < 2 then 2 else l, r))"

text \<open>The responses that the loop over \<open>i\<close> produces, in order.\<close>

function search :: "uint64 \<Rightarrow> uint64 \<Rightarrow> uint64 \<Rightarrow> uint64 list" where
  "search val i r =
     (if i < r \<and> i * i \<le> val
      then (if val mod i = 0 then [i, val div i] else []) @ search val (i + 1) r
      else [])"
  by pat_completeness auto
termination
proof (relation "measure (\<lambda>(val, i, r). unat r - unat i)", goal_cases)
  case (2 val i r)
  then have "unat i < unat r" by (simp add: word_less_nat_alt)
  moreover from this have "unat (i + 1) = unat i + 1"
    using unat_less_2p[of r] by (intro unat_add_fits[THEN trans]) simp_all
  ultimately show ?case by simp
qed simp

declare search.simps [simp del]

definition responses_of :: "uint64 \<Rightarrow> uint64 \<Rightarrow> nat \<Rightarrow> uint64 list" where
  "responses_of root val ident = (case range_of root ident of (l, r) \<Rightarrow> search val l r)"

subsection \<open>One request\<close>

datatype worker_pc =
    WRead
  | WRun uint64 "uint64 list"                 \<comment> \<open>value, responses still to report\<close>
  | WSlot uint64 nat uint64 "uint64 list"     \<comment> \<open>value, slot taken, response for it, rest\<close>

datatype main_pc = Sending nat | Receiving nat | Finished

record Context =
  response_size :: nat
  responses :: "uint64 list"

record div_state =
  input_fd :: "nat \<Rightarrow> eventfd"
  output_fd :: "nat \<Rightarrow> eventfd"
  workers :: "nat \<Rightarrow> worker_pc"
  main_pc :: main_pc
  ctx :: Context
  overrun :: bool  \<comment> \<open>an access behind the array has happened\<close>
  listing :: "uint64 list"

text \<open>After \<open>scanf\<close> and the reset of \<open>response_size\<close>.\<close>

definition div_init :: "div_state \<Rightarrow> bool" where
  "div_init s \<longleftrightarrow>
     (\<forall>i < THREADS. input_fd s i = plain_efd 0 \<and> output_fd s i = plain_efd 0 \<and> workers s i = WRead) \<and> main_pc s = Sending 0 \<and> response_size (ctx s) = 0 \<and>
     length (responses (ctx s)) = MAX_RESPONSES \<and> \<not> overrun s"

inductive div_step :: "uint64 \<Rightarrow> uint64 \<Rightarrow> div_state \<Rightarrow> div_state \<Rightarrow> bool" for root x where
  main_send: "main_pc s = Sending i \<Longrightarrow> i < THREADS \<Longrightarrow> efd_write (unat x) (input_fd s i) = Some e \<Longrightarrow> \<not> overrun s \<Longrightarrow>
    div_step root x s (s\<lparr>input_fd := (input_fd s)(i := e), main_pc := Sending (i + 1)\<rparr>)"
| main_send_fails: "main_pc s = Sending i \<Longrightarrow> i < THREADS \<Longrightarrow> unat x = 2 ^ 64 - 1 \<Longrightarrow> \<not> overrun s \<Longrightarrow>
    div_step root x s (s\<lparr>main_pc := Sending (i + 1)\<rparr>)"
| main_sent: "main_pc s = Sending i \<Longrightarrow> \<not> i < THREADS \<Longrightarrow> \<not> overrun s \<Longrightarrow>
    div_step root x s (s\<lparr>main_pc := Receiving 0\<rparr>)"
| main_receive: "main_pc s = Receiving i \<Longrightarrow> i < THREADS \<Longrightarrow> efd_read (output_fd s i) = Some (v, e) \<Longrightarrow> \<not> overrun s \<Longrightarrow>
    div_step root x s (s\<lparr>output_fd := (output_fd s)(i := e), main_pc := Receiving (i + 1)\<rparr>)"
| main_list: "main_pc s = Receiving i \<Longrightarrow> \<not> i < THREADS \<Longrightarrow> response_size (ctx s) \<le> MAX_RESPONSES \<Longrightarrow> \<not> overrun s \<Longrightarrow>
    div_step root x s (s\<lparr>main_pc := Finished, listing := take (response_size (ctx s)) (responses (ctx s))\<rparr>)"
| main_overrun: "main_pc s = Receiving i \<Longrightarrow> \<not> i < THREADS \<Longrightarrow> MAX_RESPONSES < response_size (ctx s) \<Longrightarrow> \<not> overrun s \<Longrightarrow>
    div_step root x s (s\<lparr>overrun := True\<rparr>)"
| worker_read: "j < THREADS \<Longrightarrow> workers s j = WRead \<Longrightarrow> efd_read (input_fd s j) = Some (v, e) \<Longrightarrow> \<not> overrun s \<Longrightarrow>
    div_step root x s (s\<lparr>input_fd := (input_fd s)(j := e),
      workers := (workers s)(j := if v = 0 then WRead else WRun (of_nat v) (responses_of root (of_nat v) j))\<rparr>)"
| worker_take: "j < THREADS \<Longrightarrow> workers s j = WRun v (y # ys) \<Longrightarrow> \<not> overrun s \<Longrightarrow>
    div_step root x s (s\<lparr>ctx := (ctx s)\<lparr>response_size := response_size (ctx s) + 1\<rparr>,
      workers := (workers s)(j := WSlot v (response_size (ctx s)) y ys)\<rparr>)"
| worker_store: "j < THREADS \<Longrightarrow> workers s j = WSlot v k y ys \<Longrightarrow> k < MAX_RESPONSES \<Longrightarrow> \<not> overrun s \<Longrightarrow>
    div_step root x s (s\<lparr>ctx := (ctx s)\<lparr>responses := (responses (ctx s))[k := y]\<rparr>,
      workers := (workers s)(j := WRun v ys)\<rparr>)"
| worker_overrun: "j < THREADS \<Longrightarrow> workers s j = WSlot v k y ys \<Longrightarrow> MAX_RESPONSES \<le> k \<Longrightarrow> \<not> overrun s \<Longrightarrow>
    div_step root x s (s\<lparr>overrun := True\<rparr>)"
| worker_answer: "j < THREADS \<Longrightarrow> workers s j = WRun v [] \<Longrightarrow> efd_write (unat v) (output_fd s j) = Some e \<Longrightarrow> \<not> overrun s \<Longrightarrow>
    div_step root x s (s\<lparr>output_fd := (output_fd s)(j := e), workers := (workers s)(j := WRead)\<rparr>)"

subsection \<open>The candidates are divided without gap or overlap\<close>

text \<open>The listing that one loop over all candidates from \<open>a\<close> below \<open>b\<close> would give.\<close>

definition divisor_pairs :: "nat \<Rightarrow> nat \<Rightarrow> nat \<Rightarrow> nat list" where
  "divisor_pairs v a b = concat (map (\<lambda>i. [i, v div i]) (filter (\<lambda>i. i dvd v) [a..<b]))"

lemma divisor_pairs_append: "a \<le> b \<Longrightarrow> b \<le> c \<Longrightarrow> divisor_pairs v a b @ divisor_pairs v b c = divisor_pairs v a c"
proof -
  assume "a \<le> b" "b \<le> c"
  then have "[a..<c] = [a..<b] @ [b..<c]" by (metis le_add_diff_inverse upt_add_eq_append)
  then show ?thesis by (simp add: divisor_pairs_def)
qed

text \<open>\<open>q\<close> is the integer square root of \<open>v\<close>.\<close>

definition is_isqrt :: "nat \<Rightarrow> nat \<Rightarrow> bool" where
  "is_isqrt q v \<longleftrightarrow> q * q \<le> v \<and> v < (q + 1) * (q + 1)"

lemma is_isqrt_le: "is_isqrt q v \<Longrightarrow> i * i \<le> v \<longleftrightarrow> i \<le> q"
proof
  assume q: "is_isqrt q v" and "i * i \<le> v"
  then have "i * i < (q + 1) * (q + 1)" by (simp add: is_isqrt_def)
  then show "i \<le> q" using mult_le_mono[of "q + 1" i "q + 1" i] by linarith
next
  assume q: "is_isqrt q v" and "i \<le> q"
  then have "i * i \<le> q * q" by (intro mult_le_mono)
  then show "i * i \<le> v" using q by (simp add: is_isqrt_def)
qed

lemma search_pairs:
  assumes r: "unat r \<le> 2 ^ 32" and "0 < unat i" and q: "is_isqrt q (unat val)"
  shows "map unat (search val i r) = divisor_pairs (unat val) (unat i) (max (unat i) (min (unat r) (q + 1)))"
  using assms
proof (induction val i r rule: search.induct)
  case (1 val i r)
  show ?case
  proof (cases "i < r")
    case True
    then have lt: "unat i < unat r" by (simp add: word_less_nat_alt)
    have "unat i * unat i < 2 ^ 32 * 2 ^ 32" using lt 1(2) by (intro mult_strict_mono) auto
    then have sq: "unat (i * i) = unat i * unat i" using unat_mult_lem[of i i] by simp
    have le: "i * i \<le> val \<longleftrightarrow> unat i \<le> q"
      by (simp add: word_le_nat_alt sq is_isqrt_le[OF 1(4)])
    have Suc: "unat (i + 1) = Suc (unat i)"
      using lt unat_less_2p[of r] by (intro unat_add_fits[THEN trans]) simp_all
    show ?thesis
    proof (cases "i * i \<le> val")
      case in_range: True
      have dv: "val mod i = 0 \<longleftrightarrow> unat i dvd unat val"
        by (simp add: dvd_eq_mod_eq_0 unat_mod [symmetric] unat_eq_zero)
      let ?b = "max (Suc (unat i)) (min (unat r) (q + 1))"
      have b: "?b = max (unat i) (min (unat r) (q + 1))" using lt in_range le by simp
      have ih: "map unat (search val (i + 1) r) = divisor_pairs (unat val) (Suc (unat i)) ?b"
        using 1 True in_range Suc by simp
      have "map unat (search val i r) =
          divisor_pairs (unat val) (unat i) (Suc (unat i)) @ divisor_pairs (unat val) (Suc (unat i)) ?b"
        using True in_range dv ih by (subst search.simps) (simp add: divisor_pairs_def unat_div)
      then show ?thesis using divisor_pairs_append[of "unat i" "Suc (unat i)" ?b] b by simp
    next
      case False
      then show ?thesis using le by (subst search.simps) (simp add: divisor_pairs_def)
    qed
  next
    case False
    then have "unat r \<le> unat i" by (simp add: word_less_nat_alt)
    then show ?thesis using False by (subst search.simps) (simp add: divisor_pairs_def)
  qed
qed

text \<open>
  What the code relies on in \<open>sqrtl\<close>.  A \<open>long double\<close> has 64 bits of precision and results are rounded to the nearest, so
  the sum with 1 is off by less than \<open>3 / 2 ^ 33\<close>; it reaches \<open>q + 2\<close> only when \<open>val\<close> is next to \<open>(q + 1) * (q + 1)\<close>.
\<close>

definition root_ok :: "uint64 \<Rightarrow> nat \<Rightarrow> nat \<Rightarrow> bool" where
  "root_ok root q val \<longleftrightarrow> is_isqrt q val \<and> q + 1 \<le> unat root \<and> unat root \<le> q + 2 \<and>
     (unat root = q + 2 \<longrightarrow> (q + 1) * (q + 1) \<le> val + 2)"

text \<open>The ranges tile the candidates: process \<open>ident\<close> gets those from \<open>step * ident\<close> below \<open>step * (ident + 1)\<close>.\<close>

definition step_of :: "uint64 \<Rightarrow> nat" where
  "step_of root = (unat root + 7) div 8"

lemma isqrt_small:
  assumes "is_isqrt q val" and "val < 2 ^ 64"
  shows "q < 2 ^ 32"
proof (rule ccontr)
  assume "\<not> q < 2 ^ 32"
  then have "2 ^ 32 * 2 ^ 32 \<le> q * q" by (intro mult_le_mono) simp_all
  then show False using assms by (simp add: is_isqrt_def)
qed

lemma range_of_nat:
  assumes "unat root \<le> 2 ^ 32 + 1" and "ident < THREADS"
  shows "unat (fst (range_of root ident)) = max 2 (step_of root * ident)"
    and "unat (snd (range_of root ident)) = step_of root * (ident + 1)"
proof -
  have "unat (root + 8) = unat root + 8" using assms(1) by (subst unat_add_fits) simp_all
  then have "unat (root + 8 - 1) = unat root + 7"
    by (subst unat_sub_le) (simp_all add: word_le_nat_alt)
  then have step: "unat ((root + of_nat THREADS - 1) div of_nat THREADS) = step_of root"
    by (simp add: THREADS_def step_of_def unat_div)
  have s: "step_of root \<le> 2 ^ 29 + 1" using assms(1) by (simp add: step_of_def)
  have i: "ident + 1 \<le> 8" using assms(2) by (simp add: THREADS_def)
  have "step_of root * (ident + 1) \<le> (2 ^ 29 + 1) * 8" using s i by (rule mult_le_mono)
  then have bound: "step_of root * (ident + 1) \<le> 2 ^ 33" by simp
  have u: "unat (of_nat ident :: uint64) = ident" "unat (of_nat ident + 1 :: uint64) = ident + 1"
  proof -
    show a: "unat (of_nat ident :: uint64) = ident" using i by (intro unat_of_nat_fits) simp
    then show "unat (of_nat ident + 1 :: uint64) = ident + 1" using i by (subst unat_add_fits) simp_all
  qed
  show "unat (snd (range_of root ident)) = step_of root * (ident + 1)"
    using bound step u(2) unat_mult_lem[of "(root + of_nat THREADS - 1) div of_nat THREADS" "of_nat ident + 1"]
    by (simp add: range_of_def Let_def)
  have "step_of root * ident \<le> 2 ^ 33" using bound by simp
  then have "unat ((root + of_nat THREADS - 1) div of_nat THREADS * of_nat ident) = step_of root * ident"
    using step u(1) unat_mult_lem[of "(root + of_nat THREADS - 1) div of_nat THREADS" "of_nat ident"] by simp
  then show "unat (fst (range_of root ident)) = max 2 (step_of root * ident)"
    by (auto simp: range_of_def Let_def word_less_nat_alt)
qed

text \<open>
  One range can leave 32 bits, where \<open>i * i\<close> wraps to a small number and the loop goes on: the last of \<open>2 ^ 64 - 2\<close>, with
  the candidates \<open>2 ^ 32\<close> to \<open>2 ^ 32 + 7\<close>.  None of them divides.
\<close>

lemma search_split:
  assumes "i \<le> k" and "k \<le> r" and "\<forall>j. i \<le> j \<and> j < k \<longrightarrow> j * j \<le> val"
  shows "search val i r = search val i k @ search val k r"
  using assms
proof (induction val i k rule: search.induct)
  case (1 val i k)
  show ?case
  proof (cases "i < k")
    case True
    then have go: "i < r" "i * i \<le> val" using 1(3,4) by auto
    have nxt: "unat (i + 1) = unat i + 1"
      using True unat_less_2p[of k] by (intro unat_add_fits[THEN trans]) (simp_all add: word_less_nat_alt)
    then have "i + 1 \<le> k" using True by (simp add: word_less_nat_alt word_le_nat_alt)
    moreover have "\<forall>j. i + 1 \<le> j \<and> j < k \<longrightarrow> j * j \<le> val"
      using 1(4) nxt by (simp add: word_le_nat_alt[of i] word_le_nat_alt[of "i + 1"])
    ultimately show ?thesis
      using 1 True go by (simp add: search.simps[of val i r] search.simps[of val i k])
  next
    case False
    then have "i = k" using 1(2) by simp
    then show ?thesis by (simp add: search.simps[of val k k])
  qed
qed

lemma wrapped_candidates: "search 0xFFFFFFFFFFFFFFFE 0x100000000 0x100000008 = []"
  by (simp add: search.simps)

lemma responses_of_pairs:
  assumes root: "root_ok root q (unat val)" and "unat val \<le> 2 ^ 64 - 2" and ident: "ident < THREADS"
  shows "map unat (responses_of root val ident) =
    divisor_pairs (unat val) (max 2 (step_of root * ident))
      (max (max 2 (step_of root * ident)) (min (step_of root * (ident + 1)) (q + 1)))"
proof -
  have q: "is_isqrt q (unat val)" "q < 2 ^ 32" and le: "unat root \<le> 2 ^ 32 + 1"
    using root assms(2) isqrt_small[of q "unat val"] by (auto simp: root_ok_def)
  obtain l r where lr: "range_of root ident = (l, r)" by (cases "range_of root ident")
  have l: "unat l = max 2 (step_of root * ident)" and r: "unat r = step_of root * (ident + 1)"
    using range_of_nat[OF le ident] lr by simp_all
  show ?thesis
  proof (cases "unat r \<le> 2 ^ 32")
    case True
    then show ?thesis using search_pairs[of r l q val] q(1) l r lr by (simp add: responses_of_def)
  next
    case False
    have i8: "ident + 1 \<le> 8" using ident by (simp add: THREADS_def)
    have "\<not> unat root \<le> 2 ^ 32"
    proof
      assume "unat root \<le> 2 ^ 32"
      then have "step_of root \<le> 2 ^ 29" by (simp add: step_of_def)
      then have "unat r \<le> 2 ^ 29 * 8" unfolding r using i8 by (intro mult_le_mono)
      then show False using False by simp
    qed
    then have r1: "unat root = 2 ^ 32 + 1" and q1: "q + 1 = 2 ^ 32" using root q(2) le by (auto simp: root_ok_def)
    have "unat root = q + 2" using r1 q1 by simp
    then have "(q + 1) * (q + 1) \<le> unat val + 2" using root by (simp add: root_ok_def)
    then have val: "unat val = 2 ^ 64 - 2" unfolding q1 using assms(2) by simp
    have st: "step_of root = 2 ^ 29 + 1" by (simp add: step_of_def r1)
    have "ident = 7"
    proof (rule ccontr)
      assume "ident \<noteq> 7"
      then have "ident + 1 \<le> 7" using i8 by simp
      then have "unat r \<le> (2 ^ 29 + 1) * 7" unfolding r st by (rule mult_le_mono2)
      then show False using False by simp
    qed
    then have lr7: "unat l = (2 ^ 29 + 1) * 7" "unat r = 2 ^ 32 + 8" using l r st by simp_all
    have eqs: "val = 0xFFFFFFFFFFFFFFFE" "r = 0x100000008"
      using val lr7(2) by (simp_all add: word_unat_eq_iff)
    have k: "unat (0x100000000 :: uint64) = 2 ^ 32" by simp
    have "search val l r = search val l 0x100000000 @ search val 0x100000000 r"
    proof (rule search_split)
      show "l \<le> 0x100000000" "0x100000000 \<le> r" using lr7 by (simp_all add: word_le_nat_alt)
      show "\<forall>j. l \<le> j \<and> j < 0x100000000 \<longrightarrow> j * j \<le> val"
      proof (intro allI impI)
        fix j :: uint64 assume "l \<le> j \<and> j < 0x100000000"
        then have "unat j \<le> 2 ^ 32 - 1" by (simp add: word_less_nat_alt)
        then have sq: "unat j * unat j \<le> (2 ^ 32 - 1) * (2 ^ 32 - 1)" by (intro mult_le_mono)
        then have "unat (j * j) = unat j * unat j" using unat_mult_lem[of j j] by simp
        then show "j * j \<le> val" using sq val by (simp add: word_le_nat_alt)
      qed
    qed
    then have "search val l r = search val l 0x100000000" unfolding eqs by (simp add: wrapped_candidates)
    then have "map unat (responses_of root val ident) =
        divisor_pairs (unat val) (unat l) (max (unat l) (min (2 ^ 32) (q + 1)))"
      using search_pairs[of "0x100000000" l q val] q(1) lr7(1) k lr by (simp add: responses_of_def)
    then show ?thesis unfolding l[symmetric] r[symmetric] lr7(2) q1 by simp
  qed
qed

lemma responses_below:
  assumes "root_ok root q (unat val)" and "unat val \<le> 2 ^ 64 - 2"
  shows "n \<le> THREADS \<Longrightarrow> map unat (concat (map (responses_of root val) [0..<n])) =
    divisor_pairs (unat val) 2 (max 2 (min (step_of root * n) (q + 1)))"
proof (induction n)
  case 0
  then show ?case by (simp add: divisor_pairs_def)
next
  case (Suc n)
  let ?S = "step_of root"
  have new: "map unat (responses_of root val n) = divisor_pairs (unat val) (max 2 (?S * n))
      (max (max 2 (?S * n)) (min (?S * (n + 1)) (q + 1)))"
    using responses_of_pairs[OF assms] Suc.prems by simp
  show ?case
  proof (cases "?S * n \<le> q + 1")
    case True
    then have "max (max 2 (?S * n)) (min (?S * (n + 1)) (q + 1)) = max 2 (min (?S * Suc n) (q + 1))"
      "max 2 (min (?S * n) (q + 1)) = max 2 (?S * n)" by (auto simp: min_def max_def)
    moreover have "max 2 (?S * n) \<le> max 2 (min (?S * Suc n) (q + 1))" using True by (auto simp: min_def)
    ultimately show ?thesis
      using Suc new divisor_pairs_append[of 2 "max 2 (?S * n)" "max 2 (min (?S * Suc n) (q + 1))" "unat val"]
      by simp
  next
    case False
    then have "max (max 2 (?S * n)) (min (?S * (n + 1)) (q + 1)) = max 2 (?S * n)"
      "min (?S * n) (q + 1) = q + 1" "min (?S * Suc n) (q + 1) = q + 1" by (auto simp: min_def max_def)
    then show ?thesis using Suc new by (simp add: divisor_pairs_def)
  qed
qed

lemma all_responses:
  assumes "root_ok root q (unat val)" and "unat val \<le> 2 ^ 64 - 2"
  shows "map unat (concat (map (responses_of root val) [0..<THREADS])) = divisor_pairs (unat val) 2 (q + 1)"
proof -
  have "r \<le> (r + 7) div 8 * 8" for r :: nat by presburger
  from order_trans[OF _ this, of "q + 1" "unat root"] have "q + 1 \<le> step_of root * THREADS"
    using assms(1) by (simp add: root_ok_def step_of_def THREADS_def)
  then have "min (step_of root * THREADS) (q + 1) = q + 1" by simp
  moreover have "divisor_pairs (unat val) 2 (max 2 (q + 1)) = divisor_pairs (unat val) 2 (q + 1)"
    by (cases "2 \<le> q + 1") (simp_all add: divisor_pairs_def max_def)
  ultimately show ?thesis using responses_below[OF assms, of THREADS] by simp
qed

text \<open>
  The eight processes together find every divisor pair \<open>(i, val / i)\<close> with \<open>2 \<le> i\<close> and \<open>i * i \<le> val\<close>
  exactly once: listed by process they are what one loop over all candidates lists.
\<close>
theorem divisors_partition:
  assumes "root_ok root q (unat val)" and "unat val \<le> 2 ^ 64 - 2"
  shows "map unat (concat (map (responses_of root val) [0..<THREADS])) =
    concat (map (\<lambda>i. [i, unat val div i]) (filter (\<lambda>i. i dvd unat val) [2..<q + 1]))"
  using all_responses[OF assms] by (simp add: divisor_pairs_def)

theorem divisors_partition_witness:
  "map unat (concat (map (responses_of 7 36) [0..<THREADS])) = [2, 18, 3, 12, 4, 9, 6, 6]"
proof -
  have "map unat (concat (map (responses_of 7 36) [0..<THREADS])) =
      concat (map (\<lambda>i. [i, unat (36 :: uint64) div i]) (filter (\<lambda>i. i dvd unat (36 :: uint64)) [2..<6 + 1]))"
    by (rule divisors_partition) (simp_all add: root_ok_def is_isqrt_def)
  also have "[2..<6 + 1] = [2, 3, 4, 5, 6 :: nat]" by (simp add: upt_rec)
  finally show ?thesis by simp
qed

subsection \<open>The protocol\<close>

text \<open>
  The stages of a process in one request, the ghost \<open>log\<close> of the responses in the order of their
  slots, and the responses each process has still to report.
\<close>

datatype phase = Fresh | Running | Answered

primrec sent :: "main_pc \<Rightarrow> nat \<Rightarrow> bool" where
  "sent (Sending i) j \<longleftrightarrow> j < i" | "sent (Receiving i) j \<longleftrightarrow> True" | "sent Finished j \<longleftrightarrow> True"

primrec received :: "main_pc \<Rightarrow> nat \<Rightarrow> bool" where
  "received (Sending i) j \<longleftrightarrow> False" | "received (Receiving i) j \<longleftrightarrow> j < i" | "received Finished j \<longleftrightarrow> True"

primrec unreported :: "worker_pc \<Rightarrow> uint64 list" where
  "unreported WRead = []" | "unreported (WRun v ys) = ys" | "unreported (WSlot v k y ys) = ys"

primrec busy_with :: "uint64 \<Rightarrow> worker_pc \<Rightarrow> bool" where
  "busy_with x WRead \<longleftrightarrow> False" | "busy_with x (WRun v ys) \<longleftrightarrow> v = x" | "busy_with x (WSlot v k y ys) \<longleftrightarrow> v = x"

primrec holds_slot :: "nat \<Rightarrow> worker_pc \<Rightarrow> bool" where
  "holds_slot k' WRead \<longleftrightarrow> False" | "holds_slot k' (WRun v ys) \<longleftrightarrow> False"
| "holds_slot k' (WSlot v k y ys) \<longleftrightarrow> k = k'"

definition todo :: "phase \<Rightarrow> uint64 list \<Rightarrow> worker_pc \<Rightarrow> uint64 multiset" where
  "todo p resp w = (case p of Fresh \<Rightarrow> mset resp | Running \<Rightarrow> mset (unreported w) | Answered \<Rightarrow> {#})"

definition worker_ok :: "uint64 \<Rightarrow> div_state \<Rightarrow> phase \<Rightarrow> nat \<Rightarrow> bool" where
  "worker_ok x s p j \<longleftrightarrow> (case p of
     Fresh \<Rightarrow> workers s j = WRead \<and> input_fd s j = plain_efd (if sent (main_pc s) j then unat x else 0) \<and>
       output_fd s j = plain_efd 0 \<and> \<not> received (main_pc s) j
   | Running \<Rightarrow> busy_with x (workers s j) \<and> input_fd s j = plain_efd 0 \<and> output_fd s j = plain_efd 0 \<and>
       sent (main_pc s) j \<and> \<not> received (main_pc s) j
   | Answered \<Rightarrow> workers s j = WRead \<and> input_fd s j = plain_efd 0 \<and> sent (main_pc s) j \<and>
       output_fd s j = plain_efd (if received (main_pc s) j then 0 else unat x))"

definition log_ok :: "div_state \<Rightarrow> uint64 list \<Rightarrow> bool" where
  "log_ok s log \<longleftrightarrow> length log = response_size (ctx s) \<and> length (responses (ctx s)) = MAX_RESPONSES \<and>
     (\<forall>j < THREADS. \<forall>v k y ys. workers s j = WSlot v k y ys \<longrightarrow> k < length log \<and> log ! k = y) \<and>
     (\<forall>j < THREADS. \<forall>j' < THREADS. \<forall>k. holds_slot k (workers s j) \<longrightarrow> holds_slot k (workers s j') \<longrightarrow> j = j') \<and>
     (\<forall>k < length log. k < MAX_RESPONSES \<and> responses (ctx s) ! k = log ! k \<or>
        (\<exists>j < THREADS. holds_slot k (workers s j)) \<or> overrun s) \<and>
     (overrun s \<longrightarrow> MAX_RESPONSES < length log)"

definition pcs_in_range :: "main_pc \<Rightarrow> bool" where
  "pcs_in_range m \<longleftrightarrow> (case m of Sending i \<Rightarrow> i \<le> THREADS | Receiving i \<Rightarrow> i \<le> THREADS | Finished \<Rightarrow> True)"

definition all_found :: "uint64 \<Rightarrow> uint64 \<Rightarrow> uint64 multiset" where
  "all_found root x = (\<Sum>j<THREADS. mset (responses_of root x j))"

definition div_inv :: "uint64 \<Rightarrow> uint64 \<Rightarrow> div_state \<Rightarrow> bool" where
  "div_inv root x s \<longleftrightarrow> pcs_in_range (main_pc s) \<and>
     (\<exists>ph log. (\<forall>j < THREADS. worker_ok x s (ph j) j) \<and> log_ok s log \<and>
        mset log + (\<Sum>j<THREADS. todo (ph j) (responses_of root x j) (workers s j)) = all_found root x) \<and>
     (main_pc s = Finished \<longrightarrow> \<not> overrun s \<and> response_size (ctx s) \<le> MAX_RESPONSES \<and>
        listing s = take (response_size (ctx s)) (responses (ctx s)))"

text \<open>A step of process \<open>j\<close> that moves it to stage \<open>p\<close> and state \<open>w\<close>.\<close>

lemma account_upd:
  assumes "j < THREADS"
    and "mset log + (\<Sum>i<THREADS. todo (ph i) (resp i) (ws i)) = tot"
    and "mset log' + todo p (resp j) w = mset log + todo (ph j) (resp j) (ws j)"
  shows "mset log' + (\<Sum>i<THREADS. todo ((ph(j := p)) i) (resp i) ((ws(j := w)) i)) = tot"
proof -
  let ?f = "\<lambda>i. todo (ph i) (resp i) (ws i)"
  let ?g = "\<Sum>i<THREADS. todo ((ph(j := p)) i) (resp i) ((ws(j := w)) i)"
  have "?g = (\<Sum>i<THREADS. (?f(j := todo p (resp j) w)) i)" by (rule sum.cong) simp_all
  then have "?g + ?f j = (\<Sum>i<THREADS. ?f i) + todo p (resp j) w"
    using sum_upd[OF assms(1), of ?f "todo p (resp j) w"] by (simp only:)
  then have "mset log' + ?g + ?f j = mset log' + ((\<Sum>i<THREADS. ?f i) + todo p (resp j) w)"
    by (simp only: add.assoc)
  also have "\<dots> = (mset log' + todo p (resp j) w) + (\<Sum>i<THREADS. ?f i)" by (simp add: ac_simps)
  also have "\<dots> = (mset log + (\<Sum>i<THREADS. ?f i)) + ?f j" by (simp add: assms(3) ac_simps)
  finally show ?thesis using assms(2) by simp
qed

lemma div_inv_init: "div_init s \<Longrightarrow> div_inv root x s"
  unfolding div_inv_def
  by (intro conjI exI[of _ "\<lambda>_. Fresh"] exI[of _ "[]"])
    (simp_all add: div_init_def pcs_in_range_def worker_ok_def log_ok_def todo_def all_found_def)

lemma reader_stage:
  assumes "worker_ok x s p j" and "workers s j = WRead" and "efd_read (input_fd s j) = Some (v, e)"
  shows "p = Fresh \<and> sent (main_pc s) j \<and> v = unat x \<and> e = plain_efd 0"
  using assms by (auto simp: worker_ok_def split: phase.splits if_splits)

lemma busy_stage:
  assumes "worker_ok x s p j" and "workers s j \<noteq> WRead"
  shows "p = Running \<and> busy_with x (workers s j)"
  using assms by (auto simp: worker_ok_def split: phase.splits)

lemma worker_ok_cong:
  "sent (main_pc t) i = sent (main_pc s) i \<Longrightarrow> received (main_pc t) i = received (main_pc s) i \<Longrightarrow>
     input_fd t i = input_fd s i \<Longrightarrow> output_fd t i = output_fd s i \<Longrightarrow>
     workers t i = workers s i \<Longrightarrow> worker_ok x t p i = worker_ok x s p i"
  unfolding worker_ok_def by (simp only:)

lemma workers_elsewhere:
  assumes "\<forall>i < THREADS. worker_ok x s (ph i) i"
    and "main_pc t = main_pc s" "\<forall>i. i \<noteq> j \<longrightarrow> input_fd t i = input_fd s i \<and> output_fd t i = output_fd s i \<and> workers t i = workers s i"
    and "worker_ok x t p j"
  shows "\<forall>i < THREADS. worker_ok x t ((ph(j := p)) i) i"
proof (intro allI impI)
  fix i assume i: "i < THREADS"
  show "worker_ok x t ((ph(j := p)) i) i"
  proof (cases "i = j")
    case False
    then have "worker_ok x t (ph i) i = worker_ok x s (ph i) i" using assms(2,3) by (intro worker_ok_cong) simp_all
    then show ?thesis using False assms(1) i by simp
  qed (use assms(4) in simp)
qed

text \<open>A step of process \<open>j\<close> keeps the invariant if it keeps the conditions that concern \<open>j\<close>.\<close>

lemma div_inv_worker:
  assumes inv: "div_inv root x s" and j: "j < THREADS"
    and old: "\<forall>i < THREADS. worker_ok x s (ph i) i" "log_ok s log"
      "mset log + (\<Sum>i<THREADS. todo (ph i) (responses_of root x i) (workers s i)) = all_found root x"
    and busy: "ph j \<noteq> Answered"
    and frame: "main_pc t = main_pc s" "\<forall>i. i \<noteq> j \<longrightarrow> input_fd t i = input_fd s i \<and> output_fd t i = output_fd s i"
      "workers t = (workers s)(j := w)"
    and new: "worker_ok x t p j" "log_ok t log'"
      "mset log' + todo p (responses_of root x j) w = mset log + todo (ph j) (responses_of root x j) (workers s j)"
  shows "div_inv root x t"
proof -
  have "\<forall>i < THREADS. worker_ok x t ((ph(j := p)) i) i"
    by (rule workers_elsewhere[OF old(1) frame(1) _ new(1)]) (use frame in simp)
  moreover have "mset log' + (\<Sum>i<THREADS. todo ((ph(j := p)) i) (responses_of root x i) (workers t i)) = all_found root x"
    unfolding frame(3) by (rule account_upd[OF j old(3) new(3)])
  moreover have "main_pc s \<noteq> Finished"
    using old(1) j busy by (cases "ph j") (auto simp: worker_ok_def)
  ultimately show ?thesis
    using inv new(2) frame(1) unfolding div_inv_def by auto
qed

text \<open>Taking a slot appends to the log; a store fills in the slot taken.\<close>

lemma log_take:
  assumes log: "log_ok s log" and j: "j < THREADS" and w: "workers s j = WRun v (y # ys)"
  shows "log_ok (s\<lparr>ctx := (ctx s)\<lparr>response_size := response_size (ctx s) + 1\<rparr>,
      workers := (workers s)(j := WSlot v (response_size (ctx s)) y ys)\<rparr>) (log @ [y])"
proof -
  have n: "length log = response_size (ctx s)" using log by (simp add: log_ok_def)
  have held: "k < length log" if "i < THREADS" "holds_slot k (workers s i)" for i k
    using log that by (cases "workers s i") (auto simp: log_ok_def)
  have free: "\<not> holds_slot k (workers s j)" for k using w by simp
  show ?thesis
    unfolding log_ok_def
  proof (intro conjI allI impI, goal_cases)
    case (5 i i' k)
    have "holds_slot k (workers s i)" if "i \<noteq> j" using 5 that by simp
    moreover have "holds_slot k (workers s i')" if "i' \<noteq> j" using 5 that by simp
    moreover have "k = length log" if "i = j \<or> i' = j" using 5 that n by auto
    ultimately show ?case using held 5(1,2) log unfolding log_ok_def by (metis less_irrefl)
  next
    case (6 k)
    show ?case
    proof (cases "k = length log")
      case True
      then show ?thesis using j n by (auto intro: exI[of _ j])
    next
      case False
      then have "k < length log" using 6 by simp
      then have "k < MAX_RESPONSES \<and> responses (ctx s) ! k = log ! k \<or> (\<exists>i < THREADS. holds_slot k (workers s i)) \<or> overrun s"
        using log unfolding log_ok_def by blast
      then have "k < MAX_RESPONSES \<and> responses (ctx s) ! k = log ! k \<or>
          (\<exists>i < THREADS. i \<noteq> j \<and> holds_slot k (workers s i)) \<or> overrun s"
        using free by metis
      then show ?thesis using \<open>k < length log\<close> by (auto simp: nth_append)
    qed
  qed (use log n in \<open>auto simp: log_ok_def nth_append split: if_splits\<close>)
qed

lemma log_store:
  assumes log: "log_ok s log" and j: "j < THREADS" and w: "workers s j = WSlot v k y ys" and fits: "k < MAX_RESPONSES"
  shows "log_ok (s\<lparr>ctx := (ctx s)\<lparr>responses := (responses (ctx s))[k := y]\<rparr>,
      workers := (workers s)(j := WRun v ys)\<rparr>) log"
proof -
  have k: "k < length log" "log ! k = y" using log j w unfolding log_ok_def by blast+
  have sole: "i = j" if "i < THREADS" "holds_slot k (workers s i)" for i
    using log j w that unfolding log_ok_def by (metis holds_slot.simps(3))
  show ?thesis
    unfolding log_ok_def
  proof (intro conjI allI impI, goal_cases)
    case (6 k')
    show ?case
    proof (cases "k' = k")
      case True
      then show ?thesis using k fits log by (simp add: log_ok_def)
    next
      case False
      have "k' < length log" using 6 by simp
      then have "k' < MAX_RESPONSES \<and> responses (ctx s) ! k' = log ! k' \<or> (\<exists>i < THREADS. holds_slot k' (workers s i)) \<or> overrun s"
        using log unfolding log_ok_def by blast
      then have "k' < MAX_RESPONSES \<and> responses (ctx s) ! k' = log ! k' \<or>
          (\<exists>i < THREADS. i \<noteq> j \<and> holds_slot k' (workers s i)) \<or> overrun s"
        using w False by (metis holds_slot.simps(3))
      then show ?thesis using False by auto
    qed
  qed (use log k in \<open>auto simp: log_ok_def split: if_splits\<close>)
qed

lemma log_overrun:
  assumes "log_ok s log" and "MAX_RESPONSES < length log"
  shows "log_ok (s\<lparr>overrun := True\<rparr>) log"
proof -
  have same: "ctx (s\<lparr>overrun := True\<rparr>) = ctx s" "workers (s\<lparr>overrun := True\<rparr>) = workers s" "overrun (s\<lparr>overrun := True\<rparr>)"
    by simp_all
  show ?thesis using assms same(3) unfolding log_ok_def same(1,2) by blast
qed

lemma log_same:
  assumes "log_ok s log" and "ctx t = ctx s" "overrun t = overrun s"
    and "workers t = (workers s)(j := w)" and "\<forall>k. \<not> holds_slot k (workers s j)" "\<forall>k. \<not> holds_slot k w"
  shows "log_ok t log"
proof -
  have iff: "holds_slot k (workers t i) \<longleftrightarrow> holds_slot k (workers s i)" for i k using assms(4-6) by simp
  have slot: "workers t i = WSlot v k y ys \<longleftrightarrow> workers s i = WSlot v k y ys" for i v k y ys
    using assms(4-6) by (metis fun_upd_apply holds_slot.simps(3))
  show ?thesis using assms(1) unfolding log_ok_def iff slot assms(2,3) .
qed

lemma log_frame:
  assumes "log_ok s log" and "ctx t = ctx s" "overrun t = overrun s" "workers t = workers s"
  shows "log_ok t log"
  unfolding log_ok_def assms(2-4) using assms(1)[unfolded log_ok_def] .

text \<open>The steps of the main process.\<close>

lemma send_stage:
  assumes "worker_ok x s p j" and "\<not> sent (main_pc s) j"
  shows "p = Fresh"
  using assms by (auto simp: worker_ok_def split: phase.splits)

lemma div_inv_main:
  assumes old: "log_ok s log"
      "mset log + (\<Sum>i<THREADS. todo (ph i) (responses_of root x i) (workers s i)) = all_found root x"
    and frame: "ctx t = ctx s" "overrun t = overrun s" "workers t = workers s"
    and new: "\<forall>i < THREADS. worker_ok x t (ph i) i" "pcs_in_range (main_pc t)" "main_pc t \<noteq> Finished"
  shows "div_inv root x t"
  using new old(2) log_frame[OF old(1) frame] frame(3) unfolding div_inv_def by auto

lemma div_inv_overrun:
  assumes "\<forall>i < THREADS. worker_ok x s (ph i) i" "log_ok s log"
      "mset log + (\<Sum>i<THREADS. todo (ph i) (responses_of root x i) (workers s i)) = all_found root x"
    and "pcs_in_range (main_pc s)" "main_pc s \<noteq> Finished" "MAX_RESPONSES < length log"
  shows "div_inv root x (s\<lparr>overrun := True\<rparr>)"
proof -
  have "worker_ok x (s\<lparr>overrun := True\<rparr>) (ph i) i = worker_ok x s (ph i) i" for i by (rule worker_ok_cong) simp_all
  then show ?thesis
    using assms log_overrun[OF assms(2,6)] unfolding div_inv_def by auto
qed

lemma all_answered:
  assumes "\<forall>i < THREADS. worker_ok x s (ph i) i" and "\<forall>i < THREADS. received (main_pc s) i" and "log_ok s log"
    and "mset log + (\<Sum>i<THREADS. todo (ph i) (responses_of root x i) (workers s i)) = all_found root x"
    and "\<not> overrun s"
  shows "mset log = all_found root x"
    and "\<forall>k < length log. k < MAX_RESPONSES \<and> responses (ctx s) ! k = log ! k"
proof -
  have ph: "ph i = Answered \<and> workers s i = WRead" if "i < THREADS" for i
    using assms(1,2) that by (cases "ph i") (auto simp: worker_ok_def)
  have "(\<Sum>i<THREADS. todo (ph i) (responses_of root x i) (workers s i)) = {#}"
    using ph by (intro sum.neutral) (simp add: todo_def)
  then show "mset log = all_found root x" using assms(4) by simp
  show "\<forall>k < length log. k < MAX_RESPONSES \<and> responses (ctx s) ! k = log ! k"
    using assms(3,5) ph unfolding log_ok_def by (metis holds_slot.simps(1))
qed

lemma div_inv_step:
  assumes inv: "div_inv root x s" and step: "div_step root x s t" and x: "x \<noteq> 0" "unat x \<le> 2 ^ 64 - 2"
  shows "div_inv root x t"
proof -
  obtain ph log where w: "\<forall>i < THREADS. worker_ok x s (ph i) i" and log: "log_ok s log"
    and acc: "mset log + (\<Sum>i<THREADS. todo (ph i) (responses_of root x i) (workers s i)) = all_found root x"
    and range: "pcs_in_range (main_pc s)"
    using inv unfolding div_inv_def by blast
  from step show ?thesis
  proof cases
    case (main_send i e)
    have "ph i = Fresh" using send_stage[of x s "ph i" i] w main_send by simp
    then have "worker_ok x s Fresh i" using w main_send by metis
    then have "input_fd s i = plain_efd 0" using main_send by (simp add: worker_ok_def)
    then have "e = plain_efd (unat x)" using main_send by (auto dest!: plain_efd_write_Some)
    have "worker_ok x t (ph j) j" if "j < THREADS" for j
    proof (cases "j = i")
      case True
      then show ?thesis using w main_send \<open>ph i = Fresh\<close> \<open>e = _\<close> by (auto simp: worker_ok_def)
    next
      case False
      then have "sent (main_pc t) j = sent (main_pc s) j" "received (main_pc t) j = received (main_pc s) j"
        using main_send by auto
      then have "worker_ok x t (ph j) j = worker_ok x s (ph j) j"
        using False main_send(1) by (intro worker_ok_cong) simp_all
      then show ?thesis using w that by blast
    qed
    then show ?thesis using main_send by (intro div_inv_main[OF log acc]) (auto simp: pcs_in_range_def)
  next
    case (main_send_fails i)
    then show ?thesis using x(2) by simp
  next
    case (main_sent i)
    have "worker_ok x t (ph j) j" if "j < THREADS" for j
    proof -
      have "sent (main_pc t) j = sent (main_pc s) j" "received (main_pc t) j = received (main_pc s) j"
        using main_sent that by auto
      then have "worker_ok x t (ph j) j = worker_ok x s (ph j) j"
        using main_sent(1) by (intro worker_ok_cong) simp_all
      then show ?thesis using w that by blast
    qed
    then show ?thesis using main_sent by (intro div_inv_main[OF log acc]) (auto simp: pcs_in_range_def)
  next
    case (main_receive i v e)
    have "efd_count (output_fd s i) \<noteq> 0" using main_receive by (auto simp: efd_read_def split: if_splits)
    moreover have "worker_ok x s (ph i) i" using w main_receive by blast
    ultimately have ph: "ph i = Answered" and "output_fd s i = plain_efd (unat x)"
      using main_receive(2,3) by (cases "ph i"; simp add: worker_ok_def)+
    then have e: "e = plain_efd 0" using main_receive by (auto split: if_splits)
    have "worker_ok x t (ph j) j" if "j < THREADS" for j
    proof (cases "j = i")
      case True
      then show ?thesis using w main_receive ph e by (auto simp: worker_ok_def)
    next
      case False
      then have "sent (main_pc t) j = sent (main_pc s) j" "received (main_pc t) j = received (main_pc s) j"
        using main_receive by auto
      then have "worker_ok x t (ph j) j = worker_ok x s (ph j) j"
        using False main_receive(1) by (intro worker_ok_cong) simp_all
      then show ?thesis using w that by blast
    qed
    then show ?thesis using main_receive by (intro div_inv_main[OF log acc]) (auto simp: pcs_in_range_def)
  next
    case (main_list i)
    have "worker_ok x t (ph j) j" if "j < THREADS" for j
    proof -
      have "sent (main_pc t) j = sent (main_pc s) j" "received (main_pc t) j = received (main_pc s) j"
        using main_list that by auto
      then have "worker_ok x t (ph j) j = worker_ok x s (ph j) j"
        using main_list(1) by (intro worker_ok_cong) simp_all
      then show ?thesis using w that by blast
    qed
    moreover have "log_ok t log" using log main_list(1) by (auto simp: log_ok_def)
    ultimately show ?thesis
      using acc main_list unfolding div_inv_def
      by (intro conjI exI[of _ ph] exI[of _ log]) (auto simp: pcs_in_range_def)
  next
    case (main_overrun i)
    have "MAX_RESPONSES < length log" using log main_overrun by (simp add: log_ok_def)
    then show ?thesis unfolding main_overrun(1) using main_overrun(2) by (intro div_inv_overrun[OF w log acc range]) simp_all
  next
    case (worker_read j v e)
    have ph: "ph j = Fresh" "sent (main_pc s) j" "v = unat x" "e = plain_efd 0"
      using reader_stage w worker_read by blast+
    have nz: "v \<noteq> 0" using ph(3) x(1) by (simp add: unat_eq_zero)
    show ?thesis
      by (rule div_inv_worker[OF inv worker_read(2) w log acc, where p = Running and log' = log
            and w = "WRun x (responses_of root x j)"])
        (use ph nz w worker_read in \<open>auto simp: worker_ok_def todo_def intro!: log_same[OF log]\<close>)
  next
    case (worker_take j v y ys)
    have ph: "ph j = Running" "v = x" using busy_stage[of x s "ph j" j] w worker_take by auto
    show ?thesis
      by (rule div_inv_worker[OF inv worker_take(2) w log acc, where p = Running and log' = "log @ [y]"
            and w = "WSlot v (response_size (ctx s)) y ys"])
        (use ph w worker_take log_take[OF log worker_take(2,3)] in \<open>auto simp: worker_ok_def todo_def\<close>)
  next
    case (worker_store j v k y ys)
    have ph: "ph j = Running" "v = x" using busy_stage[of x s "ph j" j] w worker_store by auto
    show ?thesis
      by (rule div_inv_worker[OF inv worker_store(2) w log acc, where p = Running and log' = log and w = "WRun v ys"])
        (use ph w worker_store log_store[OF log worker_store(2-4)] in \<open>auto simp: worker_ok_def todo_def\<close>)
  next
    case (worker_overrun j v k y ys)
    have "k < length log" using log worker_overrun(2,3) unfolding log_ok_def by blast
    moreover have "worker_ok x s (ph j) j" using w worker_overrun(2) by blast
    then have "main_pc s \<noteq> Finished"
      using busy_stage[of x s "ph j" j] worker_overrun(3) by (auto simp: worker_ok_def)
    ultimately show ?thesis
      unfolding worker_overrun(1) using worker_overrun(4) by (intro div_inv_overrun[OF w log acc range]) simp_all
  next
    case (worker_answer j v e)
    have ph: "ph j = Running" "v = x" using busy_stage[of x s "ph j" j] w worker_answer by auto
    have "worker_ok x s Running j" using w worker_answer(2) ph(1) by metis
    then have "output_fd s j = plain_efd 0" by (simp add: worker_ok_def)
    then have e: "e = plain_efd (unat x)" using worker_answer ph(2) by (auto dest!: plain_efd_write_Some)
    show ?thesis
      by (rule div_inv_worker[OF inv worker_answer(2) w log acc, where p = Answered and log' = log and w = WRead])
        (use ph e w worker_answer in \<open>auto simp: worker_ok_def todo_def intro!: log_same[OF log]\<close>)
  qed
qed

subsection \<open>Termination of a request\<close>

primrec main_mu :: "main_pc \<Rightarrow> nat" where
  "main_mu (Sending i) = (THREADS - i) + THREADS + 2"
| "main_mu (Receiving i) = (THREADS - i) + 1"
| "main_mu Finished = 0"

primrec pc_mu :: "worker_pc \<Rightarrow> nat" where
  "pc_mu WRead = 0" | "pc_mu (WRun v ys) = 2 * length ys + 1" | "pc_mu (WSlot v k y ys) = 2 * length ys + 2"

definition worker_mu :: "uint64 \<Rightarrow> uint64 \<Rightarrow> div_state \<Rightarrow> nat \<Rightarrow> nat" where
  "worker_mu root x s j =
     (if \<not> sent (main_pc s) j \<or> efd_count (input_fd s j) \<noteq> 0 then 2 * length (responses_of root x j) + 3 else 0) +
     pc_mu (workers s j)"

definition div_mu :: "uint64 \<Rightarrow> uint64 \<Rightarrow> div_state \<Rightarrow> nat" where
  "div_mu root x s = (if overrun s then 0 else 1) + main_mu (main_pc s) + (\<Sum>j<THREADS. worker_mu root x s j)"

lemma worker_mu_less:
  assumes "main_pc t = main_pc s" "overrun t = overrun s" and "j < THREADS" and "worker_mu root x t j < worker_mu root x s j"
    and "\<forall>i. i \<noteq> j \<longrightarrow> input_fd t i = input_fd s i \<and> workers t i = workers s i"
  shows "div_mu root x t < div_mu root x s"
proof -
  have same: "worker_mu root x t i = worker_mu root x s i" if "i \<noteq> j" for i
    using assms(1,5) that by (simp add: worker_mu_def)
  have "(\<Sum>i<THREADS. worker_mu root x t i) < (\<Sum>i<THREADS. worker_mu root x s i)"
  proof (rule sum_strict_mono_ex1)
    show "\<forall>i \<in> {..<THREADS}. worker_mu root x t i \<le> worker_mu root x s i"
      using same assms(4) by (metis le_refl less_imp_le)
    show "\<exists>i \<in> {..<THREADS}. worker_mu root x t i < worker_mu root x s i"
      using assms(3,4) by blast
  qed simp
  then show ?thesis using assms(1,2) by (simp add: div_mu_def)
qed

lemma main_mu_less:
  assumes "main_mu (main_pc t) < main_mu (main_pc s)" "overrun t = overrun s"
    and "\<And>j. j < THREADS \<Longrightarrow> worker_mu root x t j = worker_mu root x s j"
  shows "div_mu root x t < div_mu root x s"
proof -
  have "(\<Sum>i<THREADS. worker_mu root x t i) = (\<Sum>i<THREADS. worker_mu root x s i)"
    by (rule sum.cong) (use assms(3) in auto)
  then show ?thesis using assms(1,2) by (simp add: div_mu_def)
qed

lemma div_mu_step:
  assumes inv: "div_inv root x s" and step: "div_step root x s t" and x: "x \<noteq> 0" "unat x \<le> 2 ^ 64 - 2"
  shows "div_mu root x t < div_mu root x s"
proof -
  obtain ph where w: "\<forall>i < THREADS. worker_ok x s (ph i) i" using inv unfolding div_inv_def by blast
  from step show ?thesis
  proof cases
    case (main_send i e)
    have "worker_ok x s Fresh i" using send_stage[of x s "ph i" i] w main_send by auto
    then have "input_fd s i = plain_efd 0" using main_send by (simp add: worker_ok_def)
    then have e: "e = plain_efd (unat x)" using main_send by (auto dest!: plain_efd_write_Some)
    have "worker_mu root x t j = worker_mu root x s j" if "j < THREADS" for j
      using main_send e x by (auto simp: worker_mu_def unat_eq_zero less_Suc_eq)
    then show ?thesis using main_send by (intro main_mu_less) auto
  next
    case (main_send_fails i)
    then show ?thesis using x(2) by simp
  next
    case (main_sent i)
    then show ?thesis by (intro main_mu_less) (auto simp: worker_mu_def)
  next
    case (main_receive i v e)
    then show ?thesis by (intro main_mu_less) (auto simp: worker_mu_def)
  next
    case (main_list i)
    then show ?thesis by (intro main_mu_less) (auto simp: worker_mu_def)
  next
    case (main_overrun i)
    then show ?thesis by (simp add: div_mu_def worker_mu_def)
  next
    case (worker_read j v e)
    have "v = unat x" "e = plain_efd 0" "sent (main_pc s) j" using reader_stage w worker_read by blast+
    moreover have "efd_count (input_fd s j) \<noteq> 0" using worker_read by (auto simp: efd_read_def split: if_splits)
    ultimately show ?thesis
      using worker_read x by (intro worker_mu_less[of _ _ j]) (auto simp: worker_mu_def unat_eq_zero)
  next
    case (worker_take j v y ys)
    then show ?thesis by (intro worker_mu_less[of _ _ j]) (auto simp: worker_mu_def)
  next
    case (worker_store j v k y ys)
    then show ?thesis by (intro worker_mu_less[of _ _ j]) (auto simp: worker_mu_def)
  next
    case (worker_overrun j v k y ys)
    then show ?thesis by (simp add: div_mu_def worker_mu_def)
  next
    case (worker_answer j v e)
    then show ?thesis by (intro worker_mu_less[of _ _ j]) (auto simp: worker_mu_def)
  qed
qed

interpretation divisors: terminating_system "\<lambda>s. div_init s \<and> x \<noteq> 0 \<and> unat x \<le> 2 ^ 64 - 2" "div_step root x"
    "\<lambda>s. div_inv root x s \<and> x \<noteq> 0 \<and> unat x \<le> 2 ^ 64 - 2" "div_mu root x" for root x
  by unfold_locales (auto intro: div_inv_init div_inv_step div_mu_step)

lemma div_reachable_inv:
  "reachable div_init (div_step root x) s \<Longrightarrow> x \<noteq> 0 \<Longrightarrow> unat x \<le> 2 ^ 64 - 2 \<Longrightarrow> div_inv root x s"
  using divisors.inv_reachable[of x root s] by simp

text \<open>Nobody waits for ever, as long as the value is one that an eventfd can carry.\<close>

lemma div_stuck:
  assumes inv: "div_inv root x s" and x: "x \<noteq> 0" "unat x \<le> 2 ^ 64 - 2" and stuck: "stuck (div_step root x) s"
    and ok: "\<not> overrun s"
  shows "main_pc s = Finished"
proof -
  have no: "\<not> div_step root x s t" for t using stuck by (simp add: stuck_def)
  obtain ph where w: "\<forall>i < THREADS. worker_ok x s (ph i) i" using inv unfolding div_inv_def by blast
  have put: "efd_write (unat x) (plain_efd 0) = Some (plain_efd (0 + unat x))"
    by (rule plain_efd_write) (use x in simp)
  have get: "efd_read (plain_efd (unat x)) = Some (unat x, plain_efd 0)" using x by (simp add: unat_eq_zero)
  show ?thesis
  proof (cases "main_pc s")
    case (Sending i)
    show ?thesis
    proof (cases "i < THREADS")
      case True
      have "worker_ok x s Fresh i" using send_stage[of x s "ph i" i] w Sending True by auto
      then have "efd_write (unat x) (input_fd s i) = Some (plain_efd (0 + unat x))"
        using Sending put by (simp add: worker_ok_def)
      from main_send[OF Sending True this ok] no show ?thesis by blast
    qed (use main_sent[OF Sending _ ok] no in blast)
  next
    case (Receiving i)
    show ?thesis
    proof (cases "i < THREADS")
      case True
      then have wk: "worker_ok x s (ph i) i" using w by blast
      show ?thesis
      proof (cases "ph i")
        case Fresh
        then have "workers s i = WRead" "efd_read (input_fd s i) = Some (unat x, plain_efd 0)"
          using wk Receiving get by (simp_all add: worker_ok_def)
        from worker_read[OF True this ok] no show ?thesis by blast
      next
        case Running
        then have busy: "busy_with x (workers s i)" "output_fd s i = plain_efd 0" using wk by (simp_all add: worker_ok_def)
        show ?thesis
        proof (cases "workers s i")
          case (WRun v ys)
          show ?thesis
          proof (cases ys)
            case Nil
            with WRun busy put have "workers s i = WRun v []" "efd_write (unat v) (output_fd s i) = Some (plain_efd (0 + unat x))"
              by simp_all
            from worker_answer[OF True this ok] no show ?thesis by blast
          next
            case (Cons y zs)
            with WRun have "workers s i = WRun v (y # zs)" by simp
            from worker_take[OF True this ok] no show ?thesis by blast
          qed
        next
          case (WSlot v k y ys)
          from worker_store[OF True this _ ok] worker_overrun[OF True this _ ok] no show ?thesis by (meson not_le)
        qed (use busy in simp)
      next
        case Answered
        then have "efd_read (output_fd s i) = Some (unat x, plain_efd 0)"
          using wk Receiving get by (simp add: worker_ok_def)
        from main_receive[OF Receiving True this ok] no show ?thesis by blast
      qed
    qed (use main_list[OF Receiving _ _ ok] main_overrun[OF Receiving _ _ ok] no in \<open>meson not_le\<close>)
  qed
qed

text \<open>The two ends of a request: the listing, or the store behind the array when there are too many responses.\<close>

lemma all_found_mset: "all_found root x = mset (concat (map (responses_of root x) [0..<THREADS]))"
proof -
  have "(\<Sum>j<n. mset (responses_of root x j)) = mset (concat (map (responses_of root x) [0..<n]))" for n
    by (induction n) simp_all
  then show ?thesis by (simp add: all_found_def)
qed

lemma overrun_size:
  assumes "div_inv root x s" and "overrun s"
  shows "MAX_RESPONSES < size (all_found root x)"
proof -
  obtain ph log where log: "log_ok s log"
    and acc: "mset log + (\<Sum>i<THREADS. todo (ph i) (responses_of root x i) (workers s i)) = all_found root x"
    using assms(1) unfolding div_inv_def by blast
  have "MAX_RESPONSES < length log" using log assms(2) by (simp add: log_ok_def)
  moreover have "length log \<le> size (all_found root x)" unfolding acc[symmetric] by simp
  ultimately show ?thesis by simp
qed

lemma finished_listing:
  assumes inv: "div_inv root x s" and fin: "main_pc s = Finished"
  shows "size (all_found root x) \<le> MAX_RESPONSES" and "mset (listing s) = all_found root x"
proof -
  obtain ph log where *: "\<forall>i < THREADS. worker_ok x s (ph i) i" "log_ok s log"
    "mset log + (\<Sum>i<THREADS. todo (ph i) (responses_of root x i) (workers s i)) = all_found root x"
    and l: "\<not> overrun s" "response_size (ctx s) \<le> MAX_RESPONSES" "listing s = take (response_size (ctx s)) (responses (ctx s))"
    using inv fin unfolding div_inv_def by blast
  have rec: "\<forall>i < THREADS. received (main_pc s) i" using fin by simp
  note dn = all_answered[OF *(1) rec *(2,3) l(1)]
  have len: "length log = response_size (ctx s)" "length (responses (ctx s)) = MAX_RESPONSES"
    using *(2) by (simp_all add: log_ok_def)
  show "size (all_found root x) \<le> MAX_RESPONSES" unfolding dn(1)[symmetric] using l(2) len by simp
  have "listing s = log"
  proof (rule nth_equalityI)
    show "length (listing s) = length log" using l(2,3) len by simp
    show "listing s ! k = log ! k" if "k < length (listing s)" for k
      using dn(2) l len that by simp
  qed
  then show "mset (listing s) = all_found root x" using dn(1) by simp
qed

lemma div_ends:
  assumes inv: "div_inv root x s" and x: "x \<noteq> 0" "unat x \<le> 2 ^ 64 - 2"
  shows "\<exists>u. (div_step root x)\<^sup>*\<^sup>* s u \<and> stuck (div_step root x) u \<and> div_inv root x u"
proof -
  obtain u where u: "(div_step root x)\<^sup>*\<^sup>* s u" "stuck (div_step root x) u"
    using divisors.reaches_stuck[of root x s] inv x by blast
  moreover have "div_inv root x u" using divisors.inv_steps[OF u(1)] inv x by blast
  ultimately show ?thesis by blast
qed

lemma stuck_outcome:
  assumes inv: "div_inv root x s" and x: "x \<noteq> 0" "unat x \<le> 2 ^ 64 - 2" and stuck: "stuck (div_step root x) s"
  shows "if size (all_found root x) \<le> MAX_RESPONSES then main_pc s = Finished \<and> \<not> overrun s
    else overrun s \<and> main_pc s \<noteq> Finished"
  using div_stuck[OF assms] overrun_size[OF inv] finished_listing(1)[OF inv] by (cases "overrun s") auto

lemma div_completes:
  assumes "div_inv root x s" and "x \<noteq> 0" "unat x \<le> 2 ^ 64 - 2" and "size (all_found root x) \<le> MAX_RESPONSES"
  shows "\<exists>t. (div_step root x)\<^sup>*\<^sup>* s t \<and> main_pc t = Finished"
  using div_ends[OF assms(1-3)] stuck_outcome[OF _ assms(2,3)] assms(4) by metis

lemma length_pairs: "length (concat (map (\<lambda>i. [i, f i]) ns)) = 2 * length ns" for f :: "nat \<Rightarrow> nat"
  by (induction ns) simp_all

lemma size_all_found:
  assumes "root_ok root q (unat x)" and "unat x \<le> 2 ^ 64 - 2"
  shows "size (all_found root x) = 2 * length (filter (\<lambda>i. i dvd unat x) [2..<q + 1])"
proof -
  have "size (all_found root x) = length (map unat (concat (map (responses_of root x) [0..<THREADS])))"
    unfolding all_found_mset by simp
  then show ?thesis unfolding all_responses[OF assms] divisor_pairs_def length_pairs .
qed

text \<open>What a request lists, and that it leaves everything ready for the next one.\<close>

lemma request_listing:
  assumes "reachable div_init (div_step root x) s" and root: "root_ok root q (unat x)" and x: "0 < unat x" "unat x \<le> 2 ^ 64 - 2"
    and few: "length (filter (\<lambda>i. i dvd unat x) [2..<q + 1]) \<le> 32"
  shows "\<not> overrun s \<and> (main_pc s = Finished \<longrightarrow> mset (map unat (listing s)) =
    mset (concat (map (\<lambda>i. [i, unat x div i]) (filter (\<lambda>i. i dvd unat x) [2..<q + 1]))))"
proof -
  have inv: "div_inv root x s" by (rule div_reachable_inv[OF assms(1)]) (use x in \<open>auto simp: unat_gt_0\<close>)
  have "mset (map unat (listing s)) = mset (concat (map (\<lambda>i. [i, unat x div i]) (filter (\<lambda>i. i dvd unat x) [2..<q + 1])))"
    if "main_pc s = Finished"
  proof -
    have "mset (map unat (listing s)) = image_mset unat (all_found root x)"
      using finished_listing(2)[OF inv that] by simp
    also have "\<dots> = mset (map unat (concat (map (responses_of root x) [0..<THREADS])))"
      unfolding all_found_mset by (simp only: mset_map)
    finally show ?thesis unfolding all_responses[OF root x(2)] divisor_pairs_def .
  qed
  moreover have "\<not> overrun s"
    using overrun_size[OF inv] few unfolding size_all_found[OF root x(2)] by (auto simp: MAX_RESPONSES_def)
  ultimately show ?thesis by blast
qed

lemma finished_restarts:
  assumes inv: "div_inv root x s" and fin: "main_pc s = Finished"
  shows "\<forall>i < THREADS. input_fd s i = plain_efd 0 \<and> output_fd s i = plain_efd 0 \<and> workers s i = WRead"
    and "length (responses (ctx s)) = MAX_RESPONSES"
proof -
  obtain ph log where w: "\<forall>i < THREADS. worker_ok x s (ph i) i" and log: "log_ok s log"
    using inv unfolding div_inv_def by blast
  show "length (responses (ctx s)) = MAX_RESPONSES" using log by (simp add: log_ok_def)
  have "ph i = Answered" if "i < THREADS" for i
    using w that fin by (cases "ph i") (auto simp: worker_ok_def)
  then show "\<forall>i < THREADS. input_fd s i = plain_efd 0 \<and> output_fd s i = plain_efd 0 \<and> workers s i = WRead"
    using w fin by (auto simp: worker_ok_def)
qed

text \<open>
  C6. However the processes are interleaved, a request for a value from 1 to \<open>2 ^ 64 - 2\<close> with at most 32 divisor pairs
  never writes outside the array, and the listing that \<open>main\<close> prints is, up to order, exactly the pairs
  \<open>i, val / i\<close> for the divisors \<open>i\<close> from 2 to the square root: no response is lost to a race.  \<open>root_ok\<close> is what is
  assumed of the rounding of \<open>sqrtl\<close>.
\<close>
theorem divisors_listing:
  assumes "reachable div_init (div_step root x) s"
    and "root_ok root q (unat x)" and "0 < unat x" "unat x \<le> 2 ^ 64 - 2"
    and few: "length (filter (\<lambda>i. i dvd unat x) [2..<q + 1]) \<le> 32"
  shows "\<not> overrun s \<and> (main_pc s = Finished \<longrightarrow> mset (map unat (listing s)) =
    mset (concat (map (\<lambda>i. [i, unat x div i]) (filter (\<lambda>i. i dvd unat x) [2..<q + 1]))))"
  using assms by (rule request_listing)

definition idle_state :: div_state where
  "idle_state = \<lparr>input_fd = (\<lambda>_. plain_efd 0), output_fd = (\<lambda>_. plain_efd 0), workers = (\<lambda>_. WRead),
     main_pc = Sending 0, ctx = \<lparr>response_size = 0, responses = replicate MAX_RESPONSES 0\<rparr>,
     overrun = False, listing = []\<rparr>"

lemma idle_state_init: "div_init idle_state"
  by (simp add: div_init_def idle_state_def)

lemma idle_state_reachable: "reachable div_init (div_step root x) idle_state"
  by (rule reach_init) (rule idle_state_init)

lemma idle_completes:
  assumes "root_ok root q (unat x)" and "0 < unat x" "unat x \<le> 2 ^ 64 - 2" and "length (filter (\<lambda>i. i dvd unat x) [2..<q + 1]) \<le> 32"
  shows "\<exists>t. reachable div_init (div_step root x) t \<and> main_pc t = Finished"
proof -
  have "size (all_found root x) \<le> MAX_RESPONSES"
    using assms(4) unfolding size_all_found[OF assms(1,3)] by (simp add: MAX_RESPONSES_def)
  moreover have "x \<noteq> 0" using assms(2) by auto
  ultimately obtain t where "(div_step root x)\<^sup>*\<^sup>* idle_state t" "main_pc t = Finished"
    using div_completes[OF div_inv_init[OF idle_state_init] _ assms(3)] by blast
  then show ?thesis using reachable_steps[OF idle_state_reachable] by blast
qed

theorem divisors_listing_witness:
  "\<exists>s. reachable div_init (div_step 4 12) s \<and> main_pc s = Finished \<and> mset (map unat (listing s)) = {#2, 3, 4, 6#}"
proof -
  have f: "filter (\<lambda>i. i dvd unat (12 :: uint64)) [2..<3 + 1] = [2, 3]" by (simp add: upt_rec)
  have root: "root_ok 4 3 (unat (12 :: uint64))" by (simp add: root_ok_def is_isqrt_def)
  obtain s where s: "reachable div_init (div_step 4 12) s" "main_pc s = Finished"
    using idle_completes[OF root, unfolded f] by auto
  have "\<not> overrun s \<and> (main_pc s = Finished \<longrightarrow> mset (map unat (listing s)) = mset (concat (map (\<lambda>i. [i, unat (12 :: uint64) div i])
      (filter (\<lambda>i. i dvd unat (12 :: uint64)) [2..<3 + 1]))))"
    by (rule divisors_listing[OF s(1) root]) (simp_all add: f)
  then show ?thesis using s unfolding f by auto
qed

text \<open>
  C40. A request for a value from 1 to \<open>2 ^ 64 - 2\<close> with more than 32 divisor pairs is never answered: no interleaving
  reaches the listing, every execution that can go no further has stored behind the array, since \<open>MAX_RESPONSES\<close> is not checked,
  and from every state such an end is reached.
\<close>
theorem divisors_overrun:
  assumes "reachable div_init (div_step root x) s"
    and "root_ok root q (unat x)" and "0 < unat x" "unat x \<le> 2 ^ 64 - 2"
    and many: "32 < length (filter (\<lambda>i. i dvd unat x) [2..<q + 1])"
  shows "main_pc s \<noteq> Finished \<and> (stuck (div_step root x) s \<longrightarrow> overrun s) \<and>
    (\<exists>u. (div_step root x)\<^sup>*\<^sup>* s u \<and> stuck (div_step root x) u \<and> overrun u)"
proof -
  have x: "x \<noteq> 0" using assms(3) by auto
  have inv: "div_inv root x s" by (rule div_reachable_inv[OF assms(1) x assms(4)])
  have sz: "\<not> size (all_found root x) \<le> MAX_RESPONSES"
    unfolding size_all_found[OF assms(2,4)] using many by (simp add: MAX_RESPONSES_def)
  then show ?thesis
    using finished_listing(1)[OF inv] div_ends[OF inv x assms(4)] stuck_outcome[OF _ x assms(4)] inv by metis
qed

lemma divisors_of_10080: "length (filter (\<lambda>i. i dvd (10080 :: nat)) [2..<101]) = 35"
  by (simp add: upt_rec)

theorem divisors_overrun_witness:
  "\<exists>u. (div_step 101 10080)\<^sup>*\<^sup>* idle_state u \<and> overrun u"
proof -
  have "main_pc idle_state \<noteq> Finished \<and> (stuck (div_step 101 10080) idle_state \<longrightarrow> overrun idle_state) \<and>
      (\<exists>u. (div_step 101 10080)\<^sup>*\<^sup>* idle_state u \<and> stuck (div_step 101 10080) u \<and> overrun u)"
    by (rule divisors_overrun[OF idle_state_reachable, where q = 100])
      (use divisors_of_10080 in \<open>simp_all add: root_ok_def is_isqrt_def\<close>)
  then show ?thesis by blast
qed

text \<open>
  C27. Progress: from every reachable state of a request for a value from 1 to \<open>2 ^ 64 - 2\<close> all executions are finite, and
  they end with the listing if the processes together find at most 64 responses, and with a store behind the array otherwise: no
  interleaving deadlocks.  Whatever \<open>root\<close> is.
\<close>
theorem divisors_progress:
  assumes "reachable div_init (div_step root x) s" and "x \<noteq> 0" "unat x \<le> 2 ^ 64 - 2"
  shows "((div_step root x ^^ n) s t \<longrightarrow> n \<le> div_mu root x s) \<and>
    (stuck (div_step root x) s \<longrightarrow>
       (if length (concat (map (responses_of root x) [0..<THREADS])) \<le> MAX_RESPONSES
        then main_pc s = Finished \<and> \<not> overrun s else overrun s \<and> main_pc s \<noteq> Finished)) \<and>
    (\<exists>u. (div_step root x)\<^sup>*\<^sup>* s u \<and> stuck (div_step root x) u)"
proof -
  have inv: "div_inv root x s" by (rule div_reachable_inv[OF assms])
  have "(div_step root x ^^ n) s t \<longrightarrow> n \<le> div_mu root x s"
  proof
    assume run: "(div_step root x ^^ n) s t"
    have "n + div_mu root x t \<le> div_mu root x s"
      by (rule divisors.run_length_bound[OF run]) (use inv assms(2,3) in simp)
    then show "n \<le> div_mu root x s" by simp
  qed
  moreover have "size (all_found root x) = length (concat (map (responses_of root x) [0..<THREADS]))"
    unfolding all_found_mset by simp
  then have "stuck (div_step root x) s \<longrightarrow> (if length (concat (map (responses_of root x) [0..<THREADS])) \<le> MAX_RESPONSES
        then main_pc s = Finished \<and> \<not> overrun s else overrun s \<and> main_pc s \<noteq> Finished)"
    using stuck_outcome[OF inv assms(2,3)] by metis
  ultimately show ?thesis using div_ends[OF inv assms(2,3)] by blast
qed

theorem divisors_progress_witness:
  "\<exists>t. (div_step 4 12)\<^sup>*\<^sup>* idle_state t \<and> stuck (div_step 4 12) t"
  using divisors_progress[OF idle_state_reachable, of 12 4] by simp

end
