(* ===== verification/DivisorsSession.thy ===== *)
theory DivisorsSession
  imports Divisors
begin

text \<open>
  The loop of \<open>main\<close> in \<open>src/fork/divisors/main.c\<close> around the requests of Divisors: numbers are read one after the other
  and served by the same eight processes, which find the descriptors and the shared context as the last request left them.
  At the end of the input \<open>scanf\<close> fails, which \<open>check_result\<close> only reports, and 0 is requested.
\<close>

subsection \<open>Sessions\<close>

definition next_request :: "div_state \<Rightarrow> div_state" where
  "next_request s = s\<lparr>main_pc := Sending 0, ctx := (ctx s)\<lparr>response_size := 0\<rparr>\<rparr>"

text \<open>\<open>div_session reqs s ls t\<close>: the requests, each with its \<open>root\<close>, are served in turn, and \<open>ls\<close> are the listings.\<close>

inductive div_session :: "(uint64 \<times> uint64) list \<Rightarrow> div_state \<Rightarrow> uint64 list list \<Rightarrow> div_state \<Rightarrow> bool" where
  no_request: "div_session [] s [] s"
| request: "(div_step root x)\<^sup>*\<^sup>* (next_request s) t \<Longrightarrow> main_pc t = Finished \<Longrightarrow> div_session reqs t ls u \<Longrightarrow>
    div_session ((root, x) # reqs) s (listing t # ls) u"

text \<open>Ready for a request.\<close>

definition ready :: "div_state \<Rightarrow> bool" where
  "ready s \<longleftrightarrow> div_init (next_request s)"

text \<open>What a listing should be, in some order.\<close>

definition pairs_of :: "nat \<Rightarrow> nat list" where
  "pairs_of v = concat (map (\<lambda>i. [i, v div i]) (filter (\<lambda>i. i * i \<le> v \<and> i dvd v) [2..<v + 1]))"

definition request_ok :: "uint64 \<times> uint64 \<Rightarrow> bool" where
  "request_ok r = (case r of (root, x) \<Rightarrow> 0 < unat x \<and> unat x \<le> 2 ^ 64 - 2 \<and> length (pairs_of (unat x)) \<le> MAX_RESPONSES \<and>
     (\<exists>q. root_ok root q (unat x)))"

lemma pairs_of_isqrt:
  assumes "is_isqrt q v"
  shows "filter (\<lambda>i. i * i \<le> v \<and> i dvd v) [2..<v + 1] = filter (\<lambda>i. i dvd v) [2..<q + 1]"
proof (rule sorted_distinct_set_unique)
  have "q * q \<le> v" using assms by (simp add: is_isqrt_def)
  then have "q \<le> v" using le_square[of q] by linarith
  then show "set (filter (\<lambda>i. i * i \<le> v \<and> i dvd v) [2..<v + 1]) = set (filter (\<lambda>i. i dvd v) [2..<q + 1])"
    by (auto simp: is_isqrt_le[OF assms] simp del: upt_Suc)
qed (simp_all add: sorted_wrt_filter del: upt_Suc)

lemma ready_request:
  assumes ready: "ready s" and ok: "request_ok (root, x)"
  shows "\<exists>t. (div_step root x)\<^sup>*\<^sup>* (next_request s) t \<and> main_pc t = Finished"
    and "(div_step root x)\<^sup>*\<^sup>* (next_request s) t \<Longrightarrow> main_pc t = Finished \<Longrightarrow>
      ready t \<and> \<not> overrun t \<and> mset (map unat (listing t)) = mset (pairs_of (unat x))"
proof -
  have init: "div_init (next_request s)" using ready by (simp add: ready_def)
  have x: "x \<noteq> 0" "unat x \<le> 2 ^ 64 - 2" "0 < unat x"
    using ok by (auto simp: request_ok_def)
  obtain q where root: "root_ok root q (unat x)" using ok by (auto simp: request_ok_def)
  then have q: "is_isqrt q (unat x)" by (simp add: root_ok_def)
  have few: "length (filter (\<lambda>i. i dvd unat x) [2..<q + 1]) \<le> 32"
  proof -
    have "length (pairs_of (unat x)) \<le> 64" using ok by (simp add: request_ok_def MAX_RESPONSES_def)
    then show ?thesis unfolding pairs_of_def pairs_of_isqrt[OF q] length_pairs by simp
  qed
  then have "size (all_found root x) \<le> MAX_RESPONSES"
    unfolding size_all_found[OF root x(2)] by (simp add: MAX_RESPONSES_def)
  then show "\<exists>t. (div_step root x)\<^sup>*\<^sup>* (next_request s) t \<and> main_pc t = Finished"
    by (rule div_completes[OF div_inv_init[OF init] x(1,2)])
  assume run: "(div_step root x)\<^sup>*\<^sup>* (next_request s) t" and fin: "main_pc t = Finished"
  have r: "reachable div_init (div_step root x) t" by (rule reachable_steps[OF reach_init[of div_init, OF init] run])
  note listed = request_listing[OF r root x(3,2) few]
  note restart = finished_restarts[OF div_reachable_inv[OF r x(1,2)] fin]
  have "ready t" using restart listed by (simp add: ready_def next_request_def div_init_def)
  then show "ready t \<and> \<not> overrun t \<and> mset (map unat (listing t)) = mset (pairs_of (unat x))"
    using listed fin unfolding pairs_of_def pairs_of_isqrt[OF q] by blast
qed

lemma session_completes:
  "ready s \<Longrightarrow> \<forall>r \<in> set reqs. request_ok r \<Longrightarrow> \<exists>ls t. div_session reqs s ls t"
proof (induction reqs arbitrary: s)
  case (Cons r reqs)
  obtain root x where r: "r = (root, x)" by (cases r)
  then have ok: "request_ok (root, x)" using Cons.prems by simp
  obtain t where t: "(div_step root x)\<^sup>*\<^sup>* (next_request s) t" "main_pc t = Finished"
    using ready_request(1)[OF Cons.prems(1) ok] by blast
  then have "ready t" using ready_request(2)[OF Cons.prems(1) ok] by blast
  then obtain ls u where "div_session reqs t ls u" using Cons by fastforce
  from request[OF t this] show ?case unfolding r by blast
qed (auto intro: no_request)

lemma session_listings:
  "div_session reqs s ls t \<Longrightarrow> ready s \<Longrightarrow> \<forall>r \<in> set reqs. request_ok r \<Longrightarrow>
     ready t \<and> list_all2 (\<lambda>(root, x) l. mset (map unat l) = mset (pairs_of (unat x))) reqs ls"
proof (induction rule: div_session.induct)
  case (request root x s t reqs ls u)
  then have "ready t \<and> mset (map unat (listing t)) = mset (pairs_of (unat x))"
    using ready_request(2)[of s root x t] by simp
  then show ?case using request by simp
qed simp

text \<open>
  C8. Any sequence of requests for numbers from 1 to \<open>2 ^ 64 - 2\<close> with at most 32 divisor pairs can be served by the eight
  processes, and however they are interleaved each listing is, up to order, that of the divisor pairs of its number; the array is
  never overrun.  \<open>root_ok\<close> is what is assumed of the rounding of \<open>sqrtl\<close>; 0 and \<open>2 ^ 64 - 1\<close> are never answered, as shown below,
  and numbers with more pairs overrun the array, as shown in Divisors.
\<close>
theorem session_correct:
  assumes "ready s" and "\<forall>r \<in> set reqs. request_ok r"
  shows "(\<exists>ls t. div_session reqs s ls t) \<and>
    (\<forall>ls t. div_session reqs s ls t \<longrightarrow> \<not> overrun t \<and>
       list_all2 (\<lambda>(root, x) l. mset (map unat l) = mset (pairs_of (unat x))) reqs ls)"
  using session_completes[OF assms] session_listings[OF _ assms]
  by (auto simp: ready_def div_init_def next_request_def)

lemma idle_state_ready: "ready idle_state"
  by (simp add: ready_def next_request_def div_init_def idle_state_def)

theorem session_correct_witness:
  "\<exists>l m t. div_session [(4, 12), (6, 25)] idle_state [l, m] t \<and> mset (map unat l) = {#2, 6, 3, 4#} \<and>
     mset (map unat m) = {#5, 5#}"
proof -
  have p: "pairs_of 12 = [2, 6, 3, 4]" "pairs_of 25 = [5, 5]" by (simp_all add: pairs_of_def upt_rec)
  have "is_isqrt 3 12" "is_isqrt 5 25" by (simp_all add: is_isqrt_def)
  then have ok: "\<forall>r \<in> set [(4, 12), (6, 25)]. request_ok r"
    by (auto simp: request_ok_def root_ok_def p MAX_RESPONSES_def intro: exI[of _ 3] exI[of _ 5])
  from session_correct[OF idle_state_ready ok] obtain ls t where s: "div_session [(4, 12), (6, 25)] idle_state ls t"
    "list_all2 (\<lambda>(root, x) l. mset (map unat l) = mset (pairs_of (unat x))) [(4 :: uint64, 12 :: uint64), (6, 25)] ls"
    by blast
  then obtain l m where "ls = [l, m]" by (auto simp: list_all2_Cons1)
  then show ?thesis using s p by auto
qed

subsection \<open>Requests that nobody answers\<close>

text \<open>0, also at the end of the input, leaves the counters of the eventfds at 0, and \<open>2 ^ 64 - 1\<close> is refused.\<close>

definition unanswered :: "uint64 \<Rightarrow> bool" where
  "unanswered x \<longleftrightarrow> x = 0 \<or> unat x = 2 ^ 64 - 1"

definition hang_inv :: "div_state \<Rightarrow> bool" where
  "hang_inv s \<longleftrightarrow> \<not> overrun s \<and> (\<forall>i < THREADS. input_fd s i = plain_efd 0 \<and> output_fd s i = plain_efd 0 \<and> workers s i = WRead) \<and>
     ((\<exists>i \<le> THREADS. main_pc s = Sending i) \<or> main_pc s = Receiving 0)"

definition hang_mu :: "div_state \<Rightarrow> nat" where
  "hang_mu s = (case main_pc s of Sending i \<Rightarrow> THREADS + 1 - i | _ \<Rightarrow> 0)"

lemma hang_step:
  assumes inv: "hang_inv s" and x: "unanswered x" and step: "div_step root x s t"
  shows "hang_inv t" and "hang_mu t < hang_mu s"
proof -
  have "hang_inv t \<and> hang_mu t < hang_mu s"
    using step
  proof cases
    case (main_send i e)
    then have w: "efd_write (unat x) (plain_efd 0) = Some e" using inv by (simp add: hang_inv_def)
    then have "e = plain_efd (unat x)" using plain_efd_write_Some by fastforce
    moreover have "x = 0" using w x by (auto simp: unanswered_def efd_write_def split: if_splits)
    ultimately show ?thesis using inv main_send by (auto simp: hang_inv_def hang_mu_def)
  qed (use inv in \<open>auto simp: hang_inv_def hang_mu_def THREADS_def\<close>)
  then show "hang_inv t" and "hang_mu t < hang_mu s" by simp_all
qed

lemma hang_init: "div_init s \<Longrightarrow> hang_inv s"
  by (simp add: hang_inv_def div_init_def)

interpretation hang: terminating_system "\<lambda>s. div_init s \<and> unanswered x" "div_step root x"
    "\<lambda>s. hang_inv s \<and> unanswered x" hang_mu for root x
  by unfold_locales (auto intro: hang_step hang_init)

text \<open>
  C37. A request for 0, which is also what the program asks for at the end of its input, or for \<open>2 ^ 64 - 1\<close> is never
  answered: every execution is over after nine steps, with \<open>main\<close> waiting for the first answer and all processes for a number.
\<close>
theorem request_hangs:
  assumes "div_init s" and "x = 0 \<or> unat x = 2 ^ 64 - 1" and "(div_step root x ^^ n) s t"
  shows "n \<le> 9 \<and> main_pc t \<noteq> Finished \<and>
    (stuck (div_step root x) t \<longrightarrow> main_pc t = Receiving 0 \<and> (\<forall>i < THREADS. workers t i = WRead)) \<and>
    (\<exists>u. (div_step root x)\<^sup>*\<^sup>* t u \<and> stuck (div_step root x) u)"
proof -
  have x: "unanswered x" using assms(2) by (simp add: unanswered_def)
  have inv: "hang_inv s \<and> unanswered x" using hang.inv_init[of s x] assms(1) x by blast
  have inv_t: "hang_inv t" using hang.inv_steps[OF relpowp_imp_rtranclp[OF assms(3)]] inv by blast
  have "n + hang_mu t \<le> hang_mu s" by (rule hang.run_length_bound[OF assms(3) inv])
  moreover have "hang_mu s = 9" using assms(1) by (simp add: hang_mu_def div_init_def THREADS_def)
  moreover have "main_pc t = Receiving 0" if stuck: "stuck (div_step root x) t"
  proof (rule ccontr)
    assume "main_pc t \<noteq> Receiving 0"
    then obtain i where i: "main_pc t = Sending i" using inv_t by (auto simp: hang_inv_def)
    have ok: "\<not> overrun t" using inv_t by (simp add: hang_inv_def)
    show False
    proof (cases "i < THREADS")
      case True
      show False
      proof (cases "x = 0")
        case x0: True
        have "efd_write (unat x) (input_fd t i) = Some (plain_efd 0)"
          using inv_t True x0 plain_efd_write[of 0 0] by (simp add: hang_inv_def)
        from main_send[OF i True this ok] stuck show False unfolding stuck_def by blast
      next
        case False
        then have "unat x = 2 ^ 64 - 1" using assms(2) by simp
        from main_send_fails[OF i True this ok] stuck show False unfolding stuck_def by blast
      qed
    next
      case False
      from main_sent[OF i False ok] stuck show False unfolding stuck_def by blast
    qed
  qed
  moreover have "main_pc t \<noteq> Finished" using inv_t by (auto simp: hang_inv_def)
  ultimately show ?thesis
    using hang.reaches_stuck[of t x root] inv_t x by (auto simp: hang_inv_def)
qed

theorem request_hangs_witness:
  "\<exists>u. (div_step 1 0)\<^sup>*\<^sup>* idle_state u \<and> main_pc u = Receiving 0 \<and> stuck (div_step 1 0) u"
proof -
  have "(div_step 1 0 ^^ 0) idle_state idle_state" by simp
  from request_hangs[OF idle_state_init _ this] obtain u where u: "(div_step 1 0)\<^sup>*\<^sup>* idle_state u" "stuck (div_step 1 0) u"
    by blast
  then obtain n where "(div_step 1 0 ^^ n) idle_state u" by (auto simp: rtranclp_power)
  from request_hangs[OF idle_state_init _ this] u show ?thesis by blast
qed

end
