(* ===== verification/Files.thy ===== *)
theory Files
  imports ByteStream "HOL-Library.Multiset"
begin

unbundle bit_operations_syntax

text \<open>
  \<open>src/files/main.c\<close>: writing a file of 256 integers, the merge of two streams of integers by
  comparing the next value of each, and reading every second integer by seeking.  Integers are
  stored in little-endian order.  A descriptor is a byte source; None stands for -1.
\<close>

subsection \<open>Integers in files\<close>

definition le32 :: "32 word \<Rightarrow> byte list" where
  "le32 x = [ucast x, ucast (drop_bit 8 x), ucast (drop_bit 16 x), ucast (drop_bit 24 x)]"

fun from_le32 :: "byte list \<Rightarrow> 32 word" where
  "from_le32 [a, b, c, d] = ucast a OR push_bit 8 (ucast b) OR push_bit 16 (ucast c) OR push_bit 24 (ucast d)"
| "from_le32 _ = 0"

text \<open>\<open>ntohl\<close> of a value loaded from four bytes.\<close>

fun from_be32 :: "byte list \<Rightarrow> 32 word" where
  "from_be32 [a, b, c, d] = push_bit 24 (ucast a) OR push_bit 16 (ucast b) OR push_bit 8 (ucast c) OR ucast d"
| "from_be32 _ = 0"

lemma from_le32_le32: "from_le32 (le32 x) = x"
proof (rule bit_word_eqI)
  fix n assume "n < LENGTH(32)"
  then consider "n < 8" | "8 \<le> n" "n < 16" | "16 \<le> n" "n < 24" | "24 \<le> n" "n < 32" by force
  then show "bit (from_le32 (le32 x)) n = bit x n"
    by cases (auto simp: le32_def bit_simps)
qed

lemma length_le32 [simp]: "length (le32 x) = 4"
  by (simp add: le32_def)

subsection \<open>\<open>generate_file\<close>\<close>

fun generate_loop :: "nat \<Rightarrow> nat \<Rightarrow> sink \<Rightarrow> bool \<times> sink" where
  "generate_loop 0 i f = (True, f)"
| "generate_loop (Suc n) i f =
     (case sys_write (le32 (of_nat i)) f of
        (r, f) \<Rightarrow> if r = Inr 4 then generate_loop n (i + 1) f else (False, f))"

text \<open>The file is opened without \<open>O_TRUNC\<close>: what lies behind the bytes written stays.\<close>

definition gen_file :: "byte list option \<Rightarrow> answer list \<Rightarrow> int \<times> byte list option" where
  "gen_file old rs = (case old of
       None \<Rightarrow> (-1, None)
     | Some content \<Rightarrow>
         (case generate_loop 256 0 \<lparr>accepted = [], replies = rs\<rparr> of
            (okay, f) \<Rightarrow> (if okay then 0 else -1, Some (accepted f @ drop (length (accepted f)) content))))"

subsection \<open>\<open>merge\<close>\<close>

definition read_int :: "source \<Rightarrow> (int \<times> source) option" where
  "read_int f = (case sys_read 4 f of
       (Inr xs, f) \<Rightarrow> if length xs = 4 then Some (sint (from_le32 xs), f) else None
     | (Inl e, f) \<Rightarrow> None)"

definition pick_target :: "source option list \<Rightarrow> int list \<Rightarrow> nat option" where
  "pick_target f peek = foldl (\<lambda>target i.
       if f ! i = None then target
       else case target of
           None \<Rightarrow> Some i
         | Some t \<Rightarrow> if peek ! i < peek ! t then Some i else target)
     None [0..<length f]"

lemma pick_target_open: "pick_target f peek = Some t \<Longrightarrow> t < length f \<and> f ! t \<noteq> None"
proof -
  have "foldl (\<lambda>target i. if f ! i = None then target else case target of
      None \<Rightarrow> Some i | Some t \<Rightarrow> if peek ! i < peek ! t then Some i else target) None [0..<n] = Some t \<Longrightarrow>
      t < n \<and> f ! t \<noteq> None" for n
    by (induction n arbitrary: t) (auto split: if_splits option.splits)
  then show "pick_target f peek = Some t \<Longrightarrow> t < length f \<and> f ! t \<noteq> None" by (simp add: pick_target_def)
qed

definition open_budget :: "source option \<Rightarrow> nat" where
  "open_budget f = (case f of None \<Rightarrow> 0 | Some s \<Rightarrow> Suc (budget s))"

lemma read_int_budget: "read_int f = Some (v, f') \<Longrightarrow> budget f' < budget f"
proof -
  assume r: "read_int f = Some (v, f')"
  obtain q g where q: "sys_read 4 f = (q, g)" by (cases "sys_read 4 f")
  with r obtain xs where "q = Inr xs" "length xs = 4" "g = f'"
    by (auto simp: read_int_def split: sum.splits if_splits)
  moreover from this have "xs \<noteq> []" by auto
  ultimately show ?thesis using fd.get_progress[of 4 f xs g] q by auto
qed

lemma sum_list_decrease:
  fixes g :: "'a \<Rightarrow> nat"
  assumes "t < length xs" and "g y < g (xs ! t)"
  shows "sum_list (map g (xs[t := y])) < sum_list (map g xs)"
  using assms
proof (induction xs arbitrary: t)
  case (Cons x xs)
  then show ?case by (cases t) auto
qed simp

text \<open>The values printed by the loop.\<close>

function merge_loop :: "source option list \<Rightarrow> int list \<Rightarrow> int list" where
  "merge_loop f peek =
     (case pick_target f peek of
        None \<Rightarrow> []
      | Some t \<Rightarrow> peek ! t #
          (case read_int (the (f ! t)) of
             None \<Rightarrow> merge_loop (f[t := None]) peek
           | Some (v, f') \<Rightarrow> merge_loop (f[t := Some f']) (peek[t := v])))"
  by pat_completeness auto
termination
proof (relation "measure (\<lambda>(f, peek). sum_list (map open_budget f))", goal_cases)
  case (2 f peek t)
  then obtain s where "f ! t = Some s" "t < length f" using pick_target_open by blast
  then show ?case using 2 by (auto intro!: sum_list_decrease simp: open_budget_def)
next
  case (3 f peek t p v f')
  then obtain s where s: "f ! t = Some s" "t < length f" using pick_target_open by blast
  then show ?case using 3 read_int_budget[of s v f'] by (auto intro!: sum_list_decrease simp: open_budget_def)
qed simp

declare merge_loop.simps [simp del]

text \<open>
  \<open>open\<close> for reading over a file system: the answers are those to the reads from the new descriptor, None when \<open>open\<close> fails
  although the file is there.
\<close>

definition open_read :: "(string \<Rightarrow> byte list option) \<Rightarrow> answer list option \<Rightarrow> string \<Rightarrow> source option" where
  "open_read fs as path = (case (fs path, as) of
       (Some content, Some as) \<Rightarrow> Some \<lparr>pending = content, answers = as\<rparr>
     | _ \<Rightarrow> None)"

text \<open>\<open>path1\<close> is opened twice.  What could not be opened or read ends the function with \<open>r\<close>, which is 0 then.\<close>

definition merge :: "(string \<Rightarrow> byte list option) \<Rightarrow> answer list option \<Rightarrow> answer list option \<Rightarrow> string \<Rightarrow> string \<Rightarrow>
    int \<times> int list" where
  "merge fs as0 as1 path1 path2 =
     (case open_read fs as0 path1 of
        None \<Rightarrow> (0, [])
      | Some f0 \<Rightarrow> (case open_read fs as1 path1 of
            None \<Rightarrow> (0, [])
          | Some f1 \<Rightarrow> (case read_int f0 of
                None \<Rightarrow> (0, [])
              | Some (peek0, f0) \<Rightarrow> (case read_int f1 of
                    None \<Rightarrow> (0, [])
                  | Some (peek1, f1) \<Rightarrow> (0, merge_loop [Some f0, Some f1] [peek0, peek1])))))"

subsection \<open>\<open>test_seek\<close>\<close>

text \<open>The loop at file position \<open>pos\<close>; a failed read leaves \<open>tmp\<close> uninitialised, and it is printed.\<close>

function seek_loop :: "byte list \<Rightarrow> nat \<Rightarrow> nat \<Rightarrow> nat \<Rightarrow> c_error + (nat \<times> 32 word) list" where
  "seek_loop content n i pos =
     (if i < n
      then let pos = (if i = 0 then pos else pos + 4)
           in if pos + 4 \<le> length content
              then bindE (seek_loop content n (i + 2) (pos + 4))
                     (\<lambda>out. Inr ((i, from_be32 (take 4 (drop pos content))) # out))
              else Inl UninitRead
      else Inr [])"
  by pat_completeness auto
termination
  by (relation "measure (\<lambda>(c, n, i, pos). n - i)") auto

declare seek_loop.simps [simp del]

definition test_seek :: "byte list option \<Rightarrow> c_error + (int \<times> (nat \<times> 32 word) list)" where
  "test_seek file = (case file of
       None \<Rightarrow> Inr (-1, [])
     | Some content \<Rightarrow> bindE (seek_loop content (length content div 4) 0 0) (\<lambda>out. Inr (0, out)))"

subsection \<open>The merge as a function of the streams\<close>

fun merged :: "int list \<Rightarrow> int list \<Rightarrow> int list" where
  "merged (x # xs) (y # ys) = (if y < x then y # merged (x # xs) ys else x # merged xs (y # ys))"
| "merged xs [] = xs"
| "merged [] ys = ys"

lemma merged_Nil [simp]: "merged [] ys = ys"
  by (cases ys) simp_all

lemma mset_merged: "mset (merged xs ys) = mset xs + mset ys"
  by (induction xs ys rule: merged.induct) auto

lemma sorted_merged: "sorted xs \<Longrightarrow> sorted ys \<Longrightarrow> sorted (merged xs ys)"
proof (induction xs ys rule: merged.induct)
  case (1 x xs y ys)
  have "set (merged a b) = set a \<union> set b" for a b :: "int list"
    using mset_merged[of a b] by (metis set_mset_mset set_mset_union)
  then show ?case using 1 by auto
qed auto

text \<open>The integers that the bytes of a file hold; an incomplete one at the end is left out.\<close>

fun ints_of :: "byte list \<Rightarrow> int list" where
  "ints_of (a # b # c # d # rest) = sint (from_le32 [a, b, c, d]) # ints_of rest"
| "ints_of _ = []"

lemma ints_of_append:
  assumes "length xs = 4"
  shows "ints_of (xs @ rest) = sint (from_le32 xs) # ints_of rest"
proof -
  obtain a b c d where "xs = [a, b, c, d]" using assms by (auto simp: length_Suc_conv eval_nat_numeral)
  then show ?thesis by simp
qed

lemma ints_of_le32: "ints_of (concat (map le32 ws)) = map sint ws"
  by (induction ws) (simp_all add: ints_of_append from_le32_le32)

text \<open>The integers that a descriptor delivers until a read fails, is cut short or meets the end of the file.\<close>

function read_ints :: "source \<Rightarrow> int list" where
  "read_ints f = (case read_int f of None \<Rightarrow> [] | Some (v, f) \<Rightarrow> v # read_ints f)"
  by pat_completeness auto
termination
  by (relation "measure budget") (auto dest: read_int_budget)

declare read_ints.simps [simp del]

lemma read_int_next:
  assumes "read_int f = Some (v, f')"
  shows "ints_of (pending f) = v # ints_of (pending f')" and "answers f = [] \<Longrightarrow> answers f' = []"
proof -
  obtain xs where xs: "sys_read 4 f = (Inr xs, f')" "length xs = 4" "v = sint (from_le32 xs)"
    using assms by (auto simp: read_int_def split: prod.splits sum.splits if_splits)
  then have "pending f = xs @ pending f'" using fd.get_bytes[of 4 f xs f'] by simp
  then show "ints_of (pending f) = v # ints_of (pending f')" using xs by (simp add: ints_of_append)
  show "answers f' = []" if "answers f = []" using sys_read_answers[OF xs(1)] that by simp
qed

lemma read_int_end: "read_int f = None \<Longrightarrow> answers f = [] \<Longrightarrow> ints_of (pending f) = []"
  by (cases "pending f" rule: ints_of.cases) (auto simp: read_int_def sys_read_def split: if_splits)

lemma read_ints_step:
  "read_int f = None \<Longrightarrow> read_ints f = []"
  "read_int f = Some (v, f') \<Longrightarrow> read_ints f = v # read_ints f'"
  by (simp_all add: read_ints.simps[of f])

lemma read_ints_prefix: "(\<exists>m. read_ints f = take m (ints_of (pending f))) \<and> (answers f = [] \<longrightarrow> read_ints f = ints_of (pending f))"
proof (induction f rule: read_ints.induct)
  case (1 f)
  show ?case
  proof (cases "read_int f")
    case None
    then show ?thesis using read_int_end[of f] by (auto simp: read_ints_step(1) intro: exI[of _ 0])
  next
    case (Some r)
    obtain v f' where "r = (v, f')" by (cases r)
    with Some have r: "read_int f = Some (v, f')" by simp
    obtain m where m: "read_ints f' = take m (ints_of (pending f'))" using 1[OF r refl] by blast
    have "read_ints f = take (Suc m) (ints_of (pending f))" unfolding read_ints_step(2)[OF r] read_int_next(1)[OF r] m by simp
    then show ?thesis
      using 1[OF r refl] read_int_next[OF r] unfolding read_ints_step(2)[OF r] by metis
  qed
qed

text \<open>A descriptor with its peeked value stands for a stream; the loop merges the two.\<close>

definition stream_of :: "source option \<Rightarrow> int \<Rightarrow> int list" where
  "stream_of f p = (case f of None \<Rightarrow> [] | Some f \<Rightarrow> p # read_ints f)"

lemma merge_loop_merged: "merge_loop [f0, f1] [p0, p1] = merged (stream_of f0 p0) (stream_of f1 p1)"
proof (induction "open_budget f0 + open_budget f1" arbitrary: f0 p0 f1 p1 rule: less_induct)
  case less
  have pick: "pick_target [f0, f1] [p0, p1] =
      (if f0 = None then if f1 = None then None else Some 1
       else if f1 \<noteq> None \<and> p1 < p0 then Some 1 else Some 0)"
    by (auto simp: pick_target_def upt_rec)
  have first: "merge_loop [f0, f1] [p0, p1] = p0 # merged (read_ints s) (stream_of f1 p1)"
    if "pick_target [f0, f1] [p0, p1] = Some 0" "f0 = Some s" for s
  proof (cases "read_int s")
    case None
    have "merge_loop [None, f1] [p0, p1] = merged (stream_of None p0) (stream_of f1 p1)"
      by (rule less) (simp add: that open_budget_def)
    then show ?thesis using that None read_ints_step(1)[of s] by (subst merge_loop.simps) (simp add: stream_of_def)
  next
    case (Some r)
    obtain v s' where r: "r = (v, s')" by (cases r)
    have "merge_loop [Some s', f1] [v, p1] = merged (stream_of (Some s') v) (stream_of f1 p1)"
      by (rule less) (use that Some r read_int_budget[of s v s'] in \<open>simp add: open_budget_def\<close>)
    then show ?thesis using that Some r read_ints_step(2)[of s v s'] by (subst merge_loop.simps) (simp add: stream_of_def)
  qed
  have second: "merge_loop [f0, f1] [p0, p1] = p1 # merged (stream_of f0 p0) (read_ints s)"
    if "pick_target [f0, f1] [p0, p1] = Some 1" "f1 = Some s" for s
  proof (cases "read_int s")
    case None
    have "merge_loop [f0, None] [p0, p1] = merged (stream_of f0 p0) (stream_of None p1)"
      by (rule less) (simp add: that open_budget_def)
    then show ?thesis using that None read_ints_step(1)[of s] by (subst merge_loop.simps) (simp add: stream_of_def)
  next
    case (Some r)
    obtain v s' where r: "r = (v, s')" by (cases r)
    have "merge_loop [f0, Some s'] [p0, v] = merged (stream_of f0 p0) (stream_of (Some s') v)"
      by (rule less) (use that Some r read_int_budget[of s v s'] in \<open>simp add: open_budget_def\<close>)
    then show ?thesis using that Some r read_ints_step(2)[of s v s'] by (subst merge_loop.simps) (simp add: stream_of_def)
  qed
  show ?case
  proof (cases f0)
    case None
    then show ?thesis
      using pick second by (cases f1) (simp_all add: merge_loop.simps[of "[None, None]"] stream_of_def)
  next
    case f0: (Some s0)
    show ?thesis
    proof (cases f1)
      case None
      then show ?thesis using pick first f0 by (simp add: stream_of_def)
    next
      case (Some s1)
      then show ?thesis using pick first second f0 by (auto simp: stream_of_def)
    qed
  qed
qed

text \<open>The integers of a file, none if it does not exist.\<close>

definition file_ints :: "(string \<Rightarrow> byte list option) \<Rightarrow> string \<Rightarrow> int list" where
  "file_ints fs path = (case fs path of None \<Rightarrow> [] | Some content \<Rightarrow> ints_of content)"

definition delivered :: "source option \<Rightarrow> int list" where
  "delivered f = (case f of None \<Rightarrow> [] | Some f \<Rightarrow> read_ints f)"

lemma delivered_prefix:
  "\<exists>m. delivered (open_read fs as path) = take m (file_ints fs path)"
  "delivered (open_read fs (Some []) path) = file_ints fs path"
proof -
  have r: "\<exists>m. read_ints \<lparr>pending = c, answers = xs\<rparr> = take m (ints_of c)" "read_ints \<lparr>pending = c, answers = []\<rparr> = ints_of c" for c xs
    using read_ints_prefix[of "\<lparr>pending = c, answers = xs\<rparr>"] read_ints_prefix[of "\<lparr>pending = c, answers = []\<rparr>"] by simp_all
  have none: "\<exists>m. [] = take m ys" for ys :: "int list" by (rule exI[of _ 0]) simp
  show "\<exists>m. delivered (open_read fs as path) = take m (file_ints fs path)"
    using r(1) none by (simp add: delivered_def open_read_def file_ints_def split: option.split)
  show "delivered (open_read fs (Some []) path) = file_ints fs path"
    using r(2) by (simp add: delivered_def open_read_def file_ints_def split: option.split)
qed

lemma merge_result:
  "merge fs as0 as1 path1 path2 =
     (let xs = delivered (open_read fs as0 path1); ys = delivered (open_read fs as1 path1)
      in (0, if xs = [] \<or> ys = [] then [] else merged xs ys))"
proof -
  have "delivered (Some f) = (case read_int f of None \<Rightarrow> [] | Some (v, f) \<Rightarrow> stream_of (Some f) v)" for f
    using read_ints_step[of f] by (auto simp: delivered_def stream_of_def split: option.split)
  moreover have "delivered None = []" by (simp add: delivered_def)
  ultimately show ?thesis
    by (auto simp: merge_def merge_loop_merged Let_def stream_of_def split: option.splits)
qed

subsection \<open>Properties\<close>



text \<open>Seeking over every second integer.\<close>

lemma seek_loop_result:
  assumes "4 * n \<le> length content" and "i = 0 \<and> pos = 0 \<or> 2 \<le> i \<and> pos + 4 = 4 * i"
  shows "seek_loop content n i pos =
    Inr (map (\<lambda>k. (k, from_be32 (take 4 (drop (4 * k) content)))) (filter (\<lambda>k. even (k - i)) [i..<n]))"
  using assms
proof (induction content n i pos rule: seek_loop.induct)
  case (1 content n i pos)
  show ?case
  proof (cases "i < n")
    case True
    let ?p = "if i = 0 then pos else pos + 4"
    have p: "?p = 4 * i" using 1(3) by auto
    have fit: "4 * i + 4 \<le> length content" using True 1(2) by simp
    have rest: "seek_loop content n (i + 2) (4 * i + 4) =
        Inr (map (\<lambda>k. (k, from_be32 (take 4 (drop (4 * k) content)))) (filter (\<lambda>k. even (k - (i + 2))) [i + 2..<n]))"
      using 1(1)[OF True refl] 1(2) p fit by simp
    have "filter (\<lambda>k. even (k - i)) [i..<n] = i # filter (\<lambda>k. even (k - (i + 2))) [i + 2..<n]"
    proof (cases "i + 1 < n")
      case two: True
      have "[i..<n] = i # (i + 1) # [i + 2..<n]" using two by (simp add: upt_rec)
      moreover have "filter (\<lambda>k. even (k - i)) [i + 2..<n] = filter (\<lambda>k. even (k - (i + 2))) [i + 2..<n]"
        by (rule filter_cong) auto
      ultimately show ?thesis by simp
    next
      case False
      then show ?thesis using True by (simp add: upt_rec)
    qed
    then show ?thesis using True p fit rest by (simp add: seek_loop.simps[of content n i] Let_def)
  qed (simp add: seek_loop.simps[of content n i])
qed

text \<open>
  \<open>test_seek\<close> never reads behind the end and prints, for every even index, the index and the
  integer there in network byte order; a last odd integer and an incomplete one are left out.
\<close>
theorem test_seek_every_second:
  "test_seek (Some content) = Inr (0, map (\<lambda>k. (k, from_be32 (take 4 (drop (4 * k) content))))
     (filter even [0..<length content div 4]))"
  using seek_loop_result[of "length content div 4" content 0 0] by (simp add: test_seek_def)

text \<open>The loop of \<open>gen_file\<close> writes the integers in order when no write fails or is cut short.\<close>

lemma generate_loop_ok:
  "replies f = [] \<Longrightarrow> generate_loop n i f = (True, f\<lparr>accepted := accepted f @ concat (map (\<lambda>k. le32 (of_nat k)) [i..<i + n])\<rparr>)"
proof (induction n arbitrary: i f)
  case (Suc n)
  have "[i..<i + Suc n] = i # [i + 1..<i + 1 + n]" by (simp add: upt_rec[of i])
  then show ?case using Suc by (simp add: sys_write_def)
qed simp

lemma gen_file_content:
  "gen_file (Some old) [] =
     (0, Some (concat (map le32 (map of_nat [0..<256])) @ drop 1024 old))"
proof -
  have "length (concat (map (\<lambda>k. le32 (of_nat k)) [0..<256])) = 1024"
    by (simp add: length_concat comp_def sum_list_triv)
  then show ?thesis by (simp add: gen_file_def generate_loop_ok comp_def)
qed

text \<open>\<open>merge\<close> of a generated file.\<close>

lemma generated_merge:
  assumes "length old \<le> 1024" and "gen_file (Some old) [] = (r, Some content)" and "fs path1 = Some content"
  shows "\<exists>out. merge fs (Some []) (Some []) path1 path2 = (0, out) \<and> sorted out \<and>
    mset out = mset (map int [0..<256]) + mset (map int [0..<256])"
proof -
  let ?xs = "map of_nat [0..<256] :: 32 word list"
  have content: "content = concat (map le32 ?xs)" using assms(1,2) unfolding gen_file_content by simp
  have small: "sint (of_nat k :: 32 word) = int k" if "k < 256" for k
    using that by (simp add: sint_uint unsigned_of_nat signed_take_bit_int_eq_self take_bit_nat_eq_self)
  have vals: "map sint ?xs = map int [0..<256]" by (simp add: small)
  have ints: "file_ints fs path1 = map int [0..<256]"
    using assms(3) by (simp only: file_ints_def content option.case ints_of_le32 vals)
  have "merge fs (Some []) (Some []) path1 path2 = (0, merged (map int [0..<256]) (map int [0..<256]))"
    unfolding merge_result delivered_prefix(2) ints Let_def by simp
  moreover have "sorted (map int [0..<256])" by (simp add: sorted_map sorted_wrt_upt)
  ultimately show ?thesis by (auto simp: mset_merged sorted_merged simp del: mset_map)
qed

subsection \<open>\<open>main\<close>\<close>

text \<open>
  The two files as they are before, with the answers to the writes and to the reads of \<open>merge\<close>; the numbers that \<open>merge\<close>
  prints, and the lines of \<open>test_seek\<close>.
\<close>

definition files_main :: "byte list option \<Rightarrow> byte list option \<Rightarrow> answer list \<Rightarrow> answer list \<Rightarrow>
    answer list option \<Rightarrow> answer list option \<Rightarrow> c_error + int \<times> int list \<times> (nat \<times> 32 word) list" where
  "files_main old_a old_b wa wb as0 as1 =
     (let (ra, a) = gen_file old_a wa
      in if ra = -1 then Inr (-1, [], [])
      else let (rb, b) = gen_file old_b wb
      in if rb = -1 then Inr (-1, [], [])
      else let (rm, out) = merge (\<lambda>p. if p = ''./a'' then a else if p = ''./b'' then b else None) as0 as1 ''./a'' ''./b''
      in if rm = -1 then Inr (-1, out, [])
      else bindE (test_seek a) (\<lambda>(rs, seeks). Inr (if rs \<noteq> -1 then 0 else -1, out, seeks)))"

lemma generated_block:
  assumes "k < 256"
  shows "take 4 (drop (4 * k) (concat (map le32 (map of_nat [0..<256])))) = le32 (of_nat k)"
proof -
  have len: "length (le32 x) = 4" for x by (simp add: le32_def)
  have block: "take 4 (drop (4 * k) (concat (map le32 xs))) = le32 (xs ! k)" if "k < length xs" for xs
    using that
  proof (induction xs arbitrary: k)
    case (Cons x xs)
    then show ?case by (cases k) (simp_all add: len)
  qed simp
  show ?thesis using assms block[of "map of_nat [0..<256]"] by simp
qed

text \<open>
  The whole program, on files of at most 1024 bytes and without failing reads and writes: \<open>merge\<close> prints each of 0 to
  255 twice and in order, because it opens its first file twice, and \<open>test_seek\<close> prints the even numbers
  with the bytes of their values reversed, because \<open>generate_file\<close> writes them in the machine's order; the
  program returns 0.
\<close>
theorem files_main_prints:
  assumes "length old_a \<le> 1024"
  shows "\<exists>out. files_main (Some old_a) (Some old_b) [] [] (Some []) (Some []) =
      Inr (0, out, map (\<lambda>k. (k, from_be32 (le32 (of_nat k)))) (filter even [0..<256])) \<and>
    sorted out \<and> mset out = mset (map int [0..<256]) + mset (map int [0..<256])"
proof -
  define c where "c = concat (map le32 (map of_nat [0..<256]))"
  let ?lines = "map (\<lambda>k. (k, from_be32 (le32 (of_nat k)))) (filter even [0..<256])"
  have a: "gen_file (Some old_a) [] = (0, Some c)" using assms unfolding gen_file_content c_def by simp
  obtain cb where b: "gen_file (Some old_b) [] = (0, Some cb)" unfolding gen_file_content by blast
  obtain out where out: "merge (\<lambda>p. if p = ''./a'' then Some c else if p = ''./b'' then Some cb else None)
      (Some []) (Some []) ''./a'' ''./b'' = (0, out)" "sorted out" "mset out = mset (map int [0..<256]) + mset (map int [0..<256])"
    using generated_merge[OF assms a, of "\<lambda>p. if p = ''./a'' then Some c else if p = ''./b'' then Some cb else None"
        "''./a''" "''./b''"] by auto
  have n: "length c div 4 = 256" by (simp add: c_def length_concat comp_def le32_def sum_list_triv)
  have "map (\<lambda>k. (k, from_be32 (take 4 (drop (4 * k) c)))) (filter even [0..<256]) = ?lines"
    unfolding c_def by (rule map_cong[OF refl]) (auto simp: generated_block simp del: map_map)
  then have seek: "test_seek (Some c) = Inr (0, ?lines)"
    unfolding test_seek_every_second n by (simp only:)
  have "files_main (Some old_a) (Some old_b) [] [] (Some []) (Some []) = Inr (0, out, ?lines)"
    unfolding files_main_def a b by (simp add: out(1) seek)
  then show ?thesis using out(2,3) by blast
qed

theorem files_main_prints_witness:
  "\<exists>out. files_main (Some []) (Some [7]) [] [] (Some []) (Some []) =
      Inr (0, out, map (\<lambda>k. (k, from_be32 (le32 (of_nat k)))) (filter even [0..<256])) \<and> sorted out"
  using files_main_prints[of "[]" "[7]"] by auto

end
