(* ===== verification/SequencePrint.thy ===== *)
theory SequencePrint
  imports Transition
begin

text \<open>
  \<open>src/signal/sequence_print/main.c\<close>: a parent wakes four children in turn by \<open>SIGUSR1\<close>; the child
  prints the shared counter, increments it and signals the parent back.  Process 0 is the parent,
  process \<open>i + 1\<close> is \<open>children[i]\<close>.  A step is one access to a shared or asynchronously changed
  object; the handler may run between any two steps of its process, which is why the check of
  \<open>received\<close> and the call of \<open>pause\<close> in \<open>wait_signal\<close> are separate.  A standard signal that is already
  pending is not queued a second time.  \<open>printed\<close> is the order of the calls of \<open>printf\<close>; they reach a terminal, which takes
  each line at once, but in any other output the \<open>SIGKILL\<close> loses what the children have buffered.
\<close>

subsection \<open>Code\<close>

definition CHILDREN_COUNT :: nat where "CHILDREN_COUNT = 4"
definition LIMIT :: nat where "LIMIT = 100"

datatype pc =
    Check            \<comment> \<open>\<open>while (!received)\<close>\<close>
  | BeforePause      \<comment> \<open>the test failed, \<open>pause\<close> is not yet called\<close>
  | Pausing
  | Clear            \<comment> \<open>\<open>received = 0\<close>\<close>
  | Act              \<comment> \<open>\<open>wait_signal\<close> has returned\<close>
  | Store nat        \<comment> \<open>a child that has read \<open>*mem\<close> and is about to increment it\<close>
  | Print nat        \<comment> \<open>a child about to print the value\<close>
  | Notify           \<comment> \<open>a child about to signal the parent\<close>
  | Signal nat       \<comment> \<open>the parent about to signal \<open>children[next]\<close>\<close>
  | Killing nat      \<comment> \<open>the parent after its loop, at \<open>children[i]\<close>\<close>
  | Finished

record seq_state =
  pcs :: "nat \<Rightarrow> pc"
  received :: "nat \<Rightarrow> bool"
  pending :: "nat \<Rightarrow> bool"
  index :: nat
  mem :: nat
  printed :: "nat list"

text \<open>After the forks and the \<open>raise\<close>, whose handler has run.\<close>

definition seq_start :: seq_state where
  "seq_start = \<lparr>pcs = (\<lambda>_. Check), received = (\<lambda>p. p = 0), pending = (\<lambda>_. False), index = 0, mem = 0, printed = []\<rparr>"

definition seq_init :: "seq_state \<Rightarrow> bool" where
  "seq_init s \<longleftrightarrow> s = seq_start"

inductive seq_step :: "seq_state \<Rightarrow> seq_state \<Rightarrow> bool" where
  handler: "p \<le> CHILDREN_COUNT \<Longrightarrow> pending s p \<Longrightarrow>
    seq_step s (s\<lparr>pending := (pending s)(p := False), received := (received s)(p := True),
      pcs := (pcs s)(p := if pcs s p = Pausing then Check else pcs s p)\<rparr>)"
| check: "p \<le> CHILDREN_COUNT \<Longrightarrow> pcs s p = Check \<Longrightarrow>
    seq_step s (s\<lparr>pcs := (pcs s)(p := if received s p then Clear else BeforePause)\<rparr>)"
| pause: "p \<le> CHILDREN_COUNT \<Longrightarrow> pcs s p = BeforePause \<Longrightarrow> seq_step s (s\<lparr>pcs := (pcs s)(p := Pausing)\<rparr>)"
| clear: "p \<le> CHILDREN_COUNT \<Longrightarrow> pcs s p = Clear \<Longrightarrow>
    seq_step s (s\<lparr>received := (received s)(p := False), pcs := (pcs s)(p := Act)\<rparr>)"
| parent_test: "pcs s 0 = Act \<Longrightarrow> mem s < LIMIT \<Longrightarrow>
    seq_step s (s\<lparr>index := index s + 1, pcs := (pcs s)(0 := Signal (index s mod CHILDREN_COUNT))\<rparr>)"
| parent_signal: "pcs s 0 = Signal nxt \<Longrightarrow>
    seq_step s (s\<lparr>pending := (pending s)(nxt + 1 := True), pcs := (pcs s)(0 := Check)\<rparr>)"
| parent_break: "pcs s 0 = Act \<Longrightarrow> \<not> mem s < LIMIT \<Longrightarrow>
    seq_step s (s\<lparr>index := index s + 1, pcs := (pcs s)(0 := Killing 0)\<rparr>)"
| parent_kill: "pcs s 0 = Killing i \<Longrightarrow> i < CHILDREN_COUNT \<Longrightarrow>
    seq_step s (s\<lparr>pending := (pending s)(i + 1 := False), pcs := (pcs s)(i + 1 := Finished, 0 := Killing (i + 1))\<rparr>)"
| parent_return: "pcs s 0 = Killing i \<Longrightarrow> \<not> i < CHILDREN_COUNT \<Longrightarrow> seq_step s (s\<lparr>pcs := (pcs s)(0 := Finished)\<rparr>)"
| child_load: "0 < p \<Longrightarrow> p \<le> CHILDREN_COUNT \<Longrightarrow> pcs s p = Act \<Longrightarrow> seq_step s (s\<lparr>pcs := (pcs s)(p := Store (mem s))\<rparr>)"
| child_store: "p \<le> CHILDREN_COUNT \<Longrightarrow> pcs s p = Store v \<Longrightarrow>
    seq_step s (s\<lparr>mem := v + 1, pcs := (pcs s)(p := Print v)\<rparr>)"
| child_print: "p \<le> CHILDREN_COUNT \<Longrightarrow> pcs s p = Print v \<Longrightarrow>
    seq_step s (s\<lparr>printed := printed s @ [v], pcs := (pcs s)(p := Notify)\<rparr>)"
| child_notify: "p \<le> CHILDREN_COUNT \<Longrightarrow> pcs s p = Notify \<Longrightarrow>
    seq_step s (s\<lparr>pending := (pending s)(0 := True), pcs := (pcs s)(p := Check)\<rparr>)"

subsection \<open>The token\<close>

text \<open>
  Exactly one process, \<open>h\<close>, has the turn: a signal for it is pending or noted, or it is acting on one.
  All others are somewhere in \<open>wait_signal\<close>.
\<close>

definition waiting :: "pc \<Rightarrow> bool" where
  "waiting c \<longleftrightarrow> c = Check \<or> c = BeforePause \<or> c = Pausing"

definition has_turn :: "seq_state \<Rightarrow> nat \<Rightarrow> bool" where
  "has_turn s h \<longleftrightarrow>
     (pending s h \<and> \<not> received s h \<and> waiting (pcs s h)) \<or>
     (\<not> pending s h \<and> received s h \<and> (waiting (pcs s h) \<or> pcs s h = Clear)) \<or>
     (\<not> pending s h \<and> \<not> received s h \<and> (pcs s h = Act \<or>
        (if h = 0 then \<exists>n < CHILDREN_COUNT. pcs s h = Signal n
         else pcs s h = Notify \<or> (\<exists>v. pcs s h = Store v \<or> pcs s h = Print v))))"

definition rests :: "seq_state \<Rightarrow> nat \<Rightarrow> bool" where
  "rests s p \<longleftrightarrow> \<not> pending s p \<and> \<not> received s p \<and> waiting (pcs s p)"

text \<open>The numbers printed, given that \<open>h\<close> has the turn.\<close>

definition counted :: "seq_state \<Rightarrow> nat \<Rightarrow> bool" where
  "counted s h \<longleftrightarrow>
     (case pcs s h of Print v \<Rightarrow> mem s = v + 1 \<and> printed s = [0..<v]
      | Store v \<Rightarrow> mem s = v \<and> printed s = [0..<mem s]
      | _ \<Rightarrow> printed s = [0..<mem s]) \<and>
     mem s \<le> LIMIT \<and>
     (h \<noteq> 0 \<longrightarrow> pcs s h \<noteq> Notify \<longrightarrow> (\<forall>v. pcs s h \<noteq> Print v) \<longrightarrow> mem s < LIMIT) \<and>
     (\<forall>n. pcs s h = Signal n \<longrightarrow> mem s < LIMIT)"

text \<open>The parent has left its loop and killed the first \<open>i\<close> children.\<close>

definition ending :: "seq_state \<Rightarrow> nat \<Rightarrow> bool" where
  "ending s i \<longleftrightarrow> i \<le> CHILDREN_COUNT \<and> (pcs s 0 = Killing i \<or> i = CHILDREN_COUNT \<and> pcs s 0 = Finished) \<and>
     \<not> pending s 0 \<and> (\<forall>p \<in> {1..i}. pcs s p = Finished \<and> \<not> pending s p) \<and> (\<forall>p \<in> {i<..CHILDREN_COUNT}. rests s p) \<and>
     printed s = [0..<LIMIT]"

definition seq_inv :: "seq_state \<Rightarrow> bool" where
  "seq_inv s \<longleftrightarrow>
     (\<exists>h \<le> CHILDREN_COUNT. has_turn s h \<and> counted s h \<and> (\<forall>p \<le> CHILDREN_COUNT. p \<noteq> h \<longrightarrow> rests s p)) \<or>
     (\<exists>i. ending s i)"

lemma seq_inv_init: "seq_init s \<Longrightarrow> seq_inv s"
  unfolding seq_inv_def
  by (rule disjI1, rule exI[of _ 0])
    (auto simp: seq_init_def seq_start_def has_turn_def counted_def rests_def waiting_def)

text \<open>A step that changes only process \<open>h\<close>, which keeps the turn.\<close>

lemma keep_turn:
  assumes "\<forall>p \<le> CHILDREN_COUNT. p \<noteq> h \<longrightarrow> rests s p" and "h \<le> CHILDREN_COUNT"
    and "\<And>p. p \<noteq> h \<Longrightarrow> pcs t p = pcs s p \<and> received t p = received s p \<and> pending t p = pending s p"
    and "has_turn t h" "counted t h"
  shows "seq_inv t"
proof -
  have "rests t p" if "p \<le> CHILDREN_COUNT" "p \<noteq> h" for p
    using assms(1) assms(3)[OF that(2)] that unfolding rests_def by simp
  then show ?thesis using assms(2,4,5) unfolding seq_inv_def by blast
qed

text \<open>A step that passes the turn from \<open>h\<close> to \<open>g\<close> by a signal.\<close>

lemma pass_turn:
  assumes "\<forall>p \<le> CHILDREN_COUNT. p \<noteq> h \<longrightarrow> rests s p" and "g \<le> CHILDREN_COUNT" "g \<noteq> h"
    and "pcs t = (pcs s)(h := Check)" "received t = received s" "pending t = (pending s)(g := True)"
    and "\<not> received s h" "\<not> pending s h"
    and "printed t = [0..<mem t]" "mem t \<le> LIMIT" "g \<noteq> 0 \<longrightarrow> mem t < LIMIT"
  shows "seq_inv t"
proof -
  have g: "rests s g" using assms(1-3) by blast
  then have "has_turn t g" using assms(3-6) by (auto simp: has_turn_def rests_def waiting_def)
  moreover have "counted t g"
    using g assms(3,4,9-11) by (auto simp: counted_def rests_def waiting_def split: pc.splits)
  moreover have "rests t p" if "p \<le> CHILDREN_COUNT" "p \<noteq> g" for p
    using assms that by (cases "p = h") (auto simp: rests_def waiting_def)
  ultimately show ?thesis using assms(2) unfolding seq_inv_def by blast
qed

text \<open>A resting process can only move within \<open>wait_signal\<close>.\<close>

lemma rest_moves:
  assumes "has_turn s h" "counted s h" "h \<le> CHILDREN_COUNT" and "\<forall>p \<le> CHILDREN_COUNT. p \<noteq> h \<longrightarrow> rests s p"
    and "q \<noteq> h" and "waiting c"
  shows "seq_inv (s\<lparr>pcs := (pcs s)(q := c)\<rparr>)"
proof -
  let ?t = "s\<lparr>pcs := (pcs s)(q := c)\<rparr>"
  have eq: "pcs ?t h = pcs s h" "pending ?t h = pending s h" "received ?t h = received s h"
    "mem ?t = mem s" "printed ?t = printed s" using assms(5) by simp_all
  have "has_turn ?t h" using assms(1) unfolding has_turn_def eq .
  moreover have "counted ?t h" using assms(2) unfolding counted_def eq .
  moreover have "rests ?t p" if "p \<le> CHILDREN_COUNT" "p \<noteq> h" for p
    using assms(4,6) that by (auto simp: rests_def)
  ultimately show ?thesis using assms(3) unfolding seq_inv_def by blast
qed

text \<open>While the parent kills, the children that are left rest.\<close>

lemma ending_step:
  assumes e: "ending s i" and step: "seq_step s t"
  shows "\<exists>j. ending t j"
proof -
  have i: "i \<le> CHILDREN_COUNT" using e by (simp add: ending_def)
  have quiet: "pcs s p = Finished \<or> rests s p" "\<not> pending s p" if "p \<le> CHILDREN_COUNT" "p \<noteq> 0" for p
    using e that by (cases "p \<le> i"; force simp: ending_def rests_def)+
  have zero: "\<not> pending s 0" "pcs s 0 = Finished \<or> pcs s 0 = Killing i" using e by (auto simp: ending_def)
  have pend: "\<not> pending s p" if "p \<le> CHILDREN_COUNT" for p using quiet(2) zero(1) that by (cases "p = 0") auto
  have pc: "pcs s p = Finished \<or> pcs s p = Killing i \<or> waiting (pcs s p) \<and> \<not> received s p" if "p \<le> CHILDREN_COUNT" for p
    using quiet(1) zero(2) that by (cases "p = 0") (auto simp: rests_def)
  have moves: "ending (s\<lparr>pcs := (pcs s)(p := c)\<rparr>) i" if "p \<le> CHILDREN_COUNT" "waiting (pcs s p)" "waiting c" for p c
  proof -
    have "p \<noteq> 0" using zero(2) that(2) by (intro notI) (auto simp: waiting_def)
    moreover have "\<not> p \<le> i" using e that(2) \<open>p \<noteq> 0\<close> by (auto simp: ending_def waiting_def)
    ultimately show ?thesis using e that(3) by (auto simp: ending_def rests_def)
  qed
  from step show ?thesis
  proof cases
    case (check p)
    then have "\<not> received s p" "waiting (pcs s p)" using pc[of p] by (auto simp: waiting_def)
    then show ?thesis using moves[of p BeforePause] check by (auto simp: waiting_def)
  next
    case (pause p)
    then show ?thesis using moves[of p Pausing] by (auto simp: waiting_def)
  next
    case (parent_kill j)
    then have j: "j = i" using zero(2) by auto
    have "ending t (i + 1)"
      using e parent_kill j by (auto simp: ending_def rests_def)
    then show ?thesis ..
  next
    case (parent_return j)
    then have "j = i" using zero(2) by auto
    then have "ending t i" using e parent_return i by (auto simp: ending_def rests_def)
    then show ?thesis ..
  next
    case (handler p)
    then show ?thesis using pend by blast
  next
    case (clear p)
    then show ?thesis using pc[of p] by (simp add: waiting_def)
  next
    case (child_load p)
    then show ?thesis using pc[of p] by (simp add: waiting_def)
  next
    case (child_store p)
    then show ?thesis using pc[of p] by (simp add: waiting_def)
  next
    case (child_print p)
    then show ?thesis using pc[of p] by (simp add: waiting_def)
  next
    case (child_notify p)
    then show ?thesis using pc[of p] by (simp add: waiting_def)
  qed (use zero(2) in auto)
qed

lemma seq_inv_step:
  assumes inv: "seq_inv s" and step: "seq_step s t"
  shows "seq_inv t"
proof (cases "\<exists>i. ending s i")
  case True
  then show ?thesis using ending_step[OF _ step] by (auto simp: seq_inv_def)
next
  case False
  then obtain h where h: "h \<le> CHILDREN_COUNT" "has_turn s h" "counted s h"
    and r: "\<forall>p \<le> CHILDREN_COUNT. p \<noteq> h \<longrightarrow> rests s p"
    using inv by (auto simp: seq_inv_def)
  have turn: "p = h" if "p \<le> CHILDREN_COUNT" "\<not> waiting (pcs s p) \<or> pending s p \<or> received s p" for p
    using r that by (auto simp: rests_def)
  from step show ?thesis
  proof cases
    case (handler p)
    then have p: "p = h" using turn by blast
    show ?thesis
      by (rule keep_turn[OF r h(1)])
        (use handler p h in \<open>auto simp: has_turn_def counted_def waiting_def split: if_splits\<close>)
  next
    case (check p)
    show ?thesis
    proof (cases "p = h")
      case True
      show ?thesis
        by (rule keep_turn[OF r h(1)])
          (use check True h in \<open>auto simp: has_turn_def counted_def waiting_def\<close>)
    next
      case False
      then have "\<not> received s p" using r check by (simp add: rests_def)
      then show ?thesis using rest_moves[OF h(2,3,1) r False, of BeforePause] check by (simp add: waiting_def)
    qed
  next
    case (pause p)
    show ?thesis
    proof (cases "p = h")
      case True
      show ?thesis
        by (rule keep_turn[OF r h(1)])
          (use pause True h in \<open>auto simp: has_turn_def counted_def waiting_def\<close>)
    next
      case False
      then show ?thesis using rest_moves[OF h(2,3,1) r False, of Pausing] pause by (simp add: waiting_def)
    qed
  next
    case (clear p)
    then have p: "p = h" using turn by (auto simp: waiting_def)
    show ?thesis
      by (rule keep_turn[OF r h(1)])
        (use clear p h in \<open>auto simp: has_turn_def counted_def waiting_def\<close>)
  next
    case parent_test
    then have p: "0 = h" using turn[of 0] by (auto simp: waiting_def)
    have "index s mod CHILDREN_COUNT < CHILDREN_COUNT" by (simp add: CHILDREN_COUNT_def)
    then show ?thesis
      by (intro keep_turn[OF r h(1)])
        (use parent_test p h in \<open>auto simp: has_turn_def counted_def waiting_def\<close>)
  next
    case (parent_signal nxt)
    then have p: "0 = h" using turn[of 0] by (auto simp: waiting_def)
    have "nxt + 1 \<le> CHILDREN_COUNT" using parent_signal p h(2) by (auto simp: has_turn_def waiting_def)
    then show ?thesis
      using parent_signal p h r
      by (intro pass_turn[of 0 s "nxt + 1"]) (auto simp: has_turn_def counted_def waiting_def)
  next
    case parent_break
    then have p: "0 = h" using turn[of 0] by (auto simp: waiting_def)
    have "ending t 0"
      using parent_break p h r by (auto simp: ending_def has_turn_def counted_def waiting_def rests_def)
    then show ?thesis by (auto simp: seq_inv_def)
  next
    case (parent_kill i)
    then show ?thesis using turn[of 0] h(2) by (auto simp: has_turn_def waiting_def)
  next
    case (parent_return i)
    then show ?thesis using turn[of 0] h(2) by (auto simp: has_turn_def waiting_def)
  next
    case (child_load p)
    then have p: "p = h" using turn by (auto simp: waiting_def)
    show ?thesis
      by (rule keep_turn[OF r h(1)])
        (use child_load p h in \<open>auto simp: has_turn_def counted_def waiting_def\<close>)
  next
    case (child_store p v)
    then have p: "p = h" using turn by (auto simp: waiting_def)
    have "h \<noteq> 0" using child_store h(2) p by (auto simp: has_turn_def waiting_def split: if_splits)
    show ?thesis
      by (rule keep_turn[OF r h(1)])
        (use child_store p h \<open>h \<noteq> 0\<close> in \<open>auto simp: has_turn_def counted_def waiting_def\<close>)
  next
    case (child_print p v)
    then have p: "p = h" using turn by (auto simp: waiting_def)
    have "h \<noteq> 0" using child_print h(2) p by (auto simp: has_turn_def waiting_def split: if_splits)
    show ?thesis
      by (rule keep_turn[OF r h(1)])
        (use child_print p h \<open>h \<noteq> 0\<close> in \<open>auto simp: has_turn_def counted_def waiting_def\<close>)
  next
    case (child_notify p)
    then have p: "p = h" using turn by (auto simp: waiting_def)
    have "p \<noteq> 0" using child_notify h(2) p by (auto simp: has_turn_def waiting_def split: if_splits)
    then show ?thesis
      using child_notify p h r
      by (intro pass_turn[of p s 0]) (auto simp: has_turn_def counted_def waiting_def)
  qed
qed

interpretation sequence: transition_system seq_init seq_step seq_inv
  by unfold_locales (auto intro: seq_inv_init seq_inv_step)

subsection \<open>Properties\<close>

text \<open>Inside \<open>wait_signal\<close> or gone.\<close>

definition asleep :: "pc \<Rightarrow> bool" where
  "asleep c \<longleftrightarrow> waiting c \<or> c = Finished"

text \<open>
  C31. In every interleaving of the five processes and their signal handlers the numbers printed so far
  are 0, 1, 2, ... in order, without gap or repetition and below \<open>LIMIT\<close>; two processes are never
  outside \<open>wait_signal\<close> at once; and when the parent has ended, exactly 0 to 99 were printed and no child is left.
\<close>
theorem sequence_in_order:
  assumes "reachable seq_init seq_step s"
  shows "(\<exists>k \<le> LIMIT. printed s = [0..<k]) \<and>
    (\<forall>p \<le> CHILDREN_COUNT. \<forall>q \<le> CHILDREN_COUNT. \<not> asleep (pcs s p) \<longrightarrow> \<not> asleep (pcs s q) \<longrightarrow> p = q) \<and>
    (pcs s 0 = Finished \<longrightarrow> printed s = [0..<100] \<and> (\<forall>p \<le> CHILDREN_COUNT. pcs s p = Finished))"
proof -
  have "seq_inv s" by (rule sequence.inv_reachable[OF assms])
  then consider (turn) h where "h \<le> CHILDREN_COUNT" "has_turn s h" "counted s h"
      "\<forall>p \<le> CHILDREN_COUNT. p \<noteq> h \<longrightarrow> rests s p"
    | (over) i where "ending s i"
    by (auto simp: seq_inv_def)
  then show ?thesis
  proof cases
    case turn
    have "\<exists>k \<le> LIMIT. printed s = [0..<k]"
    proof (cases "\<exists>v. pcs s h = Print v")
      case True
      then obtain v where "pcs s h = Print v" ..
      then have "printed s = [0..<v]" "v \<le> LIMIT" using turn(3) by (simp_all add: counted_def)
      then show ?thesis by blast
    next
      case False
      then have "printed s = [0..<mem s]" using turn(3) by (cases "pcs s h") (auto simp: counted_def)
      then show ?thesis using turn(3) by (auto simp: counted_def)
    qed
    moreover have "p = h" if "p \<le> CHILDREN_COUNT" "\<not> asleep (pcs s p)" for p
      using turn(4) that by (auto simp: rests_def asleep_def)
    moreover have "pcs s 0 \<noteq> Finished"
      using turn(2,4) by (cases "h = 0") (auto simp: has_turn_def rests_def waiting_def)
    ultimately show ?thesis by blast
  next
    case over
    have "asleep (pcs s p)" if "p \<le> CHILDREN_COUNT" "p \<noteq> 0" for p
      using over that by (cases "p \<le> i") (auto simp: ending_def rests_def asleep_def)
    then have "p = 0" if "p \<le> CHILDREN_COUNT" "\<not> asleep (pcs s p)" for p using that by blast
    moreover have "pcs s p = Finished" if "pcs s 0 = Finished" "p \<le> CHILDREN_COUNT" for p
      using over that by (cases "p = 0") (auto simp: ending_def)
    moreover have "printed s = [0..<LIMIT]" using over by (simp add: ending_def)
    ultimately show ?thesis by (auto simp: LIMIT_def)
  qed
qed

theorem sequence_in_order_witness: "\<exists>k \<le> LIMIT. printed seq_start = [0..<k]"
  using sequence_in_order[OF reach_init[of seq_init seq_start seq_step]] by (auto simp: seq_init_def)

text \<open>The parent and a child that slept through their signals.\<close>

definition seq_stuck_state :: seq_state where
  "seq_stuck_state = \<lparr>pcs = (\<lambda>p. if p \<le> CHILDREN_COUNT then Pausing else Check), received = (\<lambda>p. p = 1),
     pending = (\<lambda>_. False), index = 1, mem = 0, printed = []\<rparr>"

lemma sleep:
  assumes "p \<le> CHILDREN_COUNT" "pcs s p = Check" "\<not> received s p"
  shows "seq_step\<^sup>*\<^sup>* s (s\<lparr>pcs := (pcs s)(p := Pausing)\<rparr>)"
proof -
  have "seq_step s (s\<lparr>pcs := (pcs s)(p := if received s p then Clear else BeforePause)\<rparr>)"
    by (rule check[OF assms(1,2)])
  then have 1: "seq_step s (s\<lparr>pcs := (pcs s)(p := BeforePause)\<rparr>)" using assms(3) by simp
  have "seq_step (s\<lparr>pcs := (pcs s)(p := BeforePause)\<rparr>)
      ((s\<lparr>pcs := (pcs s)(p := BeforePause)\<rparr>)\<lparr>pcs := (pcs (s\<lparr>pcs := (pcs s)(p := BeforePause)\<rparr>))(p := Pausing)\<rparr>)"
    by (rule pause[OF assms(1)]) simp
  with 1 show ?thesis by simp
qed

lemma sleep_all:
  "distinct ps \<Longrightarrow> \<forall>p \<in> set ps. p \<le> CHILDREN_COUNT \<and> pcs s p = Check \<and> \<not> received s p \<Longrightarrow>
     seq_step\<^sup>*\<^sup>* s (s\<lparr>pcs := (\<lambda>q. if q \<in> set ps then Pausing else pcs s q)\<rparr>)"
proof (induction ps arbitrary: s)
  case (Cons p ps)
  let ?t = "s\<lparr>pcs := (pcs s)(p := Pausing)\<rparr>"
  have "seq_step\<^sup>*\<^sup>* s ?t" using Cons.prems by (intro sleep) auto
  also have "seq_step\<^sup>*\<^sup>* ?t (?t\<lparr>pcs := (\<lambda>q. if q \<in> set ps then Pausing else pcs ?t q)\<rparr>)"
    using Cons.prems by (intro Cons.IH) auto
  also have "?t\<lparr>pcs := (\<lambda>q. if q \<in> set ps then Pausing else pcs ?t q)\<rparr> =
      s\<lparr>pcs := (\<lambda>q. if q \<in> set (p # ps) then Pausing else pcs s q)\<rparr>"
    by (simp add: fun_eq_iff)
  finally show ?case .
qed simp

text \<open>
  C32. A wake-up can be lost: when the handler runs between the test of \<open>received\<close> and \<open>pause\<close>, the
  process sleeps although its signal has come, and nobody is left to signal anyone.  A state in which
  no process can ever move again is reachable before a single number is printed.
\<close>
theorem sequence_lost_wakeup:
  "reachable seq_init seq_step seq_stuck_state \<and> stuck seq_step seq_stuck_state \<and> printed seq_stuck_state = []"
proof -
  note defs = seq_start_def CHILDREN_COUNT_def
  define s1 where "s1 = seq_start\<lparr>pcs := (\<lambda>_. Check)(0 := Clear)\<rparr>"
  define s2 where "s2 = seq_start\<lparr>received := (\<lambda>_. False), pcs := (\<lambda>_. Check)(0 := Act)\<rparr>"
  define s2' where "s2' = seq_start\<lparr>received := (\<lambda>_. False), index := 1, pcs := (\<lambda>_. Check)(0 := Signal 0)\<rparr>"
  define s3 where "s3 = seq_start\<lparr>received := (\<lambda>_. False), index := 1, pending := (\<lambda>_. False)(1 := True)\<rparr>"
  define s4 where "s4 = seq_start\<lparr>received := (\<lambda>_. False), index := 1, pending := (\<lambda>_. False)(1 := True), pcs := (\<lambda>_. Check)(1 := BeforePause)\<rparr>"
  define s5 where "s5 = seq_start\<lparr>received := (\<lambda>_. False)(1 := True), index := 1, pcs := (\<lambda>_. Check)(1 := BeforePause)\<rparr>"
  define s6 where "s6 = seq_start\<lparr>received := (\<lambda>_. False)(1 := True), index := 1, pcs := (\<lambda>_. Check)(1 := Pausing)\<rparr>"
  have "seq_step seq_start s1" using check[of 0 seq_start] by (simp add: s1_def defs fun_upd_def)
  moreover have "seq_step s1 s2" using clear[of 0 s1] by (simp add: s1_def s2_def defs fun_upd_def cong: if_cong)
  moreover have "seq_step s2 s2'"
    using parent_test[of s2] by (simp add: s2_def s2'_def defs LIMIT_def fun_upd_def fun_eq_iff cong: if_cong)
  moreover have "seq_step s2' s3"
    using parent_signal[of s2' 0] by (simp add: s2'_def s3_def defs fun_upd_def fun_eq_iff cong: if_cong)
  moreover have "seq_step s3 s4" using check[of 1 s3] by (simp add: s3_def s4_def defs fun_upd_def)
  moreover have "seq_step s4 s5" using handler[of 1 s4] by (simp add: s4_def s5_def defs fun_upd_def cong: if_cong)
  moreover have "seq_step s5 s6" using pause[of 1 s5] by (simp add: s5_def s6_def defs fun_upd_def cong: if_cong)
  ultimately have "seq_step\<^sup>*\<^sup>* seq_start s6" by (meson converse_rtranclp_into_rtranclp rtranclp.rtrancl_refl)
  also have "seq_step\<^sup>*\<^sup>* s6 (s6\<lparr>pcs := (\<lambda>q. if q \<in> set [0, 2, 3, 4] then Pausing else pcs s6 q)\<rparr>)"
    by (rule sleep_all) (simp_all add: s6_def defs)
  also have "s6\<lparr>pcs := (\<lambda>q. if q \<in> set [0, 2, 3, 4] then Pausing else pcs s6 q)\<rparr> = seq_stuck_state"
    by (auto simp: s6_def seq_stuck_state_def defs fun_eq_iff)
  finally have "reachable seq_init seq_step seq_stuck_state"
    using reachable_steps[OF reach_init[of seq_init seq_start seq_step]] by (simp add: seq_init_def)
  moreover have "stuck seq_step seq_stuck_state"
    unfolding stuck_def
  proof (intro allI notI)
    fix t assume "seq_step seq_stuck_state t"
    then show False by cases (auto simp: seq_stuck_state_def CHILDREN_COUNT_def)
  qed
  ultimately show ?thesis by (simp add: seq_stuck_state_def)
qed

end
