(* ===== verification/Decimal.thy ===== *)
theory Decimal
  imports Prelude
begin

text \<open>
  Unsigned decimal text, as \<open>printf("%u")\<close> writes it and \<open>scanf\<close> and \<open>atoi\<close> read it: the digits of a
  number, their value, and bounds on their number.
\<close>

fun decimal :: "nat \<Rightarrow> byte list" where
  "decimal n = (if n < 10 then [of_nat (48 + n)] else decimal (n div 10) @ [of_nat (48 + n mod 10)])"

declare decimal.simps [simp del]

definition is_digit :: "byte \<Rightarrow> bool" where
  "is_digit c \<longleftrightarrow> 48 \<le> c \<and> c \<le> 57"

definition digits_value :: "byte list \<Rightarrow> nat" where
  "digits_value ds = foldl (\<lambda>n c. 10 * n + (unat c - 48)) 0 ds"

lemma digit_byte: "n < 10 \<Longrightarrow> is_digit (of_nat (48 + n)) \<and> unat (of_nat (48 + n) :: byte) = 48 + n"
proof -
  assume "n < 10"
  then have u: "unat (of_nat (48 + n) :: byte) = 48 + n" by (intro unat_of_nat_fits) simp
  show ?thesis unfolding is_digit_def word_le_nat_alt u using \<open>n < 10\<close> by simp
qed

lemma decimal_digits: "\<forall>c \<in> set (decimal n). is_digit c"
proof (induction n rule: decimal.induct)
  case (1 n)
  show ?case
  proof (cases "n < 10")
    case True
    then show ?thesis using digit_byte[OF True] by (subst decimal.simps) simp
  next
    case False
    have "is_digit (of_nat (48 + n mod 10))" using digit_byte[of "n mod 10"] by simp
    then show ?thesis using False 1 by (subst decimal.simps) auto
  qed
qed

lemma decimal_value: "digits_value (decimal n) = n"
proof (induction n rule: decimal.induct)
  case (1 n)
  show ?case
  proof (cases "n < 10")
    case True
    then show ?thesis using digit_byte[OF True] by (subst decimal.simps) (simp add: digits_value_def)
  next
    case False
    then have "digits_value (decimal (n div 10)) = n div 10" by (rule 1)
    moreover have "unat (of_nat (48 + n mod 10) :: byte) = 48 + n mod 10" using digit_byte[of "n mod 10"] by simp
    ultimately show ?thesis using False by (subst decimal.simps) (simp add: digits_value_def)
  qed
qed

lemma decimal_Nil: "decimal n \<noteq> []"
  by (subst decimal.simps) simp

lemma decimal_length: "n < 10 ^ Suc k \<Longrightarrow> length (decimal n) \<le> Suc k"
proof (induction k arbitrary: n)
  case 0
  then show ?case by (subst decimal.simps) simp
next
  case (Suc k)
  show ?case
  proof (cases "n < 10")
    case False
    have "n div 10 < 10 ^ Suc k" using Suc.prems by (simp add: div_less_iff_less_mult)
    then have "length (decimal (n div 10)) \<le> Suc k" by (rule Suc.IH)
    then show ?thesis using False by (subst decimal.simps) simp
  qed (subst decimal.simps, simp)
qed

lemma decimal_length_ge: "10 ^ k \<le> n \<Longrightarrow> k < length (decimal n)"
proof (induction k arbitrary: n)
  case 0
  then show ?case using decimal_Nil[of n] by simp
next
  case (Suc k)
  then have "10 ^ k \<le> n div 10" by (simp add: less_eq_div_iff_mult_less_eq mult.commute)
  then have "k < length (decimal (n div 10))" by (rule Suc.IH)
  moreover have "\<not> n < 10" using Suc.prems by (metis le_less_trans not_less one_le_power power_Suc
      mult.right_neutral mult_le_mono2 one_le_numeral)
  ultimately show ?case by (subst decimal.simps) simp
qed

lemma takeWhile_decimal: "ys = [] \<or> \<not> is_digit (hd ys) \<Longrightarrow> takeWhile is_digit (decimal n @ ys) = decimal n"
  using decimal_digits[of n] by (cases ys) (auto simp: takeWhile_append2)

text \<open>The format \<open>%d\<close>.\<close>

definition signed_text :: "int \<Rightarrow> byte list" where
  "signed_text n = (if n < 0 then 45 # decimal (nat (- n)) else decimal (nat n))"

text \<open>
  \<open>sscanf\<close> with \<open>%u\<close>: white space, a sign, digits; the value as \<open>strtoul\<close> computes it, at most \<open>2 ^ 64 - 1\<close> and
  negated in 64 bits, cut to 32 bits.  None: no number.
\<close>

definition is_space :: "byte \<Rightarrow> bool" where
  "is_space c \<longleftrightarrow> c = 32 \<or> 9 \<le> c \<and> c \<le> 13"

definition scan_unsigned :: "byte list \<Rightarrow> uint32 option" where
  "scan_unsigned s =
     (let s = dropWhile is_space s; neg = (s \<noteq> [] \<and> hd s = 45);
          s = (if s \<noteq> [] \<and> (hd s = 43 \<or> hd s = 45) then tl s else s);
          ds = takeWhile is_digit s; v = digits_value ds
      in if ds = [] then None
         else Some (of_nat (if 2 ^ 64 \<le> v then 2 ^ 64 - 1 else if neg then (2 ^ 64 - v) mod 2 ^ 64 else v)))"

lemma not_digit: "is_space c \<Longrightarrow> \<not> is_digit c" "\<not> is_digit 43" "\<not> is_digit 45"
  by (auto simp: is_space_def is_digit_def word_le_nat_alt)

lemma scan_unsigned_decimal:
  assumes "n < 2 ^ 32" and "r = [] \<or> \<not> is_digit (hd r)"
  shows "scan_unsigned (decimal n @ r) = Some (of_nat n)"
proof -
  have d: "is_digit (hd (decimal n))" using decimal_digits[of n] decimal_Nil[of n] by (cases "decimal n") auto
  have "dropWhile is_space (decimal n @ r) = decimal n @ r"
    using d not_digit(1) decimal_Nil[of n] by (cases "decimal n") auto
  moreover have "hd (decimal n @ r) \<noteq> 43" "hd (decimal n @ r) \<noteq> 45"
    using d not_digit(2,3) decimal_Nil[of n] by auto
  ultimately show ?thesis
    using assms takeWhile_decimal[OF assms(2), of n] decimal_Nil[of n]
    by (simp add: scan_unsigned_def decimal_value Let_def)
qed

end
