(* ===== verification/PingPong.thy ===== *)
theory PingPong
  imports Transition Decimal
begin

text \<open>
  \<open>src/signal/ping-pong/main.c\<close>: two processes take turns by \<open>SIGUSR1\<close> and pass a counter through one
  pipe they share, as decimal text in blocks of 16 bytes.  First the encoding of the numbers by
  \<open>sprintf\<close> and \<open>sscanf\<close>, then the protocol as a step relation, one system call per step.
\<close>

subsection \<open>Numbers in blocks\<close>

text \<open>\<open>sscanf(s, "%lu")\<close>: None if there is no digit.\<close>

definition scan_u64 :: "byte list \<Rightarrow> nat option" where
  "scan_u64 s = (let ds = takeWhile is_digit s in
     if ds = [] then None else Some (digits_value ds))"

text \<open>
  \<open>write_number\<close>: the block, given what the uninitialised buffer holds; None when \<open>sprintf\<close> overruns it.
\<close>

definition number_block :: "byte list \<Rightarrow> nat \<Rightarrow> byte list option" where
  "number_block s v =
     (let text = decimal v @ [10, 0] in
      if length text \<le> 16 then Some (text @ drop (length text) s) else None)"

definition parse_block :: "byte list \<Rightarrow> nat option" where
  "parse_block s = (if length s = 16 then scan_u64 s else None)"

lemma parse_number_block:
  assumes "length s = 16" and "number_block s v = Some b"
  shows "length b = 16" and "parse_block b = Some v"
proof -
  have b: "b = decimal v @ [10, 0] @ drop (length (decimal v) + 2) s" and len: "length (decimal v) + 2 \<le> 16"
    using assms(2) by (auto simp: number_block_def Let_def split: if_splits)
  show "length b = 16" using assms(1) len unfolding b by simp
  moreover have "takeWhile is_digit b = decimal v"
    unfolding b using decimal_digits[of v] by (subst takeWhile_append2) (auto simp: is_digit_def)
  ultimately show "parse_block b = Some v"
    using decimal_value[of v] decimal_Nil[of v] by (simp add: parse_block_def scan_u64_def)
qed

lemma number_block_fits: "v < 10 ^ 14 \<Longrightarrow> \<exists>b. number_block s v = Some b"
  using decimal_length[of v 13] by (simp add: number_block_def Let_def)

text \<open>
  The encoding is lossless below \<open>10 ^ 14\<close>: the block written for \<open>v\<close> has 16 bytes and is read back as
  \<open>v\<close>, whatever the buffer held before; from \<open>10 ^ 14\<close> on \<open>sprintf\<close> overruns its buffer.
\<close>
theorem number_block_roundtrip:
  assumes "length s = 16"
  shows "(v < 10 ^ 14 \<longrightarrow> (\<exists>b. number_block s v = Some b \<and> length b = 16 \<and> parse_block b = Some v)) \<and>
    (10 ^ 14 \<le> v \<longrightarrow> number_block s v = None)"
proof (intro conjI impI)
  assume "v < 10 ^ 14"
  then obtain b where "number_block s v = Some b" using number_block_fits by blast
  then show "\<exists>b. number_block s v = Some b \<and> length b = 16 \<and> parse_block b = Some v"
    using parse_number_block[OF assms] by blast
next
  assume "10 ^ 14 \<le> v"
  from decimal_length_ge[OF this] show "number_block s v = None" by (simp add: number_block_def Let_def)
qed

theorem number_block_roundtrip_witness:
  "\<exists>b. number_block (replicate 16 7) 1234 = Some b \<and> length b = 16 \<and> parse_block b = Some 1234"
  using number_block_roundtrip[of "replicate 16 7" 1234] by simp

subsection \<open>The protocol\<close>

datatype cpc = WaitPid | SigWait | ReadNum | PrintNum nat | KillPeer nat | WriteNum nat | Exited
datatype parent_pc = WritePid | WriteOne | KillFirst | Waiting | Returned

record pp_state =
  pipe :: "byte list"
  pending :: "nat \<Rightarrow> bool"     \<comment> \<open>\<open>SIGUSR1\<close>, blocked and read through the \<open>signalfd\<close>\<close>
  cpcs :: "nat \<Rightarrow> cpc"         \<comment> \<open>of child 1 and child 2\<close>
  peer_pid :: "nat \<Rightarrow> nat"     \<comment> \<open>the variable \<open>pid\<close>\<close>
  parent :: parent_pc
  printed :: "(nat \<times> nat) list"
  smashed :: bool               \<comment> \<open>a buffer of \<open>write_number\<close> was overrun\<close>

text \<open>\<open>kill(pid, SIGUSR1)\<close>: child 1 has the process id \<open>p1\<close> and child 2 \<open>p2\<close>; one that has exited is deaf.\<close>

definition kill :: "nat \<Rightarrow> nat \<Rightarrow> nat \<Rightarrow> pp_state \<Rightarrow> nat \<Rightarrow> bool" where
  "kill p1 p2 pid s = (\<lambda>c. pending s c \<or>
     cpcs s c \<noteq> Exited \<and> (c = 1 \<and> pid = p1 \<or> c = 2 \<and> pid = p2))"

definition pp_init :: "nat \<Rightarrow> pp_state \<Rightarrow> bool" where
  "pp_init p1 s \<longleftrightarrow> pipe s = [] \<and> (\<forall>c. \<not> pending s c) \<and> cpcs s 1 = WaitPid \<and> cpcs s 2 = SigWait \<and>
     peer_pid s 2 = p1 \<and> parent s = WritePid \<and> printed s = [] \<and> \<not> smashed s"

inductive pp_step :: "nat \<Rightarrow> nat \<Rightarrow> nat \<Rightarrow> pp_state \<Rightarrow> pp_state \<Rightarrow> bool" for p1 p2 n where
  parent_pid: "parent s = WritePid \<Longrightarrow> length buf = 16 \<Longrightarrow> number_block buf p2 = Some b \<Longrightarrow>
    pp_step p1 p2 n s (s\<lparr>pipe := pipe s @ b, parent := WriteOne\<rparr>)"
| parent_one: "parent s = WriteOne \<Longrightarrow> length buf = 16 \<Longrightarrow> number_block buf 1 = Some b \<Longrightarrow>
    pp_step p1 p2 n s (s\<lparr>pipe := pipe s @ b, parent := KillFirst\<rparr>)"
| parent_kill: "parent s = KillFirst \<Longrightarrow>
    pp_step p1 p2 n s (s\<lparr>pending := kill p1 p2 p1 s, parent := Waiting\<rparr>)"
| parent_wait: "parent s = Waiting \<Longrightarrow> cpcs s 1 = Exited \<Longrightarrow> cpcs s 2 = Exited \<Longrightarrow>
    pp_step p1 p2 n s (s\<lparr>parent := Returned\<rparr>)"
| child_pid: "cpcs s 1 = WaitPid \<Longrightarrow> 16 \<le> length (pipe s) \<Longrightarrow> parse_block (take 16 (pipe s)) = Some t \<Longrightarrow>
    pp_step p1 p2 n s (s\<lparr>pipe := drop 16 (pipe s), peer_pid := (peer_pid s)(1 := t), cpcs := (cpcs s)(1 := SigWait)\<rparr>)"
| child_signal: "c \<in> {1, 2} \<Longrightarrow> cpcs s c = SigWait \<Longrightarrow> pending s c \<Longrightarrow>
    pp_step p1 p2 n s (s\<lparr>pending := (pending s)(c := False), cpcs := (cpcs s)(c := ReadNum)\<rparr>)"
| child_number: "c \<in> {1, 2} \<Longrightarrow> cpcs s c = ReadNum \<Longrightarrow> 16 \<le> length (pipe s) \<Longrightarrow>
    parse_block (take 16 (pipe s)) = Some v \<Longrightarrow>
    pp_step p1 p2 n s (s\<lparr>pipe := drop 16 (pipe s), cpcs := (cpcs s)(c := PrintNum v)\<rparr>)"
| child_print: "c \<in> {1, 2} \<Longrightarrow> cpcs s c = PrintNum v \<Longrightarrow>
    pp_step p1 p2 n s (s\<lparr>printed := (if v \<le> n then printed s @ [(c, v)] else printed s),
      cpcs := (cpcs s)(c := KillPeer v)\<rparr>)"
| child_kill: "c \<in> {1, 2} \<Longrightarrow> cpcs s c = KillPeer v \<Longrightarrow>
    pp_step p1 p2 n s (s\<lparr>pending := kill p1 p2 (peer_pid s c) s, cpcs := (cpcs s)(c := WriteNum v)\<rparr>)"
| child_write: "c \<in> {1, 2} \<Longrightarrow> cpcs s c = WriteNum v \<Longrightarrow> length buf = 16 \<Longrightarrow> number_block buf (v + 1) = Some b \<Longrightarrow>
    pp_step p1 p2 n s (s\<lparr>pipe := pipe s @ b, cpcs := (cpcs s)(c := if n \<le> v then Exited else SigWait)\<rparr>)"
| child_smash: "c \<in> {1, 2} \<Longrightarrow> cpcs s c = WriteNum v \<Longrightarrow> length buf = 16 \<Longrightarrow> number_block buf (v + 1) = None \<Longrightarrow>
    pp_step p1 p2 n s (s\<lparr>smashed := True, cpcs := (cpcs s)(c := Exited)\<rparr>)"

subsection \<open>Invariant\<close>

text \<open>The pipe holds the blocks of the numbers \<open>vs\<close>.\<close>

fun queued :: "byte list \<Rightarrow> nat list \<Rightarrow> bool" where
  "queued p [] \<longleftrightarrow> p = []"
| "queued p (v # vs) \<longleftrightarrow> 16 \<le> length p \<and> parse_block (take 16 p) = Some v \<and> queued (drop 16 p) vs"

lemma queued_append:
  assumes "queued p vs" and "length buf = 16" "number_block buf v = Some b"
  shows "queued (p @ b) (vs @ [v])"
proof -
  have b: "length b = 16" "parse_block b = Some v" by (rule parse_number_block[OF assms(2,3)])+
  show ?thesis using assms(1) b by (induction p vs rule: queued.induct) (auto simp: queued.simps(2))
qed

declare queued.simps(2) [simp del]

lemma queued_take: "queued p (v # vs) \<Longrightarrow> parse_block (take 16 p) = Some w \<Longrightarrow> w = v \<and> queued (drop 16 p) vs"
  by (simp add: queued.simps(2))

text \<open>
  The number \<open>v\<close> belongs to child \<open>who v\<close>, the other child being \<open>who (v + 1)\<close>; the child that handles
  the number \<open>max n 1\<close> exits, and then the other one does.
\<close>

definition who :: "nat \<Rightarrow> nat" where "who v = (if odd v then 1 else 2)"

lemma who_alt: "who v \<in> {1, 2}" "who (Suc v) \<in> {1, 2}" "who (Suc v) \<noteq> who v" "who (Suc (Suc v)) = who v"
  by (simp_all add: who_def)

lemma who_1 [simp]: "who (Suc 0) = Suc 0"
  by (simp add: who_def)

lemma who_other: "c \<in> {1, 2} \<Longrightarrow> c = who v \<or> c = who (Suc v)"
  by (auto simp: who_def)

definition turns :: "nat \<Rightarrow> (nat \<times> nat) list" where
  "turns k = map (\<lambda>v. (who v, v)) [1..<Suc k]"

lemma turns_Suc: "1 \<le> v \<Longrightarrow> turns v = turns (v - 1) @ [(who v, v)]"
  by (cases v) (simp_all add: turns_def)

datatype place = Signalled | Woken | Received | Printed | Notified

definition idle :: "nat \<Rightarrow> nat \<Rightarrow> cpc" where
  "idle n v = (if v \<le> max n 1 then SigWait else Exited)"

definition running :: "nat \<Rightarrow> nat \<Rightarrow> place \<Rightarrow> nat \<Rightarrow> pp_state \<Rightarrow> bool" where
  "running p2 n p v s \<longleftrightarrow> 1 \<le> v \<and> v \<le> max n 1 + 1 \<and>
     (case p of
        Signalled \<Rightarrow> pending s (who v) \<and> \<not> pending s (who (Suc v)) \<and> cpcs s (who (Suc v)) = idle n v \<and>
          (cpcs s (who v) = SigWait \<and> queued (pipe s) [v] \<or>
           v = 1 \<and> cpcs s 1 = WaitPid \<and> queued (pipe s) [p2, 1])
      | Woken \<Rightarrow> \<not> pending s (who v) \<and> \<not> pending s (who (Suc v)) \<and> cpcs s (who (Suc v)) = idle n v \<and>
          cpcs s (who v) = ReadNum \<and> queued (pipe s) [v]
      | Received \<Rightarrow> \<not> pending s (who v) \<and> \<not> pending s (who (Suc v)) \<and> cpcs s (who (Suc v)) = idle n v \<and>
          cpcs s (who v) = PrintNum v \<and> queued (pipe s) []
      | Printed \<Rightarrow> \<not> pending s (who v) \<and> \<not> pending s (who (Suc v)) \<and> cpcs s (who (Suc v)) = idle n v \<and>
          cpcs s (who v) = KillPeer v \<and> queued (pipe s) []
      | Notified \<Rightarrow> \<not> pending s (who v) \<and> cpcs s (who v) = WriteNum v \<and> queued (pipe s) [] \<and>
          (if v \<le> max n 1
           then pending s (who (Suc v)) \<and> cpcs s (who (Suc v)) = SigWait \<or>
                \<not> pending s (who (Suc v)) \<and> cpcs s (who (Suc v)) = ReadNum
           else \<not> pending s (who (Suc v)) \<and> cpcs s (who (Suc v)) = Exited)) \<and>
     printed s = turns (min n (if p = Printed \<or> p = Notified then v else v - 1))"

definition starting :: "nat \<Rightarrow> pp_state \<Rightarrow> bool" where
  "starting p2 s \<longleftrightarrow> (\<forall>c. \<not> pending s c) \<and> cpcs s 2 = SigWait \<and> printed s = [] \<and>
     (parent s = WritePid \<and> cpcs s 1 = WaitPid \<and> queued (pipe s) [] \<or>
      parent s = WriteOne \<and> (cpcs s 1 = WaitPid \<and> queued (pipe s) [p2] \<or> cpcs s 1 = SigWait \<and> queued (pipe s) []) \<or>
      parent s = KillFirst \<and> (cpcs s 1 = WaitPid \<and> queued (pipe s) [p2, 1] \<or> cpcs s 1 = SigWait \<and> queued (pipe s) [1]))"

definition over :: "nat \<Rightarrow> pp_state \<Rightarrow> bool" where
  "over n s \<longleftrightarrow> (\<forall>c \<in> {1, 2}. cpcs s c = Exited \<and> \<not> pending s c) \<and> printed s = turns n"

definition pp_inv :: "nat \<Rightarrow> nat \<Rightarrow> nat \<Rightarrow> pp_state \<Rightarrow> bool" where
  "pp_inv p1 p2 n s \<longleftrightarrow> \<not> smashed s \<and> peer_pid s 2 = p1 \<and> (cpcs s 1 \<noteq> WaitPid \<longrightarrow> peer_pid s 1 = p2) \<and>
     (starting p2 s \<or> (parent s = Waiting \<and> (\<exists>p v. running p2 n p v s)) \<or>
      (parent s \<in> {Waiting, Returned} \<and> over n s))"

lemma pp_inv_init: "pp_init p1 s \<Longrightarrow> pp_inv p1 p2 n s"
  by (auto simp: pp_init_def pp_inv_def starting_def)

lemma block_inv:
  assumes "number_block buf v = Some b" "length buf = 16" "queued p vs"
  shows "queued (p @ b) (vs @ [v])"
  by (rule queued_append[OF assms(3,2,1)])

text \<open>Steps of the start-up phase.\<close>

lemma starting_step:
  assumes st: "starting p2 s" and inv: "peer_pid s 2 = p1" "cpcs s 1 \<noteq> WaitPid \<longrightarrow> peer_pid s 1 = p2" "\<not> smashed s"
    and step: "pp_step p1 p2 n s t" and ne: "p1 \<noteq> p2"
  shows "pp_inv p1 p2 n t"
proof -
  have quiet: "\<not> pending s c" for c using st by (simp add: starting_def)
  have pcs: "cpcs s 2 = SigWait" "cpcs s 1 = WaitPid \<or> cpcs s 1 = SigWait" using st by (auto simp: starting_def)
  from step show ?thesis
  proof cases
    case (parent_pid buf b)
    then have "queued (pipe s) []" "cpcs s 1 = WaitPid" using st by (auto simp: starting_def)
    then have "starting p2 t"
      using st parent_pid block_inv[OF parent_pid(4,3), of "pipe s" "[]"] by (simp add: starting_def)
    then show ?thesis using inv parent_pid by (simp add: pp_inv_def)
  next
    case (parent_one buf b)
    then have "starting p2 t"
      using st block_inv[OF parent_one(4,3), of "pipe s" "[]"] block_inv[OF parent_one(4,3), of "pipe s" "[p2]"]
      by (auto simp: starting_def)
    then show ?thesis using inv parent_one by (simp add: pp_inv_def)
  next
    case parent_kill
    have "running p2 n Signalled 1 t"
      using st parent_kill ne by (auto simp: starting_def running_def who_def idle_def turns_def kill_def)
    then show ?thesis using inv parent_kill by (auto simp: pp_inv_def)
  next
    case (child_pid tt)
    have "tt = p2" using st child_pid by (auto simp: starting_def dest: queued_take)
    moreover have "starting p2 t" using st child_pid by (auto simp: starting_def dest: queued_take)
    ultimately have "tt = p2" "starting p2 t" by blast+
    then show ?thesis using inv child_pid \<open>tt = p2\<close> by (simp add: pp_inv_def)
  qed (use pcs quiet st in \<open>auto simp: starting_def\<close>)
qed

text \<open>Steps of the two children while the number goes back and forth.\<close>

lemma running_pcs:
  assumes "running p2 n p v s" and "c \<in> {1, 2}"
  shows "cpcs s c = WaitPid \<Longrightarrow> p = Signalled \<and> v = 1 \<and> c = 1 \<and> queued (pipe s) [p2, 1]"
    and "cpcs s c = SigWait \<Longrightarrow> pending s c \<Longrightarrow> p = Signalled \<and> c = who v \<or> p = Notified \<and> c = who (Suc v)"
    and "cpcs s c = ReadNum \<Longrightarrow> p = Woken \<and> c = who v \<or> p = Notified \<and> c = who (Suc v) \<and> pipe s = []"
    and "cpcs s c = PrintNum w \<Longrightarrow> p = Received \<and> c = who v \<and> w = v"
    and "cpcs s c = KillPeer w \<Longrightarrow> p = Printed \<and> c = who v \<and> w = v"
    and "cpcs s c = WriteNum w \<Longrightarrow> p = Notified \<and> c = who v \<and> w = v"
  using assms who_other[OF assms(2), of v] who_alt(3)[of v]
  by (cases p; auto simp: running_def idle_def who_def split: if_splits)+

lemma running_alive: "running p2 n p v s \<Longrightarrow> cpcs s (who v) \<noteq> Exited"
  by (cases p) (auto simp: running_def)

lemma running_signal:
  assumes "running p2 n p v s" "c \<in> {1, 2}" "cpcs s c = SigWait" "pending s c"
  shows "\<exists>q w. running p2 n q w (s\<lparr>pending := (pending s)(c := False), cpcs := (cpcs s)(c := ReadNum)\<rparr>)"
proof -
  consider "p = Signalled" "c = who v" | "p = Notified" "c = who (Suc v)"
    using running_pcs(2)[OF assms(1-4)] by blast
  then show ?thesis
  proof cases
    case 1
    then have "running p2 n Woken v (s\<lparr>pending := (pending s)(c := False), cpcs := (cpcs s)(c := ReadNum)\<rparr>)"
      using assms who_alt(3)[of v] by (auto simp: running_def)
    then show ?thesis by blast
  next
    case 2
    then have "running p2 n Notified v (s\<lparr>pending := (pending s)(c := False), cpcs := (cpcs s)(c := ReadNum)\<rparr>)"
      using assms who_alt(3)[of v] by (auto simp: running_def split: if_splits)
    then show ?thesis by blast
  qed
qed

lemma running_kill:
  assumes r: "running p2 n Printed v s" and pid: "peer_pid s (who v) = (if who v = 1 then p2 else p1)" and ne: "p1 \<noteq> p2"
  shows "running p2 n Notified v (s\<lparr>pending := kill p1 p2 (peer_pid s (who v)) s, cpcs := (cpcs s)(who v := WriteNum v)\<rparr>)"
  using r pid ne who_alt(3)[of v]
  by (auto simp: running_def kill_def idle_def who_def split: if_splits)

lemma running_write:
  assumes r: "running p2 n Notified v s" and b: "length buf = 16" "number_block buf (v + 1) = Some b"
    and par: "parent s = Waiting"
  shows "let t = s\<lparr>pipe := pipe s @ b, cpcs := (cpcs s)(who v := if n \<le> v then Exited else SigWait)\<rparr>
    in (\<exists>q w. running p2 n q w t) \<or> over n t"
proof -
  let ?t = "s\<lparr>pipe := pipe s @ b, cpcs := (cpcs s)(who v := if n \<le> v then Exited else SigWait)\<rparr>"
  have v: "1 \<le> v" "v \<le> max n 1 + 1" using r by (simp_all add: running_def)
  have q: "queued (pipe s @ b) [Suc v]"
    using r block_inv[OF b(2,1), of "pipe s" "[]"] by (simp add: running_def)
  show ?thesis
  proof (cases "v \<le> max n 1")
    case True
    have own: "(if n \<le> v then Exited else SigWait) = idle n (Suc v)" using v True by (auto simp: idle_def)
    have out: "printed ?t = turns (min n (Suc v - 1))" using r by (simp add: running_def)
    have "running p2 n (if pending s (who (Suc v)) then Signalled else Woken) (Suc v) ?t"
      using r True q own out v who_alt(3)[of v] by (auto simp: running_def who_alt)
    then show ?thesis unfolding Let_def by blast
  next
    case False
    then have "n \<le> v" "min n v = n" using v by auto
    then have "over n ?t"
      using r False who_alt(3)[of v] who_other by (auto simp: running_def over_def who_def split: if_splits)
    then show ?thesis unfolding Let_def by blast
  qed
qed

lemma pp_invI:
  assumes "\<not> smashed t" "peer_pid t 2 = p1" "cpcs t 1 \<noteq> WaitPid \<Longrightarrow> peer_pid t 1 = p2" "parent t = Waiting"
    and "(\<exists>q w. running p2 n q w t) \<or> over n t"
  shows "pp_inv p1 p2 n t"
  using assms by (auto simp: pp_inv_def)

lemma pp_inv_step:
  assumes inv: "pp_inv p1 p2 n s" and step: "pp_step p1 p2 n s t" and ne: "p1 \<noteq> p2" and small: "n + 3 < 10 ^ 14"
  shows "pp_inv p1 p2 n t"
proof -
  have i: "peer_pid s 2 = p1" "cpcs s 1 \<noteq> WaitPid \<longrightarrow> peer_pid s 1 = p2" "\<not> smashed s"
    using inv by (simp_all add: pp_inv_def)
  consider (start) "starting p2 s" | (run) p v where "parent s = Waiting" "running p2 n p v s"
    | (over) "parent s \<in> {Waiting, Returned}" "over n s"
    using inv by (auto simp: pp_inv_def)
  then show ?thesis
  proof cases
    case start
    then show ?thesis using starting_step i step ne by blast
  next
    case over
    from step show ?thesis
      by cases (use over i in \<open>auto simp: over_def pp_inv_def\<close>)
  next
    case run
    note pcs = running_pcs[OF run(2)]
    from step show ?thesis
    proof cases
      case parent_wait
      then have "cpcs s (who v) = Exited" using who_alt(1)[of v] by auto
      then show ?thesis using running_alive[OF run(2)] by blast
    next
      case (child_pid w)
      then have p: "p = Signalled" "v = 1" "queued (pipe s) [p2, 1]" using pcs(1)[of 1] by auto
      have w: "w = p2" "queued (pipe t) [1]" using child_pid queued_take[OF p(3), of w] by auto
      have "running p2 n Signalled 1 t"
        using run(2) p(1,2) child_pid(1,2) w(2) by (simp add: running_def who_def)
      then have ex: "(\<exists>q w. running p2 n q w t) \<or> over n t" by blast
      show ?thesis by (rule pp_invI[OF _ _ _ _ ex]) (use i run(1) w(1) child_pid in \<open>auto split: if_splits\<close>)
    next
      case (child_signal c)
      then have "\<exists>q w. running p2 n q w t" using running_signal[OF run(2)] by blast
      then have ex: "(\<exists>q w. running p2 n q w t) \<or> over n t" by blast
      show ?thesis by (rule pp_invI[OF _ _ _ _ ex]) (use i run(1) child_signal in \<open>auto split: if_splits\<close>)
    next
      case (child_number c w)
      then have p: "p = Woken" "c = who v" using pcs(3)[of c] by auto
      have "queued (pipe s) [v]" using run(2) p(1) by (simp add: running_def)
      from queued_take[OF this] have w: "w = v" "queued (pipe t) []" using child_number by auto
      then have "running p2 n Received v t"
        using run(2) p child_number(1) who_alt(3)[of v] by (simp add: running_def)
      then have ex: "(\<exists>q w. running p2 n q w t) \<or> over n t" by blast
      show ?thesis by (rule pp_invI[OF _ _ _ _ ex]) (use i run(1) child_number in \<open>auto split: if_splits\<close>)
    next
      case (child_print c w)
      then have p: "p = Received" "c = who v" "w = v" using pcs(4)[of c w] by auto
      have "1 \<le> v" using run by (simp add: running_def)
      then have "(if v \<le> n then turns (min n (v - 1)) @ [(who v, v)] else turns (min n (v - 1))) = turns (min n v)"
        using turns_Suc[of v] by (auto simp: min_def)
      then have "running p2 n Printed v t"
        using run p child_print who_alt(3)[of v] by (auto simp: running_def)
      then have ex: "(\<exists>q w. running p2 n q w t) \<or> over n t" by blast
      show ?thesis by (rule pp_invI[OF _ _ _ _ ex]) (use i run(1) child_print in \<open>auto split: if_splits\<close>)
    next
      case (child_kill c w)
      then have p: "p = Printed" "c = who v" "w = v" using pcs(5)[of c w] by auto
      have pid: "peer_pid s (who v) = (if who v = 1 then p2 else p1)"
        using i child_kill p by (auto simp: who_def split: if_splits)
      have "running p2 n Notified v t" using running_kill[OF _ pid ne] run child_kill p by auto
      then have ex: "(\<exists>q w. running p2 n q w t) \<or> over n t" by blast
      show ?thesis by (rule pp_invI[OF _ _ _ _ ex]) (use i run(1) child_kill in \<open>auto split: if_splits\<close>)
    next
      case (child_write c w buf b)
      then have p: "p = Notified" "c = who v" "w = v" using pcs(6)[of c w] by auto
      have "(\<exists>q w. running p2 n q w t) \<or> over n t"
        using running_write[of p2 n v s buf b] run child_write p by (auto simp: Let_def)
      then have ex: "(\<exists>q w. running p2 n q w t) \<or> over n t" by blast
      show ?thesis by (rule pp_invI[OF _ _ _ _ ex]) (use i run(1) child_write in \<open>auto split: if_splits\<close>)
    next
      case (child_smash c w buf)
      then have "w = v" using pcs(6)[of c w] by auto
      moreover have "v + 1 < 10 ^ 14" using run small by (auto simp: running_def max_def split: if_splits)
      ultimately show ?thesis using number_block_fits[of "v + 1" buf] child_smash by auto
    qed (use run in auto)
  qed
qed

definition ids_ok :: "nat \<Rightarrow> nat \<Rightarrow> nat \<Rightarrow> bool" where
  "ids_ok p1 p2 n \<longleftrightarrow> p1 \<noteq> p2 \<and> p2 < 10 ^ 14 \<and> n + 3 < 10 ^ 14"

interpretation pingpong: transition_system "\<lambda>s. pp_init p1 s \<and> ids_ok p1 p2 n" "pp_step p1 p2 n"
    "\<lambda>s. pp_inv p1 p2 n s \<and> ids_ok p1 p2 n" for p1 p2 n
  by unfold_locales (auto simp: ids_ok_def intro: pp_inv_init pp_inv_step)

lemma next_write: "v < 10 ^ 14 \<Longrightarrow> \<exists>b. number_block (replicate 16 0) v = Some b"
  by (rule number_block_fits)

lemma running_moves:
  assumes "running p2 n p v s" and "n + 3 < 10 ^ 14"
  shows "\<exists>t. pp_step p1 p2 n s t"
proof (cases p)
  case Signalled
  then consider "cpcs s (who v) = SigWait" "pending s (who v)" | "cpcs s 1 = WaitPid" "queued (pipe s) [p2, 1]"
    using assms(1) by (auto simp: running_def)
  then show ?thesis
  proof cases
    case 1
    then show ?thesis using child_signal[OF who_alt(1)] by blast
  next
    case 2
    then have "16 \<le> length (pipe s)" "parse_block (take 16 (pipe s)) = Some p2" by (simp_all add: queued.simps(2))
    then show ?thesis using child_pid[OF 2(1)] by blast
  qed
next
  case Woken
  then have "cpcs s (who v) = ReadNum" "16 \<le> length (pipe s)" "parse_block (take 16 (pipe s)) = Some v"
    using assms(1) unfolding running_def queued.simps(2) by auto
  then show ?thesis using child_number[OF who_alt(1)] by blast
next
  case Received
  then show ?thesis using assms(1) child_print[OF who_alt(1)] by (fastforce simp: running_def)
next
  case Printed
  then show ?thesis using assms(1) child_kill[OF who_alt(1)] by (fastforce simp: running_def)
next
  case Notified
  then have w: "cpcs s (who v) = WriteNum v" "v + 1 < 10 ^ 14"
    using assms by (auto simp: running_def max_def split: if_splits)
  obtain b where "number_block (replicate 16 0) (v + 1) = Some b" using next_write[OF w(2)] by blast
  then show ?thesis using child_write[OF who_alt(1) w(1), of "replicate 16 0"] by fastforce
qed

lemma starting_moves:
  assumes "starting p2 s" and "p2 < 10 ^ 14"
  shows "\<exists>t. pp_step p1 p2 n s t"
proof -
  obtain b b1 where b: "number_block (replicate 16 0) p2 = Some b" "number_block (replicate 16 0) 1 = Some b1"
    using next_write[OF assms(2)] next_write[of 1] by auto
  have len: "length (replicate 16 (0 :: byte)) = 16" by simp
  consider "parent s = WritePid" | "parent s = WriteOne" | "parent s = KillFirst"
    using assms(1) by (auto simp: starting_def)
  then show ?thesis
    by cases (blast intro: parent_pid[OF _ len b(1)] parent_one[OF _ len b(2)] parent_kill)+
qed

lemma pp_stuck:
  assumes "pp_inv p1 p2 n s" "ids_ok p1 p2 n" "stuck (pp_step p1 p2 n) s"
  shows "over n s \<and> parent s = Returned"
proof -
  have no: "\<not> pp_step p1 p2 n s t" for t using assms(3) by (simp add: stuck_def)
  then have "parent s \<in> {Waiting, Returned} \<and> over n s"
    using assms(1,2) starting_moves[of p2 s p1 n] running_moves[of p2 n _ _ s p1]
    unfolding pp_inv_def ids_ok_def by blast
  moreover have "parent s \<noteq> Waiting" using parent_wait[of s p1 p2 n] no calculation by (auto simp: over_def)
  ultimately show ?thesis by blast
qed

subsection \<open>Properties of the protocol\<close>

text \<open>
  C13. In every interleaving the two processes print 1, 2, 3, ... up to at most \<open>n\<close> strictly in turn,
  child 1 the odd and child 2 the even numbers, and no buffer is overrun (for numbers and process ids
  below \<open>10 ^ 14\<close>).  There is no deadlock: an execution that cannot go on has printed all of 1 to \<open>n\<close>,
  both processes have exited and the parent has returned.
\<close>
theorem ping_pong_alternates:
  assumes "reachable (pp_init p1) (pp_step p1 p2 n) s" and "p1 \<noteq> p2" "p2 < 10 ^ 14" "n + 3 < 10 ^ 14"
  shows "\<not> smashed s \<and> (\<exists>k \<le> n. printed s = map (\<lambda>v. (if odd v then 1 else 2, v)) [1..<Suc k]) \<and>
    (stuck (pp_step p1 p2 n) s \<longrightarrow> printed s = map (\<lambda>v. (if odd v then 1 else 2, v)) [1..<Suc n] \<and>
       cpcs s 1 = Exited \<and> cpcs s 2 = Exited \<and> parent s = Returned)"
proof -
  have ids: "ids_ok p1 p2 n" using assms(2-4) by (simp add: ids_ok_def)
  have inv: "pp_inv p1 p2 n s" using pingpong.inv_reachable[of p1 p2 n s] assms(1) ids by simp
  have turns: "turns k = map (\<lambda>v. (if odd v then 1 else 2, v)) [1..<Suc k]" for k
    by (simp add: turns_def who_def del: upt_Suc)
  have "\<exists>k \<le> n. printed s = turns k"
  proof -
    consider "starting p2 s" | p v where "running p2 n p v s" | "over n s" using inv by (auto simp: pp_inv_def)
    then show ?thesis
    proof cases
      case 1
      then show ?thesis by (intro exI[of _ 0]) (simp add: starting_def turns_def)
    next
      case (2 p v)
      then show ?thesis
        by (intro exI[of _ "min n (if p = Printed \<or> p = Notified then v else v - 1)"]) (simp add: running_def)
    next
      case 3
      then show ?thesis by (intro exI[of _ n]) (simp add: over_def)
    qed
  qed
  moreover have "printed s = turns n \<and> cpcs s 1 = Exited \<and> cpcs s 2 = Exited \<and> parent s = Returned"
    if "stuck (pp_step p1 p2 n) s"
    using pp_stuck[OF inv ids that] by (auto simp: over_def)
  moreover have "\<not> smashed s" using inv by (simp add: pp_inv_def)
  ultimately show ?thesis unfolding turns by blast
qed

definition pp_start :: pp_state where
  "pp_start = \<lparr>pipe = [], pending = (\<lambda>_. False), cpcs = (\<lambda>_. SigWait)(1 := WaitPid), peer_pid = (\<lambda>_. 101),
     parent = WritePid, printed = [], smashed = False\<rparr>"

theorem ping_pong_alternates_witness:
  "\<exists>t. pp_step 101 102 5 pp_start t \<and> \<not> smashed t \<and> (\<exists>k \<le> 5. printed t = map (\<lambda>v. (if odd v then 1 else 2, v)) [1..<Suc k])"
proof -
  have init: "pp_init 101 pp_start" by (simp add: pp_init_def pp_start_def)
  have "starting 102 pp_start" using init by (auto simp: pp_init_def starting_def)
  then obtain t where t: "pp_step 101 102 5 pp_start t" using starting_moves[of 102 pp_start 101 5] by auto
  have reach: "reachable (pp_init 101) (pp_step 101 102 5) t"
    using reach_init[of "pp_init 101", OF init] t by (rule reach_step)
  have "(101 :: nat) \<noteq> 102" "(102 :: nat) < 10 ^ 14" "(5 :: nat) + 3 < 10 ^ 14" by simp_all
  from ping_pong_alternates[OF reach this] t show ?thesis by blast
qed

end
