(* ===== verification/SocketAddr.thy ===== *)
theory SocketAddr
  imports Decimal
begin

unbundle bit_operations_syntax

text \<open>
  The socket addresses of \<open>src/sockets/example/types.c\<close>: the union \<open>eo_addr_t\<close>, parsing of
  \<open>"address:port"\<close> and its inverse \<open>eo_addr_to_str\<close>.  C strings are their bytes without the
  terminating NUL.  The address notations are the C library's: the record \<open>inet\<close>, an argument of the
  model, holds \<open>inet_pton\<close> and \<open>inet_ntop\<close> for the two families.
\<close>

subsection \<open>Data\<close>

record inet =
  pton6 :: "byte list \<Rightarrow> 128 word option"
  pton4 :: "byte list \<Rightarrow> 32 word option"
  ntop6 :: "128 word \<Rightarrow> byte list"
  ntop4 :: "32 word \<Rightarrow> byte list"

text \<open>
  The bytes of the union: family and port are at the same place in all its members;
  \<open>sin_addr\<close> lies where \<open>sin6_flowinfo\<close> does, and \<open>sin6_addr\<close> after it.
\<close>

record eo_addr =
  sa_family :: uint16
  sin_port :: uint16      \<comment> \<open>as the processor loads it, that is in swapped byte order\<close>
  sin_addr :: uint32
  sin6_addr :: "128 word"

definition AF_INET :: uint16 where "AF_INET = 2"
definition AF_INET6 :: uint16 where "AF_INET6 = 10"
definition INET_ADDRSTRLEN :: nat where "INET_ADDRSTRLEN = 16"
definition INET6_ADDRSTRLEN :: nat where "INET6_ADDRSTRLEN = 46"
definition EO_ADDR_LEN :: nat where "EO_ADDR_LEN = INET6_ADDRSTRLEN + 18"

text \<open>\<open>htons\<close>, which is also \<open>ntohs\<close>, on a little-endian machine.\<close>

definition htons :: "uint16 \<Rightarrow> uint16" where
  "htons x = push_bit 8 x OR drop_bit 8 x"

text \<open>
  \<open>atoi\<close> as glibc has it: white space, a sign, digits; \<open>strtol\<close> saturates at 64 bits, and the result is cut
  down to an \<open>int\<close>.
\<close>

definition strtol :: "byte list \<Rightarrow> int" where
  "strtol s = (let s = dropWhile is_space s;
       neg = (s \<noteq> [] \<and> hd s = 45);
       s = (if s \<noteq> [] \<and> (hd s = 45 \<or> hd s = 43) then tl s else s);
       v = int (digits_value (takeWhile is_digit s))
     in if neg then max (- (2 ^ 63)) (- v) else min (2 ^ 63 - 1) v)"

definition atoi :: "byte list \<Rightarrow> int" where
  "atoi s = sint (word_of_int (strtol s) :: 32 word)"

subsection \<open>Operations\<close>

definition eo_parse_addr_limited :: "inet \<Rightarrow> byte list \<Rightarrow> nat \<Rightarrow> uint16 \<Rightarrow> eo_addr \<Rightarrow> int \<times> eo_addr" where
  "eo_parse_addr_limited L s n port dest =
     (let n = (if n > INET6_ADDRSTRLEN then INET6_ADDRSTRLEN else n);
          (s, n) = (if 2 \<le> n \<and> s ! 0 = 91 \<and> s ! (n - 1) = 93 then (drop 1 s, n - 2) else (s, n));
          buf = take n s
      in case pton6 L buf of
           Some a \<Rightarrow> (0, dest\<lparr>sin6_addr := a, sin_port := htons port, sa_family := AF_INET6\<rparr>)
         | None \<Rightarrow> (case pton4 L buf of
             Some a \<Rightarrow> (0, dest\<lparr>sin_addr := a, sin_port := htons port, sa_family := AF_INET\<rparr>)
           | None \<Rightarrow> (-1, dest)))"

definition eo_parse_addr :: "inet \<Rightarrow> byte list \<Rightarrow> uint16 \<Rightarrow> eo_addr \<Rightarrow> int \<times> eo_addr" where
  "eo_parse_addr L s port dest = eo_parse_addr_limited L s (length s) port dest"

text \<open>
  The loop \<open>for (i = n; i-- > 0;)\<close>, which returns at the first colon it meets.  \<open>err_null\<close>: whether the
  variable \<open>err\<close>, which the code tests but never sets, happens to be NULL.
\<close>

fun parse_port_from :: "inet \<Rightarrow> bool \<Rightarrow> byte list \<Rightarrow> nat \<Rightarrow> eo_addr \<Rightarrow> int \<times> eo_addr" where
  "parse_port_from L err_null s 0 dest = (-1, dest)"
| "parse_port_from L err_null s (Suc i) dest =
     (if s ! i = 58 then
        (let val = atoi (drop (i + 1) s)
         in if val \<le> 0 \<or> val > 32767 then (-1, dest)
            else if \<not> err_null then (-1, dest)
            else eo_parse_addr_limited L s i (word_of_int val) dest)
      else parse_port_from L err_null s i dest)"

definition eo_parse_addr_port :: "inet \<Rightarrow> bool \<Rightarrow> byte list \<Rightarrow> eo_addr \<Rightarrow> int \<times> eo_addr" where
  "eo_parse_addr_port L err_null s dest = parse_port_from L err_null s (length s) dest"

definition eo_is_v4_addr :: "eo_addr \<Rightarrow> bool" where
  "eo_is_v4_addr a \<longleftrightarrow> sa_family a = AF_INET"

definition eo_is_v6_addr :: "eo_addr \<Rightarrow> bool" where
  "eo_is_v6_addr a \<longleftrightarrow> sa_family a = AF_INET6"

text \<open>\<open>inet_ntop\<close> into a zeroed buffer, which it leaves alone when the text and its NUL exceed the size.\<close>

definition ntop_buf :: "byte list \<Rightarrow> nat \<Rightarrow> byte list" where
  "ntop_buf text n = (if length text < n then text else [])"

definition eo_addr_to_str :: "inet \<Rightarrow> eo_addr \<Rightarrow> byte list \<Rightarrow> c_error + int \<times> byte list" where
  "eo_addr_to_str L a dest =
     (let port = htons (sin_port a);
          out = (\<lambda>buf. bindE (mem_write dest 0 (buf @ 58 # decimal (unat port) @ [0])) (\<lambda>d. Inr (0, d)))
      in if eo_is_v4_addr a then out (ntop_buf (ntop4 L (sin_addr a)) INET_ADDRSTRLEN)
         else if eo_is_v6_addr a then out (ntop_buf (ntop6 L (sin6_addr a)) INET6_ADDRSTRLEN)
         else Inr (-1, dest))"

text \<open>The sizes of the two structures; one passes them to \<open>bind\<close>.\<close>

definition eo_addr_size :: "eo_addr \<Rightarrow> nat" where
  "eo_addr_size a = (if eo_is_v4_addr a then 16 else if eo_is_v6_addr a then 28 else 0)"

subsection \<open>Ports and their text\<close>

lemma htons_htons: "htons (htons x) = x"
  by (rule bit_word_eqI) (auto simp: htons_def bit_simps)

lemma strtol_decimal:
  assumes "v < 2 ^ 63"
  shows "strtol (decimal v) = int v"
proof -
  obtain c cs where cs: "decimal v = c # cs" using decimal_Nil by (cases "decimal v") auto
  have c: "is_digit c" using decimal_digits[of v] cs by simp
  then have ns: "\<not> is_space c" "c \<noteq> 45" "c \<noteq> 43"
    by (auto simp: is_digit_def is_space_def word_le_nat_alt)
  have "takeWhile is_digit (decimal v) = decimal v" using takeWhile_decimal[of "[]" v] by simp
  then have "digits_value (takeWhile is_digit (c # cs)) = v" using decimal_value[of v] cs by simp
  moreover have "int v \<le> 2 ^ 63 - 1" using assms by simp
  ultimately show ?thesis using ns unfolding strtol_def cs by (simp add: Let_def min_def)
qed

text \<open>The cut to 32 bits: a number written with at least 11 digits may come out as a legal port.\<close>

lemma sint_32: "sint (word_of_int k :: 32 word) = (if k mod 2 ^ 32 < 2 ^ 31 then k mod 2 ^ 32 else k mod 2 ^ 32 - 2 ^ 32)"
proof -
  define m where "m = k mod 2 ^ 32"
  have "(k + 2 ^ 31) mod 2 ^ 32 = (m + 2 ^ 31) mod 2 ^ 32" unfolding m_def by (simp only: mod_add_left_eq)
  moreover have "0 \<le> m" "m < 2 ^ 32" unfolding m_def by simp_all
  moreover have "(m + 2 ^ 31) mod 2 ^ 32 = (m - 2 ^ 31) mod 2 ^ 32"
    using mod_add_self2[of "m - 2 ^ 31" "2 ^ 32"] by (simp add: add.commute)
  ultimately have "(k + 2 ^ 31) mod 2 ^ 32 = (if m < 2 ^ 31 then m + 2 ^ 31 else m - 2 ^ 31)"
    by (cases "m < 2 ^ 31") (simp_all add: mod_pos_pos_trivial)
  then show ?thesis unfolding m_def[symmetric]
    by (simp add: signed_of_int signed_take_bit_eq_take_bit_shift take_bit_eq_mod)
qed

lemma atoi_decimal:
  assumes "v < 2 ^ 63"
  shows "atoi (decimal v) = (if v mod 2 ^ 32 < 2 ^ 31 then int (v mod 2 ^ 32) else int (v mod 2 ^ 32) - 2 ^ 32)"
proof -
  have "int v mod 2 ^ 32 = int (v mod 2 ^ 32)" by (simp add: zmod_int)
  then show ?thesis unfolding atoi_def strtol_decimal[OF assms] sint_32 by simp
qed

text \<open>The loop stops at the last colon.\<close>

lemma parse_port_from_digits:
  assumes "\<forall>c \<in> set t. c \<noteq> 58" and "k \<le> length t"
  shows "parse_port_from L e (h @ 58 # t) (length h + 1 + k) dest = parse_port_from L e (h @ 58 # t) (length h + 1) dest"
  using assms(2)
proof (induction k)
  case (Suc k)
  then have "(h @ 58 # t) ! (length h + 1 + k) \<noteq> 58" using assms(1) by (simp add: nth_append)
  then show ?case using Suc by simp
qed simp

lemma decimal_no_colon: "\<forall>c \<in> set (decimal v). c \<noteq> 58"
  using decimal_digits[of v] by (auto simp: is_digit_def word_le_nat_alt)

lemma parse_port_of_decimal:
  assumes "v < 2 ^ 63"
  shows "eo_parse_addr_port L err_null (h @ 58 # decimal v) dest =
    (if err_null \<and> 0 < v mod 2 ^ 32 \<and> v mod 2 ^ 32 \<le> 32767
     then eo_parse_addr_limited L (h @ 58 # decimal v) (length h) (of_nat (v mod 2 ^ 32)) dest else (-1, dest))"
proof -
  define p where "p = v mod 2 ^ 32"
  have at: "atoi (decimal v) = (if p < 2 ^ 31 then int p else int p - 2 ^ 32)" and "p < 2 ^ 32"
    unfolding atoi_decimal[OF assms] p_def by simp_all
  then have range: "0 < atoi (decimal v) \<and> atoi (decimal v) \<le> 32767 \<longleftrightarrow> 0 < p \<and> p \<le> 32767" by auto
  have eq: "atoi (decimal v) = int p" if "p \<le> 32767" using at that by simp
  have "eo_parse_addr_port L err_null (h @ 58 # decimal v) dest =
      parse_port_from L err_null (h @ 58 # decimal v) (Suc (length h)) dest"
    using parse_port_from_digits[OF decimal_no_colon, of "length (decimal v)"] by (simp add: eo_parse_addr_port_def)
  also have "\<dots> = (if err_null \<and> 0 < p \<and> p \<le> 32767
     then eo_parse_addr_limited L (h @ 58 # decimal v) (length h) (of_nat p) dest else (-1, dest))"
    using range eq by (auto simp: nth_append Let_def)
  finally show ?thesis unfolding p_def .
qed

text \<open>
  C26. Parsing \<open>host:port\<close> for any host text and any decimal port below \<open>2 ^ 63\<close>: with \<open>err\<close> non-NULL it
  always fails; otherwise the host is parsed with the port reduced modulo \<open>2 ^ 32\<close> when that lies
  between 1 and 32767, and every other port is refused with the address unchanged.
\<close>
theorem parse_host_port:
  assumes "v < 2 ^ 63"
  shows "eo_parse_addr_port L err_null (h @ 58 # decimal v) dest =
    (if err_null \<and> 0 < v mod 2 ^ 32 \<and> v mod 2 ^ 32 \<le> 32767
     then eo_parse_addr_limited L (h @ 58 # decimal v) (length h) (of_nat (v mod 2 ^ 32)) dest else (-1, dest))"
  using parse_port_of_decimal[OF assms] .

text \<open>The server's own address, \<open>95.217.13.136:25000\<close>, with a library that knows just this address.\<close>

definition demo_text :: "byte list" where
  "demo_text = [57, 53, 46, 50, 49, 55, 46, 49, 51, 46, 49, 51, 54]"

definition demo_inet :: inet where
  "demo_inet = \<lparr>pton6 = (\<lambda>_. None), pton4 = (\<lambda>s. if s = demo_text then Some 0x880DD95F else None),
     ntop6 = (\<lambda>_. []), ntop4 = (\<lambda>_. demo_text)\<rparr>"

definition blank_addr :: eo_addr where
  "blank_addr = \<lparr>sa_family = 0, sin_port = 0, sin_addr = 0, sin6_addr = 0\<rparr>"

text \<open>
  From \<open>10 ^ 10\<close> on some texts are too long for a port and yet accepted: the text \<open>4294967376\<close> is port 80.
\<close>
theorem parse_host_port_witness:
  "eo_parse_addr_port demo_inet True (demo_text @ 58 # decimal 4294967376) blank_addr =
     eo_parse_addr_limited demo_inet (demo_text @ 58 # decimal 4294967376) (length demo_text) 80 blank_addr"
  using parse_host_port[of 4294967376 demo_inet True demo_text blank_addr] by simp

subsection \<open>Printing and parsing back\<close>

definition c_string :: "byte list \<Rightarrow> byte list" where
  "c_string d = takeWhile (\<lambda>c. c \<noteq> 0) d"

lemma takeWhile_stops: "\<not> P x \<Longrightarrow> length (takeWhile P (xs @ x # ys)) \<le> length xs"
  by (induction xs) auto

lemma c_string_append: "0 \<notin> set t \<Longrightarrow> c_string (t @ 0 # r) = t"
  unfolding c_string_def by (subst takeWhile_append2) auto

lemma decimal_no_NUL: "0 \<notin> set (decimal v)"
  using decimal_digits[of v] by (auto simp: is_digit_def word_le_nat_alt)

definition host_text :: "inet \<Rightarrow> eo_addr \<Rightarrow> byte list" where
  "host_text L a = (if eo_is_v4_addr a then ntop_buf (ntop4 L (sin_addr a)) INET_ADDRSTRLEN
     else ntop_buf (ntop6 L (sin6_addr a)) INET6_ADDRSTRLEN)"

lemma port_text_length: "length (decimal (unat (p :: uint16))) \<le> 5"
  using decimal_length[of "unat p" 4] unat_less_2p[of p] by simp

lemma host_text_length: "length (host_text L a) \<le> 45"
  by (simp add: host_text_def ntop_buf_def INET_ADDRSTRLEN_def INET6_ADDRSTRLEN_def)

lemma eo_addr_to_str_text:
  assumes "length dest = EO_ADDR_LEN" and "eo_is_v4_addr a \<or> eo_is_v6_addr a"
  shows "\<exists>r. length r = EO_ADDR_LEN - Suc (length (host_text L a @ 58 # decimal (unat (htons (sin_port a))))) \<and>
    eo_addr_to_str L a dest = Inr (0, (host_text L a @ 58 # decimal (unat (htons (sin_port a)))) @ 0 # r)"
proof -
  let ?t = "host_text L a @ 58 # decimal (unat (htons (sin_port a)))"
  have len: "Suc (length ?t) \<le> length dest"
    using host_text_length[of L a] port_text_length[of "htons (sin_port a)"] assms(1)
    by (simp add: EO_ADDR_LEN_def INET6_ADDRSTRLEN_def)
  then have "mem_write dest 0 (?t @ [0]) = Inr (?t @ 0 # drop (Suc (length ?t)) dest)" by simp
  then have "eo_addr_to_str L a dest = Inr (0, ?t @ 0 # drop (Suc (length ?t)) dest)"
    using assms(2) unfolding eo_addr_to_str_def host_text_def Let_def by auto
  then show ?thesis using assms(1) by (intro exI[of _ "drop (Suc (length ?t)) dest"]) simp
qed

text \<open>
  C28. \<open>eo_addr_to_str\<close> stays within \<open>EO_ADDR_LEN\<close> bytes, whatever the library prints: the text, of at most
  51 characters, is stored with its NUL for both families, and any other family gives -1 and an untouched
  destination.
\<close>
theorem addr_text_fits:
  assumes "length dest = EO_ADDR_LEN"
  shows "(eo_is_v4_addr a \<or> eo_is_v6_addr a \<longrightarrow> (\<exists>d. eo_addr_to_str L a dest = Inr (0, d) \<and>
      length d = EO_ADDR_LEN \<and> 0 \<in> set d \<and> length (c_string d) \<le> 51)) \<and>
    (\<not> eo_is_v4_addr a \<and> \<not> eo_is_v6_addr a \<longrightarrow> eo_addr_to_str L a dest = Inr (-1, dest))"
proof (intro conjI impI)
  assume fam: "eo_is_v4_addr a \<or> eo_is_v6_addr a"
  let ?t = "host_text L a @ 58 # decimal (unat (htons (sin_port a)))"
  obtain r where r: "length r = EO_ADDR_LEN - Suc (length ?t)" "eo_addr_to_str L a dest = Inr (0, ?t @ 0 # r)"
    using eo_addr_to_str_text[OF assms fam, of L] by blast
  have t: "length ?t \<le> 51"
    using host_text_length[of L a] port_text_length[of "htons (sin_port a)"] by simp
  define d where "d = ?t @ 0 # r"
  have d: "length d = EO_ADDR_LEN" "0 \<in> set d"
    using r(1) t by (simp_all add: d_def EO_ADDR_LEN_def INET6_ADDRSTRLEN_def)
  have "length (c_string d) \<le> length ?t" unfolding c_string_def d_def by (rule takeWhile_stops) simp
  then have "length (c_string d) \<le> 51" using t by (rule le_trans)
  then show "\<exists>d. eo_addr_to_str L a dest = Inr (0, d) \<and>
      length d = EO_ADDR_LEN \<and> 0 \<in> set d \<and> length (c_string d) \<le> 51"
    using r(2) d unfolding d_def[symmetric] by blast
qed (simp add: eo_addr_to_str_def)

theorem addr_text_fits_witness:
  "\<exists>d. eo_addr_to_str demo_inet \<lparr>sa_family = AF_INET, sin_port = 43105, sin_addr = 0, sin6_addr = 0\<rparr> (replicate 64 0) = Inr (0, d) \<and>
     length d = EO_ADDR_LEN \<and> 0 \<in> set d \<and> length (c_string d) \<le> 51"
  using addr_text_fits[of "replicate 64 0" "\<lparr>sa_family = AF_INET, sin_port = 43105, sin_addr = 0, sin6_addr = 0\<rparr>" demo_inet]
  by (simp add: eo_is_v4_addr_def EO_ADDR_LEN_def INET6_ADDRSTRLEN_def)

text \<open>
  What the round trip needs of the library at one address: its text fits the buffer, has no NUL and no
  bracket, and is parsed back, the text of an IPv4 address not being that of an IPv6 one.
\<close>

definition inet4_at :: "inet \<Rightarrow> uint32 \<Rightarrow> bool" where
  "inet4_at L x \<longleftrightarrow> length (ntop4 L x) < INET_ADDRSTRLEN \<and> 0 \<notin> set (ntop4 L x) \<and> 91 \<notin> set (ntop4 L x) \<and>
     pton6 L (ntop4 L x) = None \<and> pton4 L (ntop4 L x) = Some x"

definition inet6_at :: "inet \<Rightarrow> 128 word \<Rightarrow> bool" where
  "inet6_at L x \<longleftrightarrow> length (ntop6 L x) < INET6_ADDRSTRLEN \<and> 0 \<notin> set (ntop6 L x) \<and> 91 \<notin> set (ntop6 L x) \<and>
     pton6 L (ntop6 L x) = Some x"

lemma parse_limited_host:
  assumes "91 \<notin> set h" and "length h \<le> INET6_ADDRSTRLEN"
  shows "eo_parse_addr_limited L (h @ r) (length h) port dest =
    (case pton6 L h of
       Some a \<Rightarrow> (0, dest\<lparr>sin6_addr := a, sin_port := htons port, sa_family := AF_INET6\<rparr>)
     | None \<Rightarrow> (case pton4 L h of
         Some a \<Rightarrow> (0, dest\<lparr>sin_addr := a, sin_port := htons port, sa_family := AF_INET\<rparr>)
       | None \<Rightarrow> (-1, dest)))"
proof -
  have "\<not> (2 \<le> length h \<and> (h @ r) ! 0 = 91)"
    using assms(1) by (cases h) auto
  then show ?thesis using assms(2) by (auto simp: eo_parse_addr_limited_def Let_def split: option.splits)
qed

text \<open>
  C10. Round trip, whatever the uninitialised \<open>err\<close> holds: if it happens to be NULL, the text that \<open>eo_addr_to_str\<close> writes for
  an address with a port from 1 to 32767 is parsed back to the same family, address and port (the other bytes of the
  destination kept); if it is not, and with port 0 or a port above 32767, which \<open>eo_addr_to_str\<close> prints all the same, the
  text is refused and the destination unchanged.
\<close>
theorem addr_text_roundtrip:
  assumes "length dest = EO_ADDR_LEN"
    and "sa_family a = AF_INET \<and> inet4_at L (sin_addr a) \<or> sa_family a = AF_INET6 \<and> inet6_at L (sin6_addr a)"
  shows "\<exists>d. eo_addr_to_str L a dest = Inr (0, d) \<and> eo_parse_addr_port L err_null (c_string d) b =
    (if err_null \<and> 0 < unat (htons (sin_port a)) \<and> unat (htons (sin_port a)) \<le> 32767
     then (0, if sa_family a = AF_INET
              then b\<lparr>sa_family := AF_INET, sin_port := sin_port a, sin_addr := sin_addr a\<rparr>
              else b\<lparr>sa_family := AF_INET6, sin_port := sin_port a, sin6_addr := sin6_addr a\<rparr>)
     else (-1, b))"
proof -
  let ?h = "host_text L a" and ?p = "unat (htons (sin_port a))"
  have fam: "eo_is_v4_addr a \<or> eo_is_v6_addr a" and ne: "AF_INET \<noteq> AF_INET6"
    using assms(2) by (auto simp: eo_is_v4_addr_def eo_is_v6_addr_def AF_INET_def AF_INET6_def)
  then have h: "if sa_family a = AF_INET then pton6 L ?h = None \<and> pton4 L ?h = Some (sin_addr a)
      else sa_family a = AF_INET6 \<and> pton6 L ?h = Some (sin6_addr a)" and h0: "0 \<notin> set ?h" "91 \<notin> set ?h"
    using assms(2) by (auto simp: host_text_def ntop_buf_def eo_is_v4_addr_def inet4_at_def inet6_at_def)
  obtain r where r: "eo_addr_to_str L a dest = Inr (0, (?h @ 58 # decimal ?p) @ 0 # r)"
    using eo_addr_to_str_text[OF assms(1) fam, of L] by blast
  have str: "c_string ((?h @ 58 # decimal ?p) @ 0 # r) = ?h @ 58 # decimal ?p"
    by (rule c_string_append) (use h0(1) decimal_no_NUL[of ?p] in simp)
  have p: "?p < 2 ^ 16" using unat_less_2p[of "htons (sin_port a)"] by simp
  then have "?p < 2 ^ 63" and m: "?p mod 2 ^ 32 = ?p" by simp_all
  have net: "(of_nat ?p :: uint16) = htons (sin_port a)" by simp
  have "eo_parse_addr_port L err_null (?h @ 58 # decimal ?p) b =
      (if err_null \<and> 0 < ?p \<and> ?p \<le> 32767 then eo_parse_addr_limited L (?h @ 58 # decimal ?p) (length ?h) (of_nat ?p) b else (-1, b))"
    using parse_port_of_decimal[OF \<open>?p < 2 ^ 63\<close>, of L err_null ?h b] by (simp only: m)
  also have "eo_parse_addr_limited L (?h @ 58 # decimal ?p) (length ?h) (of_nat ?p) b =
      (0, if sa_family a = AF_INET then b\<lparr>sa_family := AF_INET, sin_port := sin_port a, sin_addr := sin_addr a\<rparr>
          else b\<lparr>sa_family := AF_INET6, sin_port := sin_port a, sin6_addr := sin6_addr a\<rparr>)"
    using h host_text_length[of L a]
    by (subst parse_limited_host[OF h0(2)])
       (auto simp: INET6_ADDRSTRLEN_def net htons_htons split: if_splits)
  finally show ?thesis using r str by auto
qed

theorem addr_text_roundtrip_witness:
  "\<exists>d. eo_addr_to_str demo_inet \<lparr>sa_family = AF_INET, sin_port = htons 25000, sin_addr = 0x880DD95F, sin6_addr = 0\<rparr>
        (replicate 64 0) = Inr (0, d) \<and>
     eo_parse_addr_port demo_inet True (c_string d) blank_addr =
       (0, \<lparr>sa_family = AF_INET, sin_port = htons 25000, sin_addr = 0x880DD95F, sin6_addr = 0\<rparr>)"
proof -
  let ?a = "\<lparr>sa_family = AF_INET, sin_port = htons 25000, sin_addr = 0x880DD95F, sin6_addr = 0\<rparr>"
  have "inet4_at demo_inet (sin_addr ?a)"
    by (simp add: inet4_at_def demo_inet_def demo_text_def INET_ADDRSTRLEN_def)
  then show ?thesis
    using addr_text_roundtrip[of "replicate 64 0" ?a demo_inet True blank_addr]
    by (simp add: blank_addr_def htons_htons EO_ADDR_LEN_def INET6_ADDRSTRLEN_def)
qed

end
