(* ===== verification/Polling.thy ===== *)
theory Polling
  imports Eventfd ByteStream
begin

text \<open>
  \<open>src/sockets/primitives/main.c\<close>: reading an \<open>eventfd\<close> semaphore, a timer descriptor, and the three ways to
  wait for a descriptor, \<open>poll\<close>, \<open>select\<close> and edge-triggered \<open>epoll\<close>.  The endless loops are their states after
  so many rounds.
\<close>

datatype line = Flags bool bool bool | Val nat | ErrorLine errno | Evres int

text \<open>How a function that prints ends: it returns, calls \<open>exit\<close>, or waits forever in a system call.\<close>

datatype ending = Returned | ExitCalled | Blocked

subsection \<open>\<open>run_semaphore\<close>\<close>

fun semaphore_loop :: "nat \<Rightarrow> eventfd \<Rightarrow> line list \<times> ending" where
  "semaphore_loop 0 fd = ([], Returned)"
| "semaphore_loop (Suc i) fd = (case efd_read fd of
       None \<Rightarrow> ([], Blocked)
     | Some (v, fd) \<Rightarrow> (let (out, e) = semaphore_loop i fd in (Val v # out, e)))"

definition sem_efd :: "nat \<Rightarrow> eventfd" where
  "sem_efd n = \<lparr>efd_count = n, efd_semaphore = True\<rparr>"

definition run_semaphore :: "line list \<times> ending" where
  "run_semaphore = (case efd_write 3 (sem_efd 2) of None \<Rightarrow> ([], Blocked) | Some fd \<Rightarrow> semaphore_loop 10 fd)"

lemma sem_efd_read: "efd_read (sem_efd n) = (if n = 0 then None else Some (1, sem_efd (n - 1)))"
  by (simp add: efd_read_def sem_efd_def)

lemma semaphore_loop_units:
  "semaphore_loop k (sem_efd n) = (replicate (min k n) (Val 1), if k \<le> n then Returned else Blocked)"
  by (induction k arbitrary: n) (auto simp: sem_efd_read min_def Suc_le_eq not_le less_Suc_eq_le gr0_conv_Suc)

text \<open>Ten reads were asked for; the initial 2 and the 3 written allow five.\<close>

lemma run_semaphore_blocks: "run_semaphore = (replicate 5 (Val 1), Blocked)"
proof -
  have "efd_write 3 (sem_efd 2) = Some (sem_efd 5)" by (simp add: efd_write_def sem_efd_def)
  then show ?thesis using semaphore_loop_units[of 10 5] by (simp add: run_semaphore_def)
qed

subsection \<open>\<open>run_timefd\<close>\<close>

text \<open>
  Time in milliseconds since the timer was set; it expires at every multiple of 500.  A read at time \<open>t\<close>
  returns the expirations since the last one; when there are none it waits for the next.  Each round of the
  loop is preceded by some delay, and its read may be interrupted (None).
\<close>

record timerfd =
  clock :: nat
  taken :: nat    \<comment> \<open>expirations already read\<close>

definition expirations :: "nat \<Rightarrow> nat" where
  "expirations t = t div 500"

definition timerfd_read :: "timerfd \<Rightarrow> nat \<times> timerfd" where
  "timerfd_read fd =
     (let now = max (clock fd) (500 * (taken fd + 1)); n = expirations now
      in (n - taken fd, \<lparr>clock = now, taken = n\<rparr>))"

fun timefd_loop :: "nat option list \<Rightarrow> timerfd \<Rightarrow> line list \<times> timerfd" where
  "timefd_loop [] fd = ([], fd)"
| "timefd_loop (None # ds) fd = timefd_loop ds fd"
| "timefd_loop (Some d # ds) fd =
     (let (x, fd) = timerfd_read (fd\<lparr>clock := clock fd + d\<rparr>);
          (out, fd) = timefd_loop ds fd in (Val x # out, fd))"

text \<open>After \<open>sleep(2)\<close>.\<close>

definition run_timefd :: "nat option list \<Rightarrow> line list \<times> timerfd" where
  "run_timefd ds = timefd_loop ds \<lparr>clock = 2000, taken = 0\<rparr>"

fun line_value :: "line \<Rightarrow> nat" where
  "line_value (Val x) = x"
| "line_value _ = 0"

lemma timerfd_read_spec:
  assumes "timerfd_read fd = (x, fd')" and "taken fd \<le> expirations (clock fd)"
  shows "taken fd' = taken fd + x \<and> 0 < x \<and> taken fd' = expirations (clock fd') \<and> clock fd \<le> clock fd'"
proof -
  have "500 * (taken fd + 1) div 500 \<le> expirations (max (clock fd) (500 * (taken fd + 1)))"
    unfolding expirations_def by (rule div_le_mono) simp
  then show ?thesis using assms by (auto simp: timerfd_read_def Let_def)
qed

lemma timefd_loop_silent: "timefd_loop ds fd = ([], fd') \<Longrightarrow> fd' = fd"
  by (induction ds fd rule: timefd_loop.induct) (auto split: prod.splits)

lemma timefd_loop_counts:
  assumes "timefd_loop ds fd = (out, fd')" and "taken fd \<le> expirations (clock fd)"
  shows "taken fd' = taken fd + sum_list (map line_value out) \<and> (\<forall>l \<in> set out. 0 < line_value l) \<and>
    clock fd \<le> clock fd' \<and> (out \<noteq> [] \<longrightarrow> taken fd' = expirations (clock fd'))"
  using assms
proof (induction ds fd arbitrary: out fd' rule: timefd_loop.induct)
  case (3 d ds fd)
  obtain x fd1 where r: "timerfd_read (fd\<lparr>clock := clock fd + d\<rparr>) = (x, fd1)" by fastforce
  obtain out1 where l: "timefd_loop ds fd1 = (out1, fd')" "out = Val x # out1"
    using 3(2) r by (auto split: prod.splits)
  have "taken fd \<le> expirations (clock fd + d)"
    by (rule le_trans[OF 3(3)]) (simp add: expirations_def div_le_mono)
  then have x: "taken fd1 = taken fd + x" "0 < x" "taken fd1 = expirations (clock fd1)" "clock fd \<le> clock fd1"
    using timerfd_read_spec[OF r] by auto
  show ?case using 3(1)[OF r[symmetric] refl l(1)] x l timefd_loop_silent[of ds fd1 fd'] by (cases "out1 = []") auto
qed auto

text \<open>
  The timer loop loses no expiration and counts none twice, however late its reads come and however
  often they are interrupted: the printed numbers are all positive and add up to the expirations at the
  time of the last read; after \<open>sleep(2)\<close> the first one is at least 4.
\<close>
theorem run_timefd_counts:
  assumes "run_timefd ds = (l # out, fd)"
  shows "sum_list (map line_value (l # out)) = expirations (clock fd) \<and> (\<forall>l \<in> set (l # out). 0 < line_value l) \<and>
    4 \<le> line_value l"
proof -
  have "timefd_loop ds \<lparr>clock = 2000, taken = 0\<rparr> = (l # out, fd)" using assms by (simp add: run_timefd_def)
  moreover from this have "4 \<le> line_value l"
    by (induction ds "\<lparr>clock = 2000, taken = 0\<rparr>" rule: timefd_loop.induct)
       (auto simp: timerfd_read_def Let_def expirations_def split: prod.splits)
  ultimately show ?thesis using timefd_loop_counts[of ds "\<lparr>clock = 2000, taken = 0\<rparr>" "l # out" fd] by simp
qed

theorem run_timefd_counts_witness:
  "run_timefd [Some 10, Some 1600, None, Some 0] = ([Val 4, Val 3, Val 1], \<lparr>clock = 4000, taken = 8\<rparr>) \<and>
   sum_list (map line_value [Val 4, Val 3, Val 1]) = expirations 4000"
proof -
  have r: "run_timefd [Some 10, Some 1600, None, Some 0] = ([Val 4, Val 3, Val 1], \<lparr>clock = 4000, taken = 8\<rparr>)"
    by (simp add: run_timefd_def timerfd_read_def expirations_def Let_def)
  show ?thesis using r run_timefd_counts[OF r] by simp
qed

subsection \<open>\<open>run_poll\<close> and \<open>run_select\<close>\<close>

text \<open>Readable, writable and in error, as \<open>poll\<close> reports it for an \<open>eventfd\<close>.\<close>

definition efd_events :: "eventfd \<Rightarrow> bool \<times> bool \<times> bool" where
  "efd_events e = (0 < efd_count e, efd_count e < 2 ^ 64 - 2, efd_count e = 2 ^ 64 - 1)"

text \<open>The rounds of the loop: whether \<open>poll\<close> answers or fails (interrupted).\<close>

fun poll_loop :: "bool list \<Rightarrow> eventfd \<Rightarrow> line list \<times> ending \<times> eventfd" where
  "poll_loop [] fd = ([], Returned, fd)"
| "poll_loop (False # rs) fd = poll_loop rs fd"
| "poll_loop (True # rs) fd =
     (let (r, w, e) = efd_events fd
      in if r then (case efd_read fd of
             None \<Rightarrow> ([Flags r w e], Blocked, fd)
           | Some (x, fd) \<Rightarrow> (let (out, res) = poll_loop rs fd in (Flags r w e # Val x # out, res)))
         else (let (out, res) = poll_loop rs fd in (Flags r w e # out, res)))"

definition run_poll :: "bool list \<Rightarrow> line list \<times> ending \<times> eventfd" where
  "run_poll rs = poll_loop rs (sem_efd 2)"

text \<open>
  Descriptor sets hold \<open>FD_SETSIZE\<close> = 1024 bits; \<open>FD_SET\<close> of a larger descriptor writes outside.
  \<open>sys_select\<close> keeps the ready descriptors below its first argument; an \<open>eventfd\<close> has no exceptional
  condition.
\<close>

definition FD_SET :: "nat \<Rightarrow> nat set \<Rightarrow> c_error + nat set" where
  "FD_SET fd s = (if fd < 1024 then Inr (insert fd s) else Inl OutOfBounds)"

definition sys_select :: "nat \<Rightarrow> (nat \<Rightarrow> bool \<times> bool \<times> bool) \<Rightarrow> nat set \<Rightarrow> nat set \<Rightarrow> nat set \<Rightarrow> nat set \<times> nat set \<times> nat set" where
  "sys_select n ready r w e =
     (Set.filter (\<lambda>fd. fd < n \<and> fst (ready fd)) r, Set.filter (\<lambda>fd. fd < n \<and> fst (snd (ready fd))) w,
      Set.filter (\<lambda>fd. fd < n \<and> snd (snd (ready fd))) e)"

definition select_events :: "eventfd \<Rightarrow> bool \<times> bool \<times> bool" where
  "select_events e = (0 < efd_count e, efd_count e < 2 ^ 64 - 2, False)"

fun select_loop :: "nat \<Rightarrow> bool list \<Rightarrow> eventfd \<Rightarrow> c_error + line list \<times> ending \<times> eventfd" where
  "select_loop fd [] efd = Inr ([], Returned, efd)"
| "select_loop fd (answered # rs) efd =
     bindE (FD_SET fd {}) (\<lambda>r. bindE (FD_SET fd {}) (\<lambda>w. bindE (FD_SET fd {}) (\<lambda>e.
       if \<not> answered then select_loop fd rs efd
       else let (r, w, e) = sys_select (fd + 1) (\<lambda>_. select_events efd) r w e;
                flags = Flags (fd \<in> r) (fd \<in> w) (fd \<in> e)
            in if fd \<in> r then (case efd_read efd of
                   None \<Rightarrow> Inr ([flags], Blocked, efd)
                 | Some (x, efd) \<Rightarrow> bindE (select_loop fd rs efd) (\<lambda>(out, res). Inr (flags # Val x # out, res)))
               else bindE (select_loop fd rs efd) (\<lambda>(out, res). Inr (flags # out, res)))))"

definition run_select :: "nat \<Rightarrow> bool list \<Rightarrow> c_error + line list \<times> ending \<times> eventfd" where
  "run_select fd rs = select_loop fd rs (sem_efd 2)"

lemma select_loop_poll:
  "fd < 1024 \<Longrightarrow> efd_count efd < 2 ^ 64 - 1 \<Longrightarrow> select_loop fd rs efd = Inr (poll_loop rs efd)"
proof (induction rs arbitrary: efd)
  case (Cons a rs)
  have less: "efd_count efd' < 2 ^ 64 - 1" if "efd_read efd = Some (x, efd')" for x efd'
    using that Cons.prems(2) by (auto simp: efd_read_def split: if_splits)
  show ?case
    using Cons less by (cases a) (auto simp: FD_SET_def sys_select_def select_events_def efd_events_def Let_def
        split: option.splits prod.splits)
qed simp

text \<open>
  C39. The \<open>select\<close> loop prints, line by line, what the \<open>poll\<close> loop prints, for every pattern of interrupted
  calls, provided its descriptor is below \<open>FD_SETSIZE\<close>; a larger one is a write outside the set.
\<close>
theorem select_equals_poll:
  "run_select fd rs = (if fd < 1024 \<or> rs = [] then Inr (run_poll rs) else Inl OutOfBounds)"
proof (cases "fd < 1024 \<or> rs = []")
  case True
  then show ?thesis
    by (cases "rs = []") (auto simp: run_select_def run_poll_def sem_efd_def intro!: select_loop_poll)
next
  case False
  then show ?thesis by (cases rs) (simp_all add: run_select_def FD_SET_def)
qed

text \<open>Two units, and then the loop spins, reporting the descriptor as writable only.\<close>

lemma poll_loop_rounds:
  "n < 2 ^ 64 - 2 \<Longrightarrow> poll_loop (replicate k True) (sem_efd n) =
     (concat (replicate (min k n) [Flags True True False, Val 1]) @ replicate (k - n) (Flags False True False),
      Returned, sem_efd (n - k))"
proof (induction k arbitrary: n)
  case (Suc k)
  then show ?case
    by (cases n) (auto simp: efd_events_def sem_efd_read, auto simp: sem_efd_def)
qed simp

subsection \<open>\<open>open_many_fd\<close>\<close>

text \<open>
  1024 descriptors, each tried until it is got.  \<open>free_fds\<close> are left in the process; None: it prints the error for ever.
\<close>

fun open_many :: "nat \<Rightarrow> nat \<Rightarrow> nat option" where
  "open_many 0 free_fds = Some free_fds"
| "open_many (Suc i) free_fds = (if free_fds = 0 then None else open_many i (free_fds - 1))"

definition open_many_fd :: "nat \<Rightarrow> nat option" where
  "open_many_fd free_fds = open_many 1024 free_fds"

lemma open_many_result: "open_many i n = (if i \<le> n then Some (n - i) else None)"
  by (induction i arbitrary: n) auto

text \<open>It returns exactly when 1024 descriptors are free; then the next one is above what a set can hold.\<close>

lemma open_many_fd_result: "open_many_fd n = (if 1024 \<le> n then Some (n - 1024) else None)"
  by (simp add: open_many_fd_def open_many_result)

subsection \<open>\<open>run_epoll\<close>\<close>

text \<open>
  A non-blocking pipe watched with \<open>EPOLLET\<close>: its bytes, and whether it is on the ready list.  A write puts it
  there; a wait takes it off, and reports it if it is readable then.
\<close>

record watched_pipe =
  held :: "byte list"
  on_ready_list :: bool

definition pipe_write :: "byte list \<Rightarrow> watched_pipe \<Rightarrow> (errno + nat) \<times> watched_pipe" where
  "pipe_write xs p = (if length (held p) + length xs \<le> 65536
     then (Inr (length xs), p\<lparr>held := held p @ xs, on_ready_list := True\<rparr>) else (Inl EAGAIN, p))"

definition pipe_read :: "nat \<Rightarrow> watched_pipe \<Rightarrow> (errno + byte list) \<times> watched_pipe" where
  "pipe_read n p = (if held p = [] then (Inl EAGAIN, p) else (Inr (take n (held p)), p\<lparr>held := drop n (held p)\<rparr>))"

definition epoll_wait :: "watched_pipe \<Rightarrow> bool \<times> watched_pipe" where
  "epoll_wait p = (on_ready_list p \<and> held p \<noteq> [], p\<lparr>on_ready_list := False\<rparr>)"

definition le_value :: "byte list \<Rightarrow> nat" where
  "le_value xs = foldr (\<lambda>b n. unat b + 256 * n) xs 0"

text \<open>
  A pipe's read end is never writable, so the only event to be reported is \<open>EPOLLIN\<close>.  The inner loop; \<open>err\<close> is the value of \<open>errno\<close>, which a short read leaves as it was.
\<close>

function drain :: "errno \<Rightarrow> watched_pipe \<Rightarrow> line list \<times> errno \<times> watched_pipe" where
  "drain err p = (case pipe_read 8 p of
       (Inl e, p) \<Rightarrow> ([ErrorLine e], e, p)
     | (Inr xs, p') \<Rightarrow> if length xs \<noteq> 8 then ([ErrorLine err], err, p')
         else (let (out, res) = drain err p' in (Val (le_value xs) # out, res)))"
  by pat_completeness auto
termination
  by (relation "measure (\<lambda>(e, p). length (held p))") (auto simp: pipe_read_def split: if_splits)

declare drain.simps [simp del]

fun epoll_loop :: "nat \<Rightarrow> errno \<Rightarrow> watched_pipe \<Rightarrow> line list \<times> errno \<times> watched_pipe" where
  "epoll_loop 0 err p = ([], err, p)"
| "epoll_loop (Suc n) err p =
     (let (event, p) = epoll_wait p
      in if event
         then (let (out, err, p) = drain err p; (out', res) = epoll_loop n err p
               in (Flags True False False # out @ out', res))
         else (let (out', res) = epoll_loop n err p in (Evres 0 # out', res)))"

text \<open>The four writes, with the line printed when one fails.\<close>

fun fill_pipe :: "nat \<Rightarrow> errno \<Rightarrow> byte list \<Rightarrow> watched_pipe \<Rightarrow> errno + watched_pipe" where
  "fill_pipe 0 err xs p = Inr p"
| "fill_pipe (Suc i) err xs p = (case pipe_write xs p of
       (Inl e, p) \<Rightarrow> Inl e
     | (Inr n, p) \<Rightarrow> if n \<noteq> length xs then Inl err else fill_pipe i err xs p)"

definition run_epoll :: "nat \<Rightarrow> errno \<Rightarrow> line list \<times> ending" where
  "run_epoll rounds err =
     (case fill_pipe 4 err [123, 0, 0, 0, 0, 0, 0, 0] \<lparr>held = [], on_ready_list = False\<rparr> of
        Inl e \<Rightarrow> ([ErrorLine e], ExitCalled)
      | Inr p \<Rightarrow> (fst (epoll_loop rounds err p), Returned))"

text \<open>The edge-triggered protocol: data in the pipe is always announced, because a round empties it.\<close>

definition announced :: "watched_pipe \<Rightarrow> bool" where
  "announced p \<longleftrightarrow> (held p \<noteq> [] \<longrightarrow> on_ready_list p)"

lemma drain_empties: "drain err p = (out, err', p') \<Longrightarrow> held p' = []"
proof (induction err p arbitrary: out rule: drain.induct)
  case (1 err p)
  show ?case
  proof (cases "length (held p) < 8")
    case True
    then show ?thesis using 1(2) by (subst (asm) drain.simps) (auto simp: pipe_read_def split: if_splits)
  next
    case False
    then have r: "pipe_read 8 p = (Inr (take 8 (held p)), p\<lparr>held := drop 8 (held p)\<rparr>)" and l: "length (take 8 (held p)) = 8"
      by (auto simp: pipe_read_def)
    obtain out1 err1 p1 where d: "drain err (p\<lparr>held := drop 8 (held p)\<rparr>) = (out1, err1, p1)" by (metis surj_pair)
    have "p1 = p'" "err1 = err'" using 1(2) r l d by (subst (asm) drain.simps, simp)+
    then show ?thesis using 1(1)[OF r[symmetric] refl] l d by simp
  qed
qed

lemma pipe_write_announced: "pipe_write xs p = (r, p') \<Longrightarrow> announced p \<Longrightarrow> announced p'"
  by (auto simp: pipe_write_def announced_def split: if_splits)

lemma epoll_loop_empties: "epoll_loop n err p = (out, err', p') \<Longrightarrow> announced p \<Longrightarrow> 0 < n \<Longrightarrow> held p' = []"
proof (induction n arbitrary: err p out)
  case (Suc n)
  show ?case
  proof (cases "on_ready_list p \<and> held p \<noteq> []")
    case True
    obtain o1 err1 p1 where d: "drain err (p\<lparr>on_ready_list := False\<rparr>) = (o1, err1, p1)" by (metis surj_pair)
    have "announced p1" using drain_empties[OF d] by (simp add: announced_def)
    moreover obtain o2 where "epoll_loop n err1 p1 = (o2, err', p')"
      using Suc.prems(1) True d by (auto simp: epoll_wait_def split: prod.splits)
    ultimately show ?thesis using Suc.IH drain_empties[OF d] by (cases n) auto
  next
    case False
    then have h: "held p = []" using Suc.prems(2) by (auto simp: announced_def)
    then obtain o2 where "epoll_loop n err (p\<lparr>on_ready_list := False\<rparr>) = (o2, err', p')"
      using Suc.prems(1) by (auto simp: epoll_wait_def split: prod.splits)
    then show ?thesis using Suc.IH[of err "p\<lparr>on_ready_list := False\<rparr>"] h by (cases n) (auto simp: announced_def)
  qed
qed simp

lemma drain_blocks:
  "\<forall>xs \<in> set xss. length xs = 8 \<Longrightarrow> held p = concat xss \<Longrightarrow>
     drain err p = (map (\<lambda>xs. Val (le_value xs)) xss @ [ErrorLine EAGAIN], EAGAIN, p\<lparr>held := []\<rparr>)"
proof (induction xss arbitrary: p)
  case Nil
  then have "pipe_read 8 p = (Inl EAGAIN, p)" and "p\<lparr>held := []\<rparr> = p" by (simp_all add: pipe_read_def)
  then show ?case by (subst drain.simps) simp
next
  case (Cons xs xss)
  then have "pipe_read 8 p = (Inr xs, p\<lparr>held := concat xss\<rparr>)" by (auto simp: pipe_read_def)
  moreover have "drain err (p\<lparr>held := concat xss\<rparr>) =
      (map (\<lambda>xs. Val (le_value xs)) xss @ [ErrorLine EAGAIN], EAGAIN, p\<lparr>held := []\<rparr>)"
    using Cons.IH[of "p\<lparr>held := concat xss\<rparr>"] Cons.prems by simp
  ultimately show ?case using Cons.prems by (subst drain.simps) simp
qed

lemma epoll_loop_idle:
  "held p = [] \<Longrightarrow> fst (epoll_loop n err p) = replicate n (Evres 0)"
  by (induction n arbitrary: p) (auto simp: epoll_wait_def split: prod.splits, metis fst_conv select_convs(1) surjective update_convs(2))

text \<open>
  The \<open>epoll\<close> program prints one event, each of the four numbers exactly once, the \<open>EAGAIN\<close> that ends
  the inner loop, and from then on, in every round, that there is no event.
\<close>
theorem run_epoll_output:
  "run_epoll (Suc n) err =
     (Flags True False False # replicate 4 (Val 123) @ ErrorLine EAGAIN # replicate n (Evres 0), Returned)"
proof -
  let ?b = "[123, 0, 0, 0, 0, 0, 0, 0] :: byte list"
  have v: "le_value ?b = 123" by (simp add: le_value_def)
  have four: "(4 :: nat) = Suc (Suc (Suc (Suc 0)))" by simp
  have fill: "fill_pipe 4 err ?b \<lparr>held = [], on_ready_list = False\<rparr> =
      Inr \<lparr>held = concat (replicate 4 ?b), on_ready_list = True\<rparr>"
    unfolding four by (simp add: pipe_write_def)
  have "drain err \<lparr>held = concat (replicate 4 ?b), on_ready_list = False\<rparr> =
      (replicate 4 (Val 123) @ [ErrorLine EAGAIN], EAGAIN, \<lparr>held = [], on_ready_list = False\<rparr>)"
    by (subst drain_blocks[of "replicate 4 ?b"]) (auto simp: v map_replicate)
  moreover have "fst (epoll_loop n EAGAIN \<lparr>held = [], on_ready_list = False\<rparr>) = replicate n (Evres 0)"
    by (rule epoll_loop_idle) simp
  moreover have "concat (replicate 4 ?b) \<noteq> []" by (simp add: four)
  ultimately show ?thesis unfolding run_epoll_def fill by (auto simp: epoll_wait_def split: prod.splits)
qed

subsection \<open>\<open>run_timer_signal\<close> and \<open>main\<close>\<close>

text \<open>
  The interval timer sends \<open>SIGALRM\<close> at the end of every second; the handler prints the signal's number and ends the
  \<open>sleep\<close> of the loop.  A time in milliseconds gives what has been printed by then.
\<close>

definition SIGALRM :: nat where "SIGALRM = 14"

definition handle :: "nat \<Rightarrow> nat list" where
  "handle sig = [sig]"

fun timer_signal_loop :: "nat \<Rightarrow> nat list" where
  "timer_signal_loop 0 = []"
| "timer_signal_loop (Suc n) = handle SIGALRM @ timer_signal_loop n"

definition run_timer_signal :: "nat \<Rightarrow> nat list" where
  "run_timer_signal t = timer_signal_loop (t div 1000)"

lemma run_timer_signal_prints: "run_timer_signal t = replicate (t div 1000) 14"
proof -
  have "timer_signal_loop n = replicate n 14" for n by (induction n) (simp_all add: handle_def SIGALRM_def)
  then show ?thesis by (simp add: run_timer_signal_def)
qed

text \<open>\<open>main\<close> runs the last of the examples, which never returns by itself.\<close>

definition primitives_main :: "nat \<Rightarrow> errno \<Rightarrow> line list \<times> ending" where
  "primitives_main rounds err = run_epoll rounds err"

end
