(* ===== verification/Race.thy ===== *)
theory Race
  imports Transition
begin

text \<open>
  \<open>src/pthread/race/main.c\<close>: two threads that each increment \<open>x\<close> the same number of times without
  synchronisation.  \<open>mutate\<close> is a load and a store, and other steps may come between them.  The number of
  iterations is a parameter, and so is the amount added, because \<open>ThreadLocal\<close> ends in the same race.
  This is the program as C leaves it: \<open>thread_func\<close> also pins both threads to the first processor (lines 17 to 20), which
  still lets one be preempted between its load and its store, but a compiler that makes the increment a single
  instruction would then lose nothing.
\<close>

record race_state =
  x :: size_t
  reg :: "nat \<Rightarrow> size_t option"   \<comment> \<open>the value a thread has loaded and not yet stored\<close>
  cnt :: "nat \<Rightarrow> nat"             \<comment> \<open>finished iterations\<close>

definition ITERATIONS :: nat where "ITERATIONS = 1000000000"

definition race_init :: "race_state \<Rightarrow> bool" where
  "race_init s \<longleftrightarrow> s = \<lparr>x = 0, reg = (\<lambda>_. None), cnt = (\<lambda>_. 0)\<rparr>"

inductive race_step :: "nat \<Rightarrow> size_t \<Rightarrow> race_state \<Rightarrow> race_state \<Rightarrow> bool" for k d where
  load: "p < 2 \<Longrightarrow> reg s p = None \<Longrightarrow> cnt s p < k \<Longrightarrow> race_step k d s (s\<lparr>reg := (reg s)(p \<mapsto> x s)\<rparr>)"
| store: "p < 2 \<Longrightarrow> reg s p = Some r \<Longrightarrow>
    race_step k d s (s\<lparr>x := r + d, reg := (reg s)(p := None), cnt := (cnt s)(p := cnt s p + 1)\<rparr>)"

text \<open>Both threads have been joined.\<close>

definition joined :: "nat \<Rightarrow> race_state \<Rightarrow> bool" where
  "joined k s \<longleftrightarrow> (\<forall>p < 2. cnt s p = k \<and> reg s p = None)"

subsection \<open>Invariant\<close>

text \<open>\<open>v\<close> is at least \<open>m\<close> and at most \<open>n\<close> additions of \<open>d\<close>.\<close>

definition adds :: "size_t \<Rightarrow> size_t \<Rightarrow> nat \<Rightarrow> nat \<Rightarrow> bool" where
  "adds d v m n \<longleftrightarrow> (\<exists>u. m \<le> u \<and> u \<le> n \<and> v = of_nat u * d)"

lemma adds_0: "adds d 0 0 n"
  unfolding adds_def by (intro exI[of _ 0]) simp

lemma adds_Suc: "adds d v m n \<Longrightarrow> adds d (v + d) (Suc m) (Suc n)"
proof -
  assume "adds d v m n"
  then obtain u where "m \<le> u" "u \<le> n" "v = of_nat u * d" by (auto simp: adds_def)
  then show ?thesis unfolding adds_def by (intro exI[of _ "Suc u"]) (simp add: algebra_simps)
qed

lemma adds_mono: "adds d v m n \<Longrightarrow> m' \<le> m \<Longrightarrow> n \<le> n' \<Longrightarrow> adds d v m' n'"
proof -
  assume "adds d v m n" and le: "m' \<le> m" "n \<le> n'"
  then obtain u where "m \<le> u" "u \<le> n" "v = of_nat u * d" by (auto simp: adds_def)
  then show "adds d v m' n'" using le unfolding adds_def by (intro exI[of _ u]) auto
qed

text \<open>
  With \<open>n\<close> iterations finished in all, \<open>x\<close> and what a thread has loaded are at most \<open>n\<close> additions; \<open>x\<close> is at
  least one once there is a finished iteration, so is what a thread loads after its first; and \<open>x\<close> is at
  least two unless some thread is still at its first iteration or just past it.
\<close>

definition race_inv :: "nat \<Rightarrow> size_t \<Rightarrow> race_state \<Rightarrow> bool" where
  "race_inv k d s \<longleftrightarrow>
     (\<forall>p < 2. cnt s p \<le> k \<and> (reg s p \<noteq> None \<longrightarrow> cnt s p < k)) \<and>
     (\<forall>p < 2. \<forall>r. reg s p = Some r \<longrightarrow> adds d r (min 1 (cnt s p)) (cnt s 0 + cnt s 1)) \<and>
     adds d (x s) (if 1 < cnt s 0 \<and> 1 < cnt s 1 then 2 else min 1 (cnt s 0 + cnt s 1)) (cnt s 0 + cnt s 1)"

lemma less_2: "p < 2 \<longleftrightarrow> p = 0 \<or> p = 1" for p :: nat by auto

lemma race_invD:
  assumes "race_inv k d s"
  shows "p < 2 \<Longrightarrow> cnt s p \<le> k" and "p < 2 \<Longrightarrow> reg s p = Some r \<Longrightarrow> cnt s p < k"
    and "p < 2 \<Longrightarrow> reg s p = Some r \<Longrightarrow> adds d r (min 1 (cnt s p)) (cnt s 0 + cnt s 1)"
    and "adds d (x s) (if 1 < cnt s 0 \<and> 1 < cnt s 1 then 2 else min 1 (cnt s 0 + cnt s 1)) (cnt s 0 + cnt s 1)"
  using assms unfolding race_inv_def by blast+

lemma race_inv_load:
  assumes "race_inv k d s" and "p < 2" and "cnt s p < k"
  shows "race_inv k d (s\<lparr>reg := (reg s)(p \<mapsto> x s)\<rparr>)"
proof -
  have "adds d (x s) (min 1 (cnt s p)) (cnt s 0 + cnt s 1)"
    by (rule adds_mono[OF race_invD(4)[OF assms(1)]]) (use assms(2) in \<open>auto simp: less_2\<close>)
  then show ?thesis using assms unfolding race_inv_def by auto
qed

lemma race_inv_store:
  assumes inv: "race_inv k d s" and "p < 2" and "reg s p = Some r"
  shows "race_inv k d (s\<lparr>x := r + d, reg := (reg s)(p := None), cnt := (cnt s)(p := cnt s p + 1)\<rparr>)"
    (is "race_inv k d ?t")
proof -
  let ?n = "cnt s 0 + cnt s 1"
  have simps: "x ?t = r + d" by simp
  have n: "cnt ?t 0 + cnt ?t 1 = Suc ?n" using assms(2) by (auto simp: less_2)
  have "adds d r (min 1 (cnt s p)) ?n" by (rule race_invD(3)[OF assms])
  then have r: "adds d (r + d) (Suc (min 1 (cnt s p))) (Suc ?n)" by (rule adds_Suc)
  have "\<forall>q < 2. cnt ?t q \<le> k \<and> (reg ?t q \<noteq> None \<longrightarrow> cnt ?t q < k)"
  proof (intro allI impI)
    fix q :: nat assume "q < 2"
    note q = race_invD(1,2)[OF inv this]
    show "cnt ?t q \<le> k \<and> (reg ?t q \<noteq> None \<longrightarrow> cnt ?t q < k)"
      using q race_invD(2)[OF inv assms(2,3)] by auto
  qed
  moreover have "\<forall>q < 2. \<forall>r. reg ?t q = Some r \<longrightarrow> adds d r (min 1 (cnt ?t q)) (cnt ?t 0 + cnt ?t 1)"
  proof (intro allI impI)
    fix q r assume q: "q < (2 :: nat)" "reg ?t q = Some r"
    then have "q \<noteq> p" and "reg s q = Some r" by (auto split: if_splits)
    moreover from this q(1) have "adds d r (min 1 (cnt s q)) ?n" using race_invD(3)[OF inv] by blast
    ultimately show "adds d r (min 1 (cnt ?t q)) (cnt ?t 0 + cnt ?t 1)"
      unfolding n using adds_mono by fastforce
  qed
  moreover have "adds d (x ?t) (if 1 < cnt ?t 0 \<and> 1 < cnt ?t 1 then 2 else min 1 (cnt ?t 0 + cnt ?t 1))
      (cnt ?t 0 + cnt ?t 1)"
    unfolding n by (simp only: simps, rule adds_mono[OF r]) (use assms(2) in \<open>auto simp: less_2\<close>)
  ultimately show ?thesis unfolding race_inv_def by blast
qed

interpretation race: transition_system race_init "race_step k d" "race_inv k d" for k d
proof
  show "race_inv k d s" if "race_init s" for s
    using that adds_0 by (simp add: race_init_def race_inv_def)
  show "race_inv k d t" if "race_inv k d s" "race_step k d s t" for s t
    using that(2)
  proof cases
    case (load p)
    then show ?thesis using race_inv_load[OF that(1)] by simp
  next
    case (store p r)
    show ?thesis unfolding store(1) by (rule race_inv_store[OF that(1) store(2,3)])
  qed
qed

lemma race_bounds:
  assumes "reachable race_init (race_step k d) s" and "joined k s" and "2 \<le> k"
  shows "adds d (x s) 2 (2 * k)"
  using race_invD(4)[OF race.inv_reachable[OF assms(1)]] assms(2,3) by (simp add: joined_def mult_2)

subsection \<open>The extreme schedules\<close>

text \<open>A thread that runs alone for \<open>j\<close> iterations.\<close>

lemma solo:
  assumes "p < 2" and "reg s p = None" and "cnt s p + j \<le> k"
  shows "(race_step k d)\<^sup>*\<^sup>* s (s\<lparr>x := x s + of_nat j * d, cnt := (cnt s)(p := cnt s p + j)\<rparr>)"
  using assms(3)
proof (induction j)
  case (Suc j)
  let ?s = "s\<lparr>x := x s + of_nat j * d, cnt := (cnt s)(p := cnt s p + j)\<rparr>"
  let ?l = "?s\<lparr>reg := (reg ?s)(p \<mapsto> x ?s)\<rparr>"
  let ?t = "?l\<lparr>x := x ?s + d, reg := (reg ?l)(p := None), cnt := (cnt ?l)(p := cnt ?l p + 1)\<rparr>"
  have "race_step k d ?s ?l" using assms(1,2) Suc.prems by (intro load) auto
  moreover have "race_step k d ?l ?t" using assms(1) by (intro store) auto
  moreover have "?t = s\<lparr>x := x s + of_nat (Suc j) * d, cnt := (cnt s)(p := cnt s p + Suc j)\<rparr>"
    using assms(2) by (auto simp: fun_eq_iff algebra_simps)
  ultimately show ?case using Suc.IH Suc.prems by (metis (no_types, lifting) Suc_leD add_Suc_right rtranclp.rtrancl_into_rtrancl)
qed simp

definition race_at :: "size_t \<Rightarrow> size_t option \<Rightarrow> size_t option \<Rightarrow> nat \<Rightarrow> nat \<Rightarrow> race_state" where
  "race_at v r0 r1 c0 c1 = \<lparr>x = v, reg = (\<lambda>_. None)(0 := r0, 1 := r1), cnt = (\<lambda>_. 0)(0 := c0, 1 := c1)\<rparr>"

lemma race_init_at: "race_init (race_at 0 None None 0 0)"
  by (simp add: race_init_def race_at_def fun_upd_idem)

lemma race_at_step:
  "c0 < k \<Longrightarrow> race_step k d (race_at v None r1 c0 c1) (race_at v (Some v) r1 c0 c1)"
  "c1 < k \<Longrightarrow> race_step k d (race_at v r0 None c0 c1) (race_at v r0 (Some v) c0 c1)"
  "race_step k d (race_at v (Some r) r1 c0 c1) (race_at (r + d) None r1 (c0 + 1) c1)"
  "race_step k d (race_at v r0 (Some r) c0 c1) (race_at (r + d) r0 None c0 (c1 + 1))"
proof -
  show "c0 < k \<Longrightarrow> race_step k d (race_at v None r1 c0 c1) (race_at v (Some v) r1 c0 c1)"
    using load[of 0 "race_at v None r1 c0 c1" k d] by (simp add: race_at_def fun_upd_twist)
  show "c1 < k \<Longrightarrow> race_step k d (race_at v r0 None c0 c1) (race_at v r0 (Some v) c0 c1)"
    using load[of 1 "race_at v r0 None c0 c1" k d] by (simp add: race_at_def)
  show "race_step k d (race_at v (Some r) r1 c0 c1) (race_at (r + d) None r1 (c0 + 1) c1)"
    using store[of 0 "race_at v (Some r) r1 c0 c1" r k d] by (simp add: race_at_def fun_upd_twist)
  show "race_step k d (race_at v r0 (Some r) c0 c1) (race_at (r + d) r0 None c0 (c1 + 1))"
    using store[of 1 "race_at v r0 (Some r) c0 c1" r k d] by (simp add: race_at_def)
qed

lemma race_at_solo:
  "c0 + j \<le> k \<Longrightarrow> (race_step k d)\<^sup>*\<^sup>* (race_at v None r1 c0 c1) (race_at (v + of_nat j * d) None r1 (c0 + j) c1)"
  "c1 + j \<le> k \<Longrightarrow> (race_step k d)\<^sup>*\<^sup>* (race_at v r0 None c0 c1) (race_at (v + of_nat j * d) r0 None c0 (c1 + j))"
proof -
  show "c0 + j \<le> k \<Longrightarrow> (race_step k d)\<^sup>*\<^sup>* (race_at v None r1 c0 c1) (race_at (v + of_nat j * d) None r1 (c0 + j) c1)"
    using solo[of 0 "race_at v None r1 c0 c1" j k d] by (simp add: race_at_def fun_upd_twist)
  show "c1 + j \<le> k \<Longrightarrow> (race_step k d)\<^sup>*\<^sup>* (race_at v r0 None c0 c1) (race_at (v + of_nat j * d) r0 None c0 (c1 + j))"
    using solo[of 1 "race_at v r0 None c0 c1" j k d] by (simp add: race_at_def)
qed

lemma joined_at: "joined k (race_at v None None k k)"
  by (auto simp: joined_def race_at_def less_2)

lemma race_worst:
  assumes "1 \<le> k"
  shows "reachable race_init (race_step k d) (race_at (d + d) None None k k)"
proof -
  let ?R = "reachable race_init (race_step k d)"
  have "?R (race_at 0 None None 0 0)" by (rule reach_init[of race_init, OF race_init_at])
  then have "?R (race_at 0 (Some 0) None 0 0)"
    by (rule reach_step) (use race_at_step(1)[of 0 k] assms in simp)
  then have "?R (race_at (0 + of_nat (k - 1) * d) (Some 0) None 0 (0 + (k - 1)))"
    by (rule reachable_steps) (rule race_at_solo(2), simp)
  then have "?R (race_at (0 + d) None None (0 + 1) (0 + (k - 1)))"
    by (rule reach_step) (rule race_at_step(3))
  then have "?R (race_at (0 + d) None (Some (0 + d)) (0 + 1) (0 + (k - 1)))"
    by (rule reach_step) (rule race_at_step(2), use assms in simp)
  then have "?R (race_at (0 + d + of_nat (k - 1) * d) None (Some (0 + d)) (0 + 1 + (k - 1)) (0 + (k - 1)))"
    by (rule reachable_steps) (rule race_at_solo(1), use assms in simp)
  then have "?R (race_at (0 + d + d) None None (0 + 1 + (k - 1)) (0 + (k - 1) + 1))"
    by (rule reach_step) (rule race_at_step(4))
  then show ?thesis using assms by simp
qed

lemma race_best: "reachable race_init (race_step k d) (race_at (of_nat k * d + of_nat k * d) None None k k)"
proof -
  have "(race_step k d)\<^sup>*\<^sup>* (race_at 0 None None 0 0) (race_at (0 + of_nat k * d) None None (0 + k) 0)"
    by (rule race_at_solo(1)) simp
  moreover have "(race_step k d)\<^sup>*\<^sup>* (race_at (0 + of_nat k * d) None None (0 + k) 0)
      (race_at (0 + of_nat k * d + of_nat k * d) None None (0 + k) (0 + k))"
    by (rule race_at_solo(2)) simp
  ultimately show ?thesis
    using reachable_steps[OF reach_init[of race_init, OF race_init_at], of "race_step k d"] by (auto dest: rtranclp_trans)
qed

subsection \<open>Properties\<close>

text \<open>
  C30. The unsynchronised counter, its increment being a load and a store: after both joins the final value lies between 2 and 2000000000, and both ends are
  reached by some schedule, so all but two of the two billion increments can be lost.
\<close>
theorem race_range:
  "(\<forall>s. reachable race_init (race_step ITERATIONS 1) s \<and> joined ITERATIONS s \<longrightarrow>
      2 \<le> unat (x s) \<and> unat (x s) \<le> 2 * ITERATIONS) \<and>
   (\<exists>s. reachable race_init (race_step ITERATIONS 1) s \<and> joined ITERATIONS s \<and> unat (x s) = 2) \<and>
   (\<exists>s. reachable race_init (race_step ITERATIONS 1) s \<and> joined ITERATIONS s \<and> unat (x s) = 2 * ITERATIONS)"
proof (intro conjI allI impI; (elim conjE)?)
  fix s assume "reachable race_init (race_step ITERATIONS 1) s" "joined ITERATIONS s"
  then have "adds 1 (x s) 2 (2 * ITERATIONS)" by (rule race_bounds) (simp add: ITERATIONS_def)
  then obtain u where u: "2 \<le> u" "u \<le> 2 * ITERATIONS" "x s = of_nat u" by (auto simp: adds_def)
  then have "unat (x s) = u" using unat_of_nat_fits[of u, where 'a = 64] by (simp add: ITERATIONS_def)
  then show "2 \<le> unat (x s)" "unat (x s) \<le> 2 * ITERATIONS" using u(1,2) by simp_all
next
  have "reachable race_init (race_step ITERATIONS 1) (race_at (1 + 1) None None ITERATIONS ITERATIONS)"
    by (rule race_worst) (simp add: ITERATIONS_def)
  then show "\<exists>s. reachable race_init (race_step ITERATIONS 1) s \<and> joined ITERATIONS s \<and> unat (x s) = 2"
    using joined_at by (intro exI conjI) (assumption, assumption, simp add: race_at_def)
next
  have "of_nat ITERATIONS * 1 + of_nat ITERATIONS * 1 = (of_nat (2 * ITERATIONS) :: size_t)" by simp
  then show "\<exists>s. reachable race_init (race_step ITERATIONS 1) s \<and> joined ITERATIONS s \<and> unat (x s) = 2 * ITERATIONS"
    using race_best[of ITERATIONS 1] joined_at[of ITERATIONS] unat_of_nat_fits[of "2 * ITERATIONS", where 'a = 64]
    by (intro exI conjI) (assumption, assumption, simp add: race_at_def ITERATIONS_def)
qed

theorem race_range_witness:
  "\<exists>s. reachable race_init (race_step ITERATIONS 1) s \<and> joined ITERATIONS s \<and> unat (x s) = 2 \<and> unat (x s) \<le> 2 * ITERATIONS"
  using race_range by blast

end
