(* ===== verification/ThreadLocal.thy ===== *)
theory ThreadLocal
  imports Race
begin

text \<open>
  \<open>src/pthread/thread_local/main.c\<close>: each thread counts in its own copy of \<open>tmp\<close> and adds the result to the
  shared \<open>x\<close> at the end, without synchronisation; \<open>main\<close> changes \<open>cpu_id\<close> while the first thread may be reading
  it.  Seen through the loads and stores of \<open>x\<close>, the program is the race of one iteration each.
\<close>

datatype tls_pc = NotStarted | PrintTmp | ReadCpu | CountLoop | LoadX | StoreX size_t | ThreadEnded
datatype tls_main = SetTmp | PrintMain | Create1 | ChangeCpu | Create2 | Join | MainEnded

record tls_state =
  tmp :: "nat \<Rightarrow> size_t"            \<comment> \<open>one copy per thread; \<open>main\<close> is thread 2\<close>
  shared_x :: size_t
  cpu_id :: nat
  affinity :: "nat \<Rightarrow> nat option"
  threads :: "nat \<Rightarrow> tls_pc"
  main_at :: tls_main
  shown :: "(nat \<times> size_t) list"   \<comment> \<open>the numbers printed, with the thread that prints them\<close>

definition tls_init :: "tls_state \<Rightarrow> bool" where
  "tls_init s \<longleftrightarrow> s = \<lparr>tmp = (\<lambda>_. 0), shared_x = 0, cpu_id = 0, affinity = (\<lambda>_. None),
     threads = (\<lambda>_. NotStarted), main_at = SetTmp, shown = []\<rparr>"

definition mutate :: "size_t \<Rightarrow> size_t" where
  "mutate v = v + 1"

definition count_loop :: "size_t \<Rightarrow> size_t" where
  "count_loop v = (mutate ^^ ITERATIONS) v"

inductive tls_step :: "tls_state \<Rightarrow> tls_state \<Rightarrow> bool" where
  set_tmp: "main_at s = SetTmp \<Longrightarrow> tls_step s (s\<lparr>tmp := (tmp s)(2 := 16), main_at := PrintMain\<rparr>)"
| print_main: "main_at s = PrintMain \<Longrightarrow> tls_step s (s\<lparr>shown := shown s @ [(2, tmp s 2)], main_at := Create1\<rparr>)"
| create1: "main_at s = Create1 \<Longrightarrow> tls_step s (s\<lparr>threads := (threads s)(0 := PrintTmp), main_at := ChangeCpu\<rparr>)"
| change_cpu: "main_at s = ChangeCpu \<Longrightarrow> tls_step s (s\<lparr>cpu_id := cpu_id s + 1, main_at := Create2\<rparr>)"
| create2: "main_at s = Create2 \<Longrightarrow> tls_step s (s\<lparr>threads := (threads s)(1 := PrintTmp), main_at := Join\<rparr>)"
| join: "main_at s = Join \<Longrightarrow> threads s 0 = ThreadEnded \<Longrightarrow> threads s 1 = ThreadEnded \<Longrightarrow>
    tls_step s (s\<lparr>shown := shown s @ [(2, shared_x s)], main_at := MainEnded\<rparr>)"
| print_tmp: "p < 2 \<Longrightarrow> threads s p = PrintTmp \<Longrightarrow>
    tls_step s (s\<lparr>shown := shown s @ [(p, tmp s p)], threads := (threads s)(p := ReadCpu)\<rparr>)"
| read_cpu: "p < 2 \<Longrightarrow> threads s p = ReadCpu \<Longrightarrow>
    tls_step s (s\<lparr>affinity := (affinity s)(p \<mapsto> cpu_id s), threads := (threads s)(p := CountLoop)\<rparr>)"
| count: "p < 2 \<Longrightarrow> threads s p = CountLoop \<Longrightarrow>
    tls_step s (s\<lparr>tmp := (tmp s)(p := count_loop 0), threads := (threads s)(p := LoadX)\<rparr>)"
| load_x: "p < 2 \<Longrightarrow> threads s p = LoadX \<Longrightarrow> tls_step s (s\<lparr>threads := (threads s)(p := StoreX (shared_x s))\<rparr>)"
| store_x: "p < 2 \<Longrightarrow> threads s p = StoreX v \<Longrightarrow>
    tls_step s (s\<lparr>shared_x := v + tmp s p, threads := (threads s)(p := ThreadEnded)\<rparr>)"

lemma mutate_pow: "(mutate ^^ n) v = v + of_nat n"
  by (induction n) (simp_all add: mutate_def)

lemma count_loop_0: "count_loop 0 = of_nat ITERATIONS"
  by (simp add: count_loop_def mutate_pow)

subsection \<open>Refinement of the race\<close>

fun held :: "tls_pc \<Rightarrow> size_t option" where
  "held (StoreX v) = Some v"
| "held _ = None"

definition as_race :: "tls_state \<Rightarrow> race_state" where
  "as_race s = \<lparr>x = shared_x s,
     reg = (\<lambda>p. held (threads s p)), cnt = (\<lambda>p. if threads s p = ThreadEnded then 1 else 0)\<rparr>"

definition counted :: "tls_pc \<Rightarrow> bool" where
  "counted c \<longleftrightarrow> c = LoadX \<or> c = ThreadEnded \<or> (\<exists>v. c = StoreX v)"

text \<open>The threads' copies of \<open>tmp\<close>.\<close>

definition tmp_inv :: "tls_state \<Rightarrow> bool" where
  "tmp_inv s \<longleftrightarrow> (\<forall>p < 2. tmp s p = (if counted (threads s p) then of_nat ITERATIONS else 0)) \<and>
     (main_at s \<noteq> SetTmp \<longrightarrow> tmp s 2 = 16)"

text \<open>How far \<open>main\<close> has come, and what that means for the threads and \<open>cpu_id\<close>.\<close>

fun created :: "tls_main \<Rightarrow> nat" where
  "created SetTmp = 0" | "created PrintMain = 0" | "created Create1 = 0"
| "created ChangeCpu = 1" | "created Create2 = 1" | "created Join = 2" | "created MainEnded = 2"

definition main_inv :: "tls_state \<Rightarrow> bool" where
  "main_inv s \<longleftrightarrow> (created (main_at s) = 0 \<longrightarrow> threads s 0 = NotStarted) \<and>
     (created (main_at s) < 2 \<longrightarrow> threads s 1 = NotStarted) \<and>
     cpu_id s \<le> 1 \<and> (2 \<le> created (main_at s) \<or> main_at s = Create2 \<longleftrightarrow> cpu_id s = 1) \<and>
     (\<forall>c. affinity s 0 = Some c \<longrightarrow> c \<le> 1) \<and> (\<forall>c. affinity s 1 = Some c \<longrightarrow> c = 1)"

definition shown_inv :: "tls_state \<Rightarrow> bool" where
  "shown_inv s \<longleftrightarrow> (\<forall>(p, v) \<in> set (shown s). p < 2 \<longrightarrow> v = 0)"

definition final_inv :: "tls_state \<Rightarrow> bool" where
  "final_inv s \<longleftrightarrow> (main_at s = MainEnded \<longrightarrow> threads s 0 = ThreadEnded \<and> threads s 1 = ThreadEnded \<and>
     shown s \<noteq> [] \<and> last (shown s) = (2, shared_x s))"

definition tls_inv :: "tls_state \<Rightarrow> bool" where
  "tls_inv s \<longleftrightarrow> tmp_inv s \<and> main_inv s \<and> shown_inv s \<and> final_inv s \<and>
     reachable race_init (race_step 1 (of_nat ITERATIONS)) (as_race s)"

lemma tmp_inv_step: "tmp_inv s \<Longrightarrow> main_inv s \<Longrightarrow> tls_step s t \<Longrightarrow> tmp_inv t"
  by (erule tls_step.cases) (simp_all add: tmp_inv_def main_inv_def counted_def count_loop_0)

lemma main_inv_step: "main_inv s \<Longrightarrow> tls_step s t \<Longrightarrow> main_inv t"
  by (erule tls_step.cases) (auto simp: main_inv_def less_2)

lemma shown_inv_step: "shown_inv s \<Longrightarrow> tmp_inv s \<Longrightarrow> tls_step s t \<Longrightarrow> shown_inv t"
  by (erule tls_step.cases) (auto simp: shown_inv_def tmp_inv_def counted_def)

lemma final_inv_step: "final_inv s \<Longrightarrow> tls_step s t \<Longrightarrow> final_inv t"
  by (erule tls_step.cases) (auto simp: final_inv_def less_2)

text \<open>A step is a load or a store of the race, or does not touch \<open>x\<close>.\<close>

lemma as_race_other:
  assumes "shared_x t = shared_x s" and "\<forall>p. held (threads t p) = held (threads s p)"
    and "\<forall>p. threads t p = ThreadEnded \<longleftrightarrow> threads s p = ThreadEnded"
  shows "as_race t = as_race s"
  using assms unfolding as_race_def by simp

lemma tls_race_step:
  assumes "tmp_inv s" and "main_inv s" and "tls_step s t"
  shows "as_race t = as_race s \<or> race_step 1 (of_nat ITERATIONS) (as_race s) (as_race t)"
  using assms(3)
proof cases
  case (load_x p)
  have "race_step 1 (of_nat ITERATIONS) (as_race s) (as_race s\<lparr>reg := (reg (as_race s))(p \<mapsto> x (as_race s))\<rparr>)"
    using load_x by (intro load) (simp_all add: as_race_def)
  moreover have "as_race s\<lparr>reg := (reg (as_race s))(p \<mapsto> x (as_race s))\<rparr> = as_race t"
    unfolding load_x(1) using load_x(3) by (auto simp: as_race_def fun_eq_iff)
  ultimately show ?thesis by simp
next
  case (store_x p v)
  let ?t = "as_race s\<lparr>x := v + of_nat ITERATIONS, reg := (reg (as_race s))(p := None),
      cnt := (cnt (as_race s))(p := cnt (as_race s) p + 1)\<rparr>"
  have "race_step 1 (of_nat ITERATIONS) (as_race s) ?t"
    using store_x by (intro store) (simp_all add: as_race_def)
  moreover have "tmp s p = of_nat ITERATIONS" using assms(1) store_x by (simp add: tmp_inv_def counted_def)
  then have "?t = as_race t"
    unfolding store_x(1) using store_x(3) by (auto simp: as_race_def fun_eq_iff)
  ultimately show ?thesis by simp
qed (intro disjI1 as_race_other; use assms(2) in \<open>auto simp: main_inv_def\<close>)+

interpretation tls: transition_system tls_init tls_step tls_inv
proof
  fix s assume "tls_init s"
  then have s: "s = \<lparr>tmp = (\<lambda>_. 0), shared_x = 0, cpu_id = 0, affinity = (\<lambda>_. None),
     threads = (\<lambda>_. NotStarted), main_at = SetTmp, shown = []\<rparr>" by (simp add: tls_init_def)
  have "race_init (as_race s)" by (simp add: s as_race_def race_init_def)
  then show "tls_inv s"
    using reach_init[of race_init "as_race s"]
    by (simp add: tls_inv_def s tmp_inv_def main_inv_def shown_inv_def final_inv_def counted_def)
next
  fix s t assume inv: "tls_inv s" and step: "tls_step s t"
  have "reachable race_init (race_step 1 (of_nat ITERATIONS)) (as_race t)"
    using tls_race_step[of s t] inv step reach_step[of race_init "race_step 1 (of_nat ITERATIONS)" "as_race s"]
    by (auto simp: tls_inv_def)
  then show "tls_inv t"
    using inv step by (auto simp: tls_inv_def intro: tmp_inv_step main_inv_step shown_inv_step final_inv_step)
qed

text \<open>
  The result: each thread starts from its own 0, whatever \<open>main\<close> stored in \<open>tmp\<close>; the second runs on
  CPU 1, the first on CPU 0 or 1; and the sum printed is 1000000000 or 2000000000, one
  thread's whole contribution being lost in the first case.
\<close>

lemma tls_final:
  assumes "reachable tls_init tls_step s" and "main_at s = MainEnded"
  shows "last (shown s) = (2, shared_x s) \<and> unat (shared_x s) \<in> {ITERATIONS, 2 * ITERATIONS} \<and>
    (\<forall>(p, v) \<in> set (shown s). p < 2 \<longrightarrow> v = 0) \<and> (\<forall>c. affinity s 1 = Some c \<longrightarrow> c = 1)"
proof -
  have inv: "tls_inv s" using assms(1) by (rule tls.inv_reachable)
  then have ended: "threads s 0 = ThreadEnded" "threads s 1 = ThreadEnded" "last (shown s) = (2, shared_x s)"
    using assms(2) by (simp_all add: tls_inv_def final_inv_def)
  have "race_inv 1 (of_nat ITERATIONS) (as_race s)"
    using inv race.inv_reachable by (simp add: tls_inv_def)
  from race_invD(4)[OF this] have "adds (of_nat ITERATIONS) (shared_x s) 1 2"
    using ended by (simp add: as_race_def numeral_2_eq_2)
  then obtain u :: nat where u: "1 \<le> u" "u \<le> 2" "shared_x s = of_nat u * of_nat ITERATIONS" by (auto simp: adds_def)
  then have "shared_x s = of_nat (u * ITERATIONS)" and "u = 1 \<or> u = 2" by auto
  then have "unat (shared_x s) \<in> {ITERATIONS, 2 * ITERATIONS}"
    using unat_of_nat_fits[of "u * ITERATIONS", where 'a = 64] by (auto simp: ITERATIONS_def)
  then show ?thesis using inv ended by (simp add: tls_inv_def shown_inv_def main_inv_def)
qed

end
