(* ===== verification/Locking.thy ===== *)
theory Locking
  imports Transition
begin

text \<open>
  \<open>src/pthread/race-mutex/main.c\<close>: the counter guarded by a spin lock, and the \<open>Container\<close>, a resource handed
  from thread to thread under a mutex and a condition variable.  A thread spinning or waiting for a
  mutex is one whose step is not enabled.
\<close>

subsection \<open>The guarded counter\<close>

datatype guard_pc = SpinLock | Iterate nat | AddBack nat size_t | SpinUnlock | ThreadDone

record guard_state =
  gx :: size_t
  locked :: bool
  gpc :: "nat \<Rightarrow> guard_pc"

definition GUARDED_ITERATIONS :: nat where "GUARDED_ITERATIONS = 10000000"

definition guard_init :: "guard_state \<Rightarrow> bool" where
  "guard_init s \<longleftrightarrow> s = \<lparr>gx = 0, locked = False, gpc = (\<lambda>_. SpinLock)\<rparr>"

inductive guard_step :: "nat \<Rightarrow> guard_state \<Rightarrow> guard_state \<Rightarrow> bool" for k where
  spin_lock: "p < 2 \<Longrightarrow> gpc s p = SpinLock \<Longrightarrow> \<not> locked s \<Longrightarrow>
    guard_step k s (s\<lparr>locked := True, gpc := (gpc s)(p := Iterate 0)\<rparr>)"
| mutate_load: "p < 2 \<Longrightarrow> gpc s p = Iterate i \<Longrightarrow> i < k \<Longrightarrow>
    guard_step k s (s\<lparr>gpc := (gpc s)(p := AddBack i (gx s))\<rparr>)"
| mutate_store: "p < 2 \<Longrightarrow> gpc s p = AddBack i r \<Longrightarrow>
    guard_step k s (s\<lparr>gx := r + 1, gpc := (gpc s)(p := Iterate (i + 1))\<rparr>)"
| loop_ends: "p < 2 \<Longrightarrow> gpc s p = Iterate i \<Longrightarrow> \<not> i < k \<Longrightarrow>
    guard_step k s (s\<lparr>gpc := (gpc s)(p := SpinUnlock)\<rparr>)"
| spin_unlock: "p < 2 \<Longrightarrow> gpc s p = SpinUnlock \<Longrightarrow>
    guard_step k s (s\<lparr>locked := False, gpc := (gpc s)(p := ThreadDone)\<rparr>)"

text \<open>Iterations that a thread has finished, and whether it is inside the critical section.\<close>

fun iterations :: "nat \<Rightarrow> guard_pc \<Rightarrow> nat" where
  "iterations k SpinLock = 0"
| "iterations k (Iterate i) = i"
| "iterations k (AddBack i r) = i"
| "iterations k SpinUnlock = k"
| "iterations k ThreadDone = k"

fun inside :: "guard_pc \<Rightarrow> bool" where
  "inside SpinLock = False"
| "inside ThreadDone = False"
| "inside _ = True"

definition guard_inv :: "nat \<Rightarrow> guard_state \<Rightarrow> bool" where
  "guard_inv k s \<longleftrightarrow>
     gx s = of_nat (iterations k (gpc s 0) + iterations k (gpc s 1)) \<and>
     (locked s \<longleftrightarrow> inside (gpc s 0) \<or> inside (gpc s 1)) \<and> \<not> (inside (gpc s 0) \<and> inside (gpc s 1)) \<and>
     (\<forall>p i r. p < 2 \<longrightarrow> gpc s p = AddBack i r \<longrightarrow> r = gx s \<and> i < k) \<and> (\<forall>p i. p < 2 \<longrightarrow> gpc s p = Iterate i \<longrightarrow> i \<le> k)"

lemma below_2: "p < 2 \<longleftrightarrow> p = 0 \<or> p = 1" for p :: nat by auto

lemma guard_inv_step: "guard_inv k s \<Longrightarrow> guard_step k s t \<Longrightarrow> guard_inv k t"
  by (erule guard_step.cases) (auto simp: guard_inv_def below_2 all_conj_distrib)

fun remaining :: "nat \<Rightarrow> guard_pc \<Rightarrow> nat" where
  "remaining k SpinLock = 2 * k + 3"
| "remaining k (Iterate i) = 2 * (k - i) + 2"
| "remaining k (AddBack i r) = 2 * (k - i) + 1"
| "remaining k SpinUnlock = 1"
| "remaining k ThreadDone = 0"

definition guard_mu :: "nat \<Rightarrow> guard_state \<Rightarrow> nat" where
  "guard_mu k s = remaining k (gpc s 0) + remaining k (gpc s 1)"

lemma guard_mu_step: "guard_inv k s \<Longrightarrow> guard_step k s t \<Longrightarrow> guard_mu k t < guard_mu k s"
proof (erule guard_step.cases, goal_cases)
  case (3 p s' i r)
  then have "i < k" unfolding guard_inv_def by blast
  with 3 show ?case by (auto simp: guard_mu_def below_2)
qed (auto simp: guard_mu_def below_2)

interpretation guarded: terminating_system guard_init "guard_step k" "guard_inv k" "guard_mu k" for k
proof
  show "guard_inv k s" if "guard_init s" for s using that by (simp add: guard_init_def guard_inv_def)
qed (fact guard_inv_step guard_mu_step)+

lemma guard_stuck:
  assumes "guard_inv k s" and "stuck (guard_step k) s"
  shows "gpc s 0 = ThreadDone \<and> gpc s 1 = ThreadDone"
proof -
  have moves: "gpc s p = ThreadDone \<or> gpc s p = SpinLock \<and> locked s" if "p < 2" for p
  proof (cases "gpc s p")
    case (Iterate i)
    then show ?thesis using that assms(2) mutate_load[of p s i k] loop_ends[of p s i k] by (auto simp: stuck_def)
  qed (use that assms(2) in \<open>auto simp: stuck_def dest: guard_step.intros\<close>)
  have "\<not> inside (gpc s p)" if "p < 2" for p using moves[OF that] by auto
  then have "\<not> locked s" using assms(1) by (simp add: guard_inv_def)
  then show ?thesis using moves[of 0] moves[of 1] by simp
qed

text \<open>
  C21. The guarded counter: the two threads are never both between \<open>pthread_spin_lock\<close> and
  \<open>pthread_spin_unlock\<close>; from every reachable state every execution is finite; and one that
  cannot go on has both threads returned and \<open>x\<close> = 20000000, no increment lost.
\<close>
theorem guarded_counter_exact:
  assumes "reachable guard_init (guard_step GUARDED_ITERATIONS) s"
  shows "\<not> (inside (gpc s 0) \<and> inside (gpc s 1)) \<and>
    (\<forall>m t. (guard_step GUARDED_ITERATIONS ^^ m) s t \<longrightarrow> m \<le> guard_mu GUARDED_ITERATIONS s) \<and>
    (stuck (guard_step GUARDED_ITERATIONS) s \<longrightarrow>
       gpc s 0 = ThreadDone \<and> gpc s 1 = ThreadDone \<and> unat (gx s) = 2 * GUARDED_ITERATIONS)"
proof (intro conjI impI allI)
  have inv: "guard_inv GUARDED_ITERATIONS s" by (rule guarded.inv_reachable[OF assms])
  then show "\<not> (inside (gpc s 0) \<and> inside (gpc s 1))" by (simp add: guard_inv_def)
  show "m \<le> guard_mu GUARDED_ITERATIONS s" if "(guard_step GUARDED_ITERATIONS ^^ m) s t" for m t
    using guarded.run_length_bound[OF that inv] by simp
  assume stuck: "stuck (guard_step GUARDED_ITERATIONS) s"
  then show ended: "gpc s 0 = ThreadDone" "gpc s 1 = ThreadDone" using guard_stuck[OF inv] by simp_all
  then have "gx s = of_nat (2 * GUARDED_ITERATIONS)" using inv by (simp add: guard_inv_def)
  then show "unat (gx s) = 2 * GUARDED_ITERATIONS"
    using unat_of_nat_fits[of "2 * GUARDED_ITERATIONS", where 'a = 64] by (simp add: GUARDED_ITERATIONS_def)
qed

theorem guarded_counter_exact_witness:
  "\<exists>s. reachable guard_init (guard_step GUARDED_ITERATIONS) s \<and> unat (gx s) = 2 * GUARDED_ITERATIONS"
proof -
  let ?s = "\<lparr>gx = 0, locked = False, gpc = (\<lambda>_. SpinLock)\<rparr>"
  have i: "guard_init ?s" by (simp add: guard_init_def)
  then have "guard_inv GUARDED_ITERATIONS ?s" by (rule guarded.inv_init)
  then obtain t where t: "(guard_step GUARDED_ITERATIONS)\<^sup>*\<^sup>* ?s t" "stuck (guard_step GUARDED_ITERATIONS) t"
    using guarded.reaches_stuck by blast
  then have "reachable guard_init (guard_step GUARDED_ITERATIONS) t"
    using reachable_steps[OF reach_init[of guard_init, OF i]] by blast
  then show ?thesis using guarded_counter_exact[of t] t(2) by blast
qed

subsection \<open>The container\<close>

datatype cont_pc =
    Outside      \<comment> \<open>neither holds the resource nor asks for it\<close>
  | AcqLock | AcqTest | CondWait | Relock | AcqUnlock
  | Using
  | RelLock | RelSet | RelSignal | RelUnlock

record cont_state =
  mutex :: "nat option"     \<comment> \<open>its owner\<close>
  existing :: bool          \<comment> \<open>the field \<open>exists\<close>\<close>
  conpc :: "nat \<Rightarrow> cont_pc"

text \<open>
  Any number of threads, each releasing only what it has acquired; at first the resource is there.
\<close>

definition cont_init :: "cont_state \<Rightarrow> bool" where
  "cont_init s \<longleftrightarrow> s = \<lparr>mutex = None, existing = True, conpc = (\<lambda>_. Outside)\<rparr>"

inductive cont_step :: "cont_state \<Rightarrow> cont_state \<Rightarrow> bool" where
  acquire: "conpc s p = Outside \<Longrightarrow> cont_step s (s\<lparr>conpc := (conpc s)(p := AcqLock)\<rparr>)"
| acquire_lock: "conpc s p = AcqLock \<Longrightarrow> mutex s = None \<Longrightarrow>
    cont_step s (s\<lparr>mutex := Some p, conpc := (conpc s)(p := AcqTest)\<rparr>)"
| wait: "conpc s p = AcqTest \<Longrightarrow> \<not> existing s \<Longrightarrow>
    cont_step s (s\<lparr>mutex := None, conpc := (conpc s)(p := CondWait)\<rparr>)"
| spurious_wakeup: "conpc s p = CondWait \<Longrightarrow> cont_step s (s\<lparr>conpc := (conpc s)(p := Relock)\<rparr>)"
| relock: "conpc s p = Relock \<Longrightarrow> mutex s = None \<Longrightarrow>
    cont_step s (s\<lparr>mutex := Some p, conpc := (conpc s)(p := AcqTest)\<rparr>)"
| take: "conpc s p = AcqTest \<Longrightarrow> existing s \<Longrightarrow>
    cont_step s (s\<lparr>existing := False, conpc := (conpc s)(p := AcqUnlock)\<rparr>)"
| acquire_unlock: "conpc s p = AcqUnlock \<Longrightarrow> cont_step s (s\<lparr>mutex := None, conpc := (conpc s)(p := Using)\<rparr>)"
| release: "conpc s p = Using \<Longrightarrow> cont_step s (s\<lparr>conpc := (conpc s)(p := RelLock)\<rparr>)"
| release_lock: "conpc s p = RelLock \<Longrightarrow> mutex s = None \<Longrightarrow>
    cont_step s (s\<lparr>mutex := Some p, conpc := (conpc s)(p := RelSet)\<rparr>)"
| release_set: "conpc s p = RelSet \<Longrightarrow>
    cont_step s (s\<lparr>existing := True, conpc := (conpc s)(p := RelSignal)\<rparr>)"
| signal_one: "conpc s p = RelSignal \<Longrightarrow> conpc s q = CondWait \<Longrightarrow>
    cont_step s (s\<lparr>conpc := (conpc s)(q := Relock, p := RelUnlock)\<rparr>)"
| signal_none: "conpc s p = RelSignal \<Longrightarrow> \<forall>q. conpc s q \<noteq> CondWait \<Longrightarrow>
    cont_step s (s\<lparr>conpc := (conpc s)(p := RelUnlock)\<rparr>)"
| release_unlock: "conpc s p = RelUnlock \<Longrightarrow> cont_step s (s\<lparr>mutex := None, conpc := (conpc s)(p := Outside)\<rparr>)"

fun owns_mutex :: "cont_pc \<Rightarrow> bool" where
  "owns_mutex AcqTest = True"
| "owns_mutex AcqUnlock = True"
| "owns_mutex RelSet = True"
| "owns_mutex RelSignal = True"
| "owns_mutex RelUnlock = True"
| "owns_mutex _ = False"

fun has_resource :: "cont_pc \<Rightarrow> bool" where
  "has_resource AcqUnlock = True"
| "has_resource Using = True"
| "has_resource RelLock = True"
| "has_resource RelSet = True"
| "has_resource _ = False"

text \<open>A thread that will test \<open>exists\<close> without being woken first, or wake another.\<close>

fun looking :: "cont_pc \<Rightarrow> bool" where
  "looking AcqLock = True"
| "looking AcqTest = True"
| "looking Relock = True"
| "looking RelSignal = True"
| "looking _ = False"

definition mutex_inv :: "cont_state \<Rightarrow> bool" where
  "mutex_inv s \<longleftrightarrow> (\<forall>p. mutex s = Some p \<longleftrightarrow> owns_mutex (conpc s p))"

definition resource_inv :: "cont_state \<Rightarrow> bool" where
  "resource_inv s \<longleftrightarrow> (if existing s then \<forall>p. \<not> has_resource (conpc s p)
     else \<exists>h. \<forall>p. has_resource (conpc s p) \<longleftrightarrow> p = h)"

definition wakeup_inv :: "cont_state \<Rightarrow> bool" where
  "wakeup_inv s \<longleftrightarrow> existing s \<longrightarrow> (\<exists>p. conpc s p = CondWait) \<longrightarrow> (\<exists>q. looking (conpc s q))"

lemma resource_frame:
  "resource_inv s \<Longrightarrow> existing t = existing s \<Longrightarrow> \<forall>p. has_resource (conpc t p) = has_resource (conpc s p) \<Longrightarrow>
     resource_inv t"
  by (simp add: resource_inv_def)

lemma wakeup_looking: "looking (conpc t q) \<Longrightarrow> wakeup_inv t"
  by (auto simp: wakeup_inv_def)

lemma wakeup_frame:
  assumes "wakeup_inv s" and "existing t = existing s" and "\<forall>p. conpc t p = CondWait \<longrightarrow> conpc s p = CondWait"
    and "\<forall>p. looking (conpc s p) \<longrightarrow> looking (conpc t p)"
  shows "wakeup_inv t"
  using assms unfolding wakeup_inv_def by metis

lemma mutex_owner: "mutex_inv s \<Longrightarrow> conpc s p = c \<Longrightarrow> owns_mutex c \<Longrightarrow> mutex s = Some p"
  by (simp add: mutex_inv_def)

lemma mutex_not_owner: "mutex_inv s \<Longrightarrow> conpc s p = c \<Longrightarrow> \<not> owns_mutex c \<Longrightarrow> mutex s \<noteq> Some p"
  by (simp add: mutex_inv_def)

lemma mutex_inv_step:
  assumes inv: "mutex_inv s" and "cont_step s t"
  shows "mutex_inv t"
proof -
  have owns: "owns_mutex (conpc s q) \<longleftrightarrow> mutex s = Some q" for q using inv by (simp add: mutex_inv_def)
  show ?thesis using assms(2)
    by cases (auto simp: mutex_inv_def owns dest: mutex_owner[OF inv] mutex_not_owner[OF inv])
qed

lemma resource_inv_step:
  assumes "resource_inv s" and "cont_step s t"
  shows "resource_inv t"
  using assms(2)
proof cases
  case (take p)
  then have "\<forall>q. has_resource (conpc t q) \<longleftrightarrow> q = p" using assms(1) by (simp add: resource_inv_def)
  then show ?thesis using take(1) unfolding resource_inv_def by auto
next
  case (release_set p)
  then have hp: "has_resource (conpc s p)" by simp
  then have "\<not> existing s" using assms(1) by (auto simp: resource_inv_def)
  then obtain h where h: "\<forall>q. has_resource (conpc s q) \<longleftrightarrow> q = h" using assms(1) by (auto simp: resource_inv_def)
  then have "h = p" using hp by simp
  then have "\<not> has_resource (conpc t q)" for q using h release_set(1) by simp
  then show ?thesis using release_set(1) by (simp add: resource_inv_def)
qed (rule resource_frame[OF assms(1)]; simp)+

lemma wakeup_inv_step:
  assumes "wakeup_inv s" and "cont_step s t"
  shows "wakeup_inv t"
  using assms(2)
proof cases
  case (wait p)
  then show ?thesis by (simp add: wakeup_inv_def)
next
  case (take p)
  then show ?thesis by (simp add: wakeup_inv_def)
next
  case (signal_one p q)
  then have "looking (conpc t q)" by auto
  then show ?thesis by (rule wakeup_looking)
next
  case (signal_none p)
  then show ?thesis by (simp add: wakeup_inv_def)
next
  case (acquire p)
  then show ?thesis by (intro wakeup_looking[of _ p]) simp
next
  case (acquire_lock p)
  then show ?thesis by (intro wakeup_looking[of _ p]) simp
next
  case (relock p)
  then show ?thesis by (intro wakeup_looking[of _ p]) simp
next
  case (spurious_wakeup p)
  then show ?thesis by (intro wakeup_looking[of _ p]) simp
next
  case (release_set p)
  then show ?thesis by (intro wakeup_looking[of _ p]) simp
qed (rule wakeup_frame[OF assms(1)]; auto)+

definition cont_inv :: "cont_state \<Rightarrow> bool" where
  "cont_inv s \<longleftrightarrow> mutex_inv s \<and> resource_inv s \<and> wakeup_inv s"

interpretation container: transition_system cont_init cont_step cont_inv
proof
  show "cont_inv s" if "cont_init s" for s
    using that by (simp add: cont_init_def cont_inv_def mutex_inv_def resource_inv_def wakeup_inv_def)
  show "cont_inv t" if "cont_inv s" "cont_step s t" for s t
    using that by (auto simp: cont_inv_def intro: mutex_inv_step resource_inv_step wakeup_inv_step)
qed

text \<open>
  C19. The container hands its resource to one thread at a time: two threads never have it at once, it is never free and
  held, never neither, and no wake-up is lost: while it is free and some thread waits for it, another thread is
  about to test \<open>exists\<close> or to signal.
\<close>
theorem container_exclusive:
  assumes "reachable cont_init cont_step s"
  shows "(\<forall>p q. has_resource (conpc s p) \<and> has_resource (conpc s q) \<longrightarrow> p = q) \<and>
    (existing s \<longleftrightarrow> (\<forall>p. \<not> has_resource (conpc s p))) \<and>
    (existing s \<and> (\<exists>p. conpc s p = CondWait) \<longrightarrow> (\<exists>q. looking (conpc s q)))"
proof -
  have inv: "resource_inv s" "wakeup_inv s"
    using container.inv_reachable[OF assms] by (simp_all add: cont_inv_def)
  then show ?thesis
    by (cases "existing s") (auto simp: resource_inv_def wakeup_inv_def)
qed

theorem container_exclusive_witness:
  "\<exists>s. reachable cont_init cont_step s \<and> has_resource (conpc s 7) \<and> \<not> existing s"
proof -
  let ?f = "\<lambda>c. (\<lambda>_. Outside)(7 := c)"
  let ?s0 = "\<lparr>mutex = None, existing = True, conpc = (\<lambda>_. Outside)\<rparr>"
  let ?s1 = "\<lparr>mutex = None, existing = True, conpc = ?f AcqLock\<rparr>"
  let ?s2 = "\<lparr>mutex = Some 7, existing = True, conpc = ?f AcqTest\<rparr>"
  let ?s3 = "\<lparr>mutex = Some 7, existing = False, conpc = ?f AcqUnlock\<rparr>"
  let ?R = "reachable cont_init cont_step"
  have "?R ?s0" by (rule reach_init[of cont_init]) (simp add: cont_init_def)
  then have "?R ?s1" by (rule reach_step) (use acquire[of ?s0 7] in simp)
  then have "?R ?s2" by (rule reach_step) (use acquire_lock[of ?s1 7] in simp)
  then have r: "?R ?s3" by (rule reach_step) (use take[of ?s2 7] in simp)
  have "has_resource (conpc ?s3 7)" by simp
  moreover from this have "\<not> existing ?s3" using container_exclusive[OF r] by blast
  ultimately show ?thesis using r by blast
qed

end
