(* ===== verification/AtomicList.thy ===== *)
theory AtomicList
  imports Transition
begin

text \<open>
  \<open>src/atomic/list/main.c\<close>: \<open>atomic_push\<close> by compare-and-exchange, with any number of threads pushing at the same time,
  thread \<open>p\<close> the node \<open>p\<close>.  Each access to shared memory is a step; the exchange is weak, so
  it may fail although the values agree.
\<close>

datatype push_pc =
    LoadHead
  | LinkNode "nat option"     \<comment> \<open>\<open>current_next\<close> has been loaded\<close>
  | Exchange "nat option"
  | Pushed

record list_state =
  head_next :: "nat option"
  node_next :: "nat \<Rightarrow> nat option"
  push_at :: "nat \<Rightarrow> push_pc"

definition list_init :: "list_state \<Rightarrow> bool" where
  "list_init s \<longleftrightarrow> head_next s = None \<and> (\<forall>p. push_at s p = LoadHead)"

inductive push_step :: "list_state \<Rightarrow> list_state \<Rightarrow> bool" where
  load_head: "push_at s p = LoadHead \<Longrightarrow> push_step s (s\<lparr>push_at := (push_at s)(p := LinkNode (head_next s))\<rparr>)"
| link_node: "push_at s p = LinkNode c \<Longrightarrow>
    push_step s (s\<lparr>node_next := (node_next s)(p := c), push_at := (push_at s)(p := Exchange c)\<rparr>)"
| exchanged: "push_at s p = Exchange c \<Longrightarrow> head_next s = c \<Longrightarrow>
    push_step s (s\<lparr>head_next := Some p, push_at := (push_at s)(p := Pushed)\<rparr>)"
| exchange_failed: "push_at s p = Exchange c \<Longrightarrow> push_step s (s\<lparr>push_at := (push_at s)(p := LoadHead)\<rparr>)"

inductive_cases push_stepE: "push_step s t"

text \<open>The nodes met from a pointer on.\<close>

fun chain :: "(nat \<Rightarrow> nat option) \<Rightarrow> nat option \<Rightarrow> nat list \<Rightarrow> bool" where
  "chain nx a [] \<longleftrightarrow> a = None"
| "chain nx a (y # ys) \<longleftrightarrow> a = Some y \<and> chain nx (nx y) ys"

lemma chain_frame: "p \<notin> set xs \<Longrightarrow> chain (nx(p := c)) a xs \<longleftrightarrow> chain nx a xs"
  by (induction xs arbitrary: a) auto

lemma chain_unique: "chain nx a xs \<Longrightarrow> chain nx a ys \<Longrightarrow> xs = ys"
proof (induction xs arbitrary: a ys)
  case Nil
  then show ?case by (cases ys) auto
next
  case (Cons x xs)
  then show ?case by (cases ys) auto
qed

definition list_is :: "list_state \<Rightarrow> nat list \<Rightarrow> bool" where
  "list_is s xs \<longleftrightarrow> chain (node_next s) (head_next s) xs \<and> distinct xs \<and> (\<forall>p. p \<in> set xs \<longleftrightarrow> push_at s p = Pushed)"

definition linked :: "list_state \<Rightarrow> bool" where
  "linked s \<longleftrightarrow> (\<forall>p c. push_at s p = Exchange c \<longrightarrow> node_next s p = c)"

lemma list_is_step:
  assumes "list_is s xs" and "linked s" and "push_step s t"
  shows "list_is t xs \<or> (\<exists>p. push_at s p \<noteq> Pushed \<and> push_at t p = Pushed \<and> list_is t (p # xs))"
  using assms(3)
proof cases
  case (load_head p)
  then show ?thesis using assms(1) by (auto simp: list_is_def)
next
  case (link_node p c)
  then have "p \<notin> set xs" using assms(1) by (simp add: list_is_def)
  then show ?thesis using link_node assms(1) by (auto simp: list_is_def chain_frame)
next
  case (exchanged p c)
  then have "p \<notin> set xs" "node_next s p = c" using assms(1,2) by (simp_all add: list_is_def linked_def)
  then have "list_is t (p # xs)" using exchanged assms(1) by (auto simp: list_is_def)
  then show ?thesis using exchanged by auto
next
  case (exchange_failed p c)
  then show ?thesis using assms(1) by (auto simp: list_is_def)
qed

lemma linked_step: "linked s \<Longrightarrow> push_step s t \<Longrightarrow> linked t"
  by (erule push_stepE) (auto simp: linked_def)

interpretation pushes: transition_system list_init push_step "\<lambda>s. linked s \<and> (\<exists>xs. list_is s xs)"
proof
  fix s assume "list_init s"
  then show "linked s \<and> (\<exists>xs. list_is s xs)"
    by (auto simp: list_init_def linked_def list_is_def intro!: exI[of _ "[]"])
next
  fix s t assume "linked s \<and> (\<exists>xs. list_is s xs)" "push_step s t"
  then show "linked t \<and> (\<exists>xs. list_is t xs)" using linked_step list_is_step by blast
qed

subsection \<open>\<open>main\<close>\<close>

text \<open>One push, of the node \<open>y\<close>, on the empty list \<open>x\<close>; what is printed when it has returned.\<close>

definition node_y :: nat where "node_y = 1"

definition main_result :: "list_state \<Rightarrow> int" where
  "main_result s = (if head_next s = Some node_y then 1 else 0)"

lemma main_prints_one:
  assumes "reachable list_init push_step s" and "\<forall>p. push_at s p = Pushed \<longleftrightarrow> p = node_y"
  shows "main_result s = 1"
proof -
  obtain xs where xs: "list_is s xs" using pushes.inv_reachable[OF assms(1)] by blast
  then have "set xs = {node_y}" "distinct xs" using assms(2) by (auto simp: list_is_def)
  then have "xs = [node_y]" by (metis distinct_card length_0_conv length_Suc_conv card_1_singleton_iff One_nat_def list.set_intros(1) singletonD)
  then show ?thesis using xs by (simp add: list_is_def main_result_def)
qed

text \<open>
  C16. Concurrent pushes are linearizable: at any time the list from the head consists of exactly the nodes whose push has
  succeeded, each once, whatever the other threads are doing; and a step either leaves that
  list as it is or puts the node of a push that completes by this step in front of it.
\<close>
theorem push_linearizable:
  assumes "reachable list_init push_step s"
  shows "\<exists>xs. chain (node_next s) (head_next s) xs \<and> distinct xs \<and> (\<forall>p. p \<in> set xs \<longleftrightarrow> push_at s p = Pushed) \<and>
    (\<forall>t. push_step s t \<longrightarrow> chain (node_next t) (head_next t) xs \<or>
       (\<exists>p. push_at s p \<noteq> Pushed \<and> push_at t p = Pushed \<and> chain (node_next t) (head_next t) (p # xs)))"
proof -
  obtain xs where xs: "linked s" "list_is s xs" using pushes.inv_reachable[OF assms] by blast
  then show ?thesis using list_is_step[OF xs(2,1)] unfolding list_is_def by blast
qed

text \<open>The second push fails once, because the first came between its load and its exchange.\<close>

theorem push_linearizable_witness:
  "\<exists>s. reachable list_init push_step s \<and> push_at s 1 = Pushed \<and> push_at s 2 = LoadHead \<and>
     chain (node_next s) (head_next s) [1]"
proof -
  let ?R = "reachable list_init push_step"
  define at :: "nat option \<Rightarrow> push_pc \<Rightarrow> push_pc \<Rightarrow> list_state" where
    "at = (\<lambda>h a b. \<lparr>head_next = h, node_next = (\<lambda>_. None), push_at = (\<lambda>_. LoadHead)(1 := a, 2 := b)\<rparr>)"
  have simps: "push_at (at h a b) 1 = a" "push_at (at h a b) 2 = b" "head_next (at h a b) = h" for h a b
    by (simp_all add: at_def)
  have "?R (at None LoadHead LoadHead)"
    by (rule reach_init[of list_init]) (simp add: list_init_def at_def)
  then have "?R (at None LoadHead (LinkNode None))"
    by (rule reach_step) (use load_head[of "at None LoadHead LoadHead" 2] in \<open>simp add: at_def\<close>)
  then have "?R (at None (LinkNode None) (LinkNode None))"
    by (rule reach_step) (use load_head[of "at None LoadHead (LinkNode None)" 1] in \<open>simp add: at_def fun_upd_twist\<close>)
  then have "?R (at None (Exchange None) (LinkNode None))"
    by (rule reach_step) (use link_node[of "at None (LinkNode None) (LinkNode None)" 1 None] in \<open>simp add: at_def fun_upd_twist fun_upd_idem\<close>)
  then have "?R (at None (Exchange None) (Exchange None))"
    by (rule reach_step) (use link_node[of "at None (Exchange None) (LinkNode None)" 2 None] in \<open>simp add: at_def fun_upd_idem\<close>)
  then have "?R (at (Some 1) Pushed (Exchange None))"
    by (rule reach_step) (use exchanged[of "at None (Exchange None) (Exchange None)" 1 None] in \<open>simp add: at_def fun_upd_twist\<close>)
  then have r: "?R (at (Some 1) Pushed LoadHead)"
    by (rule reach_step) (use exchange_failed[of "at (Some 1) Pushed (Exchange None)" 2 None] in \<open>simp add: at_def\<close>)
  obtain xs where xs: "chain (node_next (at (Some 1) Pushed LoadHead)) (Some 1) xs"
    using push_linearizable[OF r] by (auto simp: simps)
  moreover have "chain (node_next (at (Some 1) Pushed LoadHead)) (Some 1) [1]" by (simp add: at_def)
  ultimately show ?thesis using r simps chain_unique by metis
qed

end
