(* ===== verification/FlexVector.thy ===== *)
theory FlexVector
  imports Memory
begin

text \<open>
  The vector of \<open>src/sample4/main.c\<close>, whose elements follow its header in the same block (a flexible
  array member).  The state is the header and the bytes behind it.  \<open>reserve\<close> passes to
  \<open>realloc\<close> the address of the caller's pointer variable instead of the pointer, which is no heap block.
\<close>

record flex =
  fsize :: size_t
  fcapacity :: size_t
  felement_size :: size_t
  fbytes :: "byte list"    \<comment> \<open>what lies behind the header\<close>

definition sizeof_header :: nat where "sizeof_header = 24"

text \<open>\<open>malloc\<close> of \<open>sizeof(vector_t) + element_size * capacity\<close> wrapped to 64 bits; its result is used unchecked.\<close>

definition make_flex :: "allocator \<Rightarrow> size_t \<Rightarrow> size_t \<Rightarrow> c_error + flex" where
  "make_flex alloc es cap = (case malloc alloc (unat (24 + es * cap :: size_t)) of
       Live b \<Rightarrow> if length b < sizeof_header then Inl OutOfBounds
         else Inr \<lparr>fsize = 0, fcapacity = cap, felement_size = es, fbytes = drop sizeof_header b\<rparr>
     | _ \<Rightarrow> Inl NullDeref)"

text \<open>
  \<open>vector\<close> in the body of \<open>reserve\<close> is the address of the caller's pointer, for the allocator an address
  without a live block, like that of a freed one.
\<close>

definition address_of_variable :: block where
  "address_of_variable = Freed"

text \<open>\<open>sizeof(*vector)\<close> is the size of a pointer.\<close>

definition flex_reserve :: "allocator \<Rightarrow> flex \<Rightarrow> size_t \<Rightarrow> c_error + flex \<times> int" where
  "flex_reserve alloc v cap =
     (let cap = (if cap < 1 then 1 else cap)
      in if cap \<le> fcapacity v then Inr (v, 0)
      else bindE (realloc alloc address_of_variable (unat (cap * felement_size v + 8))) (\<lambda>p. case p of
             Live b \<Rightarrow> Inr (v\<lparr>fcapacity := cap, fbytes := drop sizeof_header b\<rparr>, 0)
           | _ \<Rightarrow> Inr (v, -1)))"

definition flex_ith :: "flex \<Rightarrow> size_t \<Rightarrow> nat" where
  "flex_ith v i = unat (felement_size v * i)"

text \<open>The element is given by the bytes readable at its address.\<close>

definition flex_push_back :: "allocator \<Rightarrow> flex \<Rightarrow> byte list \<Rightarrow> c_error + flex" where
  "flex_push_back alloc v element =
     bindE (if fsize v = fcapacity v then flex_reserve alloc v (push_bit 1 (fcapacity v)) else Inr (v, 0)) (\<lambda>(v, _).
     bindE (mem_read element 0 (unat (felement_size v))) (\<lambda>xs.
     bindE (mem_write (fbytes v) (flex_ith v (fsize v)) xs) (\<lambda>b.
       Inr (v\<lparr>fbytes := b, fsize := fsize v + 1\<rparr>))))"

text \<open>
  \<open>main\<close>: the vector is laid over a local array of 1024 bytes, with elements of \<open>sizeof(char*)\<close> bytes, and
  is given the four bytes of \<open>"abc"\<close>.
\<close>

definition flex_main :: "allocator \<Rightarrow> byte list \<Rightarrow> c_error + flex" where
  "flex_main alloc m =
     (let v = \<lparr>fsize = 0, fcapacity = 16, felement_size = 8, fbytes = drop sizeof_header m\<rparr>
      in append_all (flex_push_back alloc) v (replicate 3 [97, 98, 99, 0]))"

text \<open>\<open>clear_vector\<close> frees the whole block; \<open>main\<close> does not call it on its array.\<close>

definition flex_clear :: "block \<Rightarrow> c_error + block" where
  "flex_clear vector = free vector"

subsection \<open>Invariant\<close>

definition flex_ok :: "size_t \<Rightarrow> size_t \<Rightarrow> flex \<Rightarrow> bool" where
  "flex_ok es cap v \<longleftrightarrow> felement_size v = es \<and> fcapacity v = cap \<and> fsize v \<le> cap \<and> 0 < es \<and>
     unat es * unat cap \<le> length (fbytes v) \<and> unat es * unat cap < 2 ^ 64"

definition flex_contents :: "flex \<Rightarrow> byte list" where
  "flex_contents v = take (unat (felement_size v) * unat (fsize v)) (fbytes v)"

lemma length_flex_contents:
  assumes "flex_ok es cap v"
  shows "length (flex_contents v) = unat es * unat (fsize v)"
proof -
  have "unat es * unat (fsize v) \<le> unat es * unat cap"
    by (rule mult_le_mono2) (use assms in \<open>simp add: flex_ok_def word_le_nat_alt\<close>)
  then have "unat es * unat (fsize v) \<le> length (fbytes v)" using assms unfolding flex_ok_def by linarith
  then show ?thesis using assms unfolding flex_contents_def flex_ok_def by (simp only: length_take min_absorb2)
qed

lemma flex_push_appends:
  assumes ok: "flex_ok es cap v" and xs: "length xs = unat es"
    and room: "length (flex_contents v) + length xs \<le> unat es * unat cap"
  shows "\<exists>v'. flex_push_back alloc v xs = Inr v' \<and> flex_ok es cap v' \<and> flex_contents v' = flex_contents v @ xs"
proof -
  let ?s = "unat (fsize v)" and ?e = "unat es"
  have es: "felement_size v = es" "0 < ?e" using ok by (simp_all add: flex_ok_def unat_gt_0 word_neq_0_conv)
  have "?e * Suc ?s \<le> ?e * unat cap" using room length_flex_contents[OF ok] xs by simp
  then have "Suc ?s \<le> unat cap" using es(2) by (simp only: mult_le_cancel1 simp_thms)
  then have lt: "?s < unat cap" by simp
  then have ne: "fsize v \<noteq> fcapacity v" using ok by (auto simp: flex_ok_def)
  have off: "flex_ith v (fsize v) = ?e * ?s"
  proof -
    have "?e * ?s \<le> ?e * unat cap" by (rule mult_le_mono2) (use lt in simp)
    then have "?e * ?s < 2 ^ 64" using ok unfolding flex_ok_def by linarith
    then have "?e * ?s < 2 ^ LENGTH(64)" by simp
    then show ?thesis using unat_mult_lem[of es "fsize v"] es(1) by (simp add: flex_ith_def)
  qed
  have fit: "?e * ?s + ?e \<le> length (fbytes v)"
    using \<open>?e * Suc ?s \<le> ?e * unat cap\<close> ok by (simp add: flex_ok_def add.commute)
  have suc: "unat (fsize v + 1) = Suc ?s"
    using lt unat_less_2p[of cap] by (simp add: unat_add_fits)
  let ?b = "take (?e * ?s) (fbytes v) @ xs @ drop (?e * ?s + length xs) (fbytes v)"
  let ?v = "v\<lparr>fbytes := ?b, fsize := fsize v + 1\<rparr>"
  have "flex_push_back alloc v xs = Inr ?v"
    using ne off fit xs by (simp add: flex_push_back_def es(1))
  moreover have "flex_ok es cap ?v"
    using ok suc lt fit xs by (simp add: flex_ok_def word_le_nat_alt)
  moreover have "take (?e * Suc ?s) ?b = take (?e * ?s) (fbytes v) @ xs"
    using fit xs by simp
  then have "flex_contents ?v = flex_contents v @ xs"
    by (simp only: flex_contents_def) (simp add: es(1) suc)
  ultimately show ?thesis by blast
qed

interpretation flexv: append_buffer "flex_push_back alloc" flex_contents "flex_ok es cap" "\<lambda>xs. length xs = unat es"
    "unat es * unat cap" "\<lambda>_. False" for alloc es cap
  by unfold_locales (use flex_push_appends in blast)+

lemma flex_push_full:
  assumes "flex_ok es cap v" and "fsize v = cap" and "unat cap < 2 ^ 63"
  shows "flex_push_back alloc v xs = Inl InvalidFree"
proof -
  have dbl: "unat (push_bit 1 cap) = 2 * unat cap"
    using assms(3) by (simp add: unat_word_ariths push_bit_eq_mult unat_mult_lem[of 2] del: push_bit_of_Suc_0)
  obtain c2 where c2: "push_bit 1 cap = c2" by blast
  have "\<not> (if c2 < 1 then 1 else c2) \<le> cap"
    using dbl unfolding c2 by (auto simp: word_le_nat_alt word_less_nat_alt)
  then have "flex_reserve alloc v c2 = Inl InvalidFree"
    using assms(1) by (simp add: flex_reserve_def address_of_variable_def realloc_def flex_ok_def Let_def)
  moreover have "fcapacity v = cap" using assms(1) by (simp add: flex_ok_def)
  ultimately show ?thesis unfolding flex_push_back_def by (simp only: assms(2) c2 if_True simp_thms bindE_Inl)
qed

lemma make_flex_ok:
  assumes "sized alloc" "alloc (24 + unat es * unat cap) \<noteq> None" and "0 < es" and "24 + unat es * unat cap \<le> 2 ^ 63"
  shows "\<exists>v. make_flex alloc es cap = Inr v \<and> flex_ok es cap v \<and> flex_contents v = [] \<and> fsize v = 0"
proof -
  have small: "unat es * unat cap < 2 ^ LENGTH(64)" using assms(4) by simp
  then have p: "unat (es * cap) = unat es * unat cap" using unat_mult_lem[of es cap] by blast
  have n: "unat (24 + es * cap) = 24 + unat es * unat cap"
    using assms(4) unat_add_fits[of 24 "es * cap"] by (simp add: p)
  obtain b where b: "malloc alloc (24 + unat es * unat cap) = Live b" "length b = 24 + unat es * unat cap"
    using malloc_sized[OF assms(1), of "24 + unat es * unat cap"] assms(2) by blast
  then show ?thesis using small assms(3) by (simp add: make_flex_def n sizeof_header_def flex_ok_def flex_contents_def)
qed

text \<open>
  A fresh vector, if \<open>malloc\<close> provides its block, takes as many elements as its capacity, in order and within its block, and the next
  \<open>push_back\<close> hands \<open>realloc\<close> a pointer that was never allocated: the vector cannot grow.
\<close>
theorem flex_capacity_only:
  assumes "sized alloc" "alloc (24 + unat es * unat cap) \<noteq> None" and "0 < es" and "24 + unat es * unat cap \<le> 2 ^ 63"
    and "\<forall>xs \<in> set xss. length xs = unat es" and "length xss = unat cap"
  shows "\<exists>v0 v. make_flex alloc es cap = Inr v0 \<and> append_all (flex_push_back alloc) v0 xss = Inr v \<and>
    flex_contents v = concat xss \<and> flex_push_back alloc v xs = Inl InvalidFree"
proof -
  obtain v0 where v0: "make_flex alloc es cap = Inr v0" "flex_ok es cap v0" "flex_contents v0 = []"
    using make_flex_ok[OF assms(1-4)] by blast
  have len: "length (concat xss) = unat es * unat cap"
  proof -
    have "length (concat xss) = length xss * unat es" using assms(5) by (induction xss) auto
    then show ?thesis using assms(6) by simp
  qed
  obtain v where v: "append_all (flex_push_back alloc) v0 xss = Inr v" "flex_ok es cap v" "flex_contents v = concat xss"
    using flexv.append_all_ok[OF v0(2) assms(5)] len v0(3) by auto
  have e: "0 < unat es" using assms(3) by (simp add: unat_gt_0 word_neq_0_conv)
  have "unat es * unat (fsize v) = unat es * unat cap"
    using length_flex_contents[OF v(2)] unfolding v(3) len by (rule sym)
  then have "unat (fsize v) = unat cap" using nat_mult_eq_cancel1[OF e] by blast
  then have full: "fsize v = cap" by (simp only: word_unat_eq_iff)
  have "1 * unat cap \<le> unat es * unat cap" by (rule mult_le_mono1) (use e in simp)
  then have "unat cap < 2 ^ 63" using assms(4) by linarith
  then show ?thesis using v0(1) v flex_push_full[OF v(2) full] by blast
qed

definition plenty :: allocator where
  "plenty n = Some (replicate n 0)"

theorem flex_capacity_only_witness:
  "\<exists>v0 v. make_flex plenty 4 2 = Inr v0 \<and> append_all (flex_push_back plenty) v0 [[1, 2, 3, 4], [5, 6, 7, 8]] = Inr v \<and>
    flex_contents v = [1, 2, 3, 4, 5, 6, 7, 8] \<and> flex_push_back plenty v [9, 9, 9, 9] = Inl InvalidFree"
proof -
  have "sized plenty" by (simp add: sized_def plenty_def)
  then show ?thesis
    using flex_capacity_only[of plenty 4 2 "[[1, 2, 3, 4], [5, 6, 7, 8]]" "[9, 9, 9, 9]"] by (simp add: plenty_def)
qed

text \<open>The program's own vector reads behind the string it stores.\<close>

lemma flex_main_overread: "flex_main alloc m = Inl OutOfBounds"
  by (simp add: flex_main_def flex_push_back_def mem_read_def numeral_3_eq_3)

end
