(* ===== verification/DynamicModules.thy ===== *)
theory DynamicModules
  imports Prelude
begin

text \<open>
  Loading shared objects: the reloading loop of \<open>src/dl_rt/main.c\<close> and the directory walk of
  \<open>src/dl/main.c\<close>.  The dynamic linker is as its manual page documents it: \<open>dlopen\<close> of a file that is loaded
  returns the same object and counts the reference, \<open>dlclose\<close> gives one reference back, and the object is unloaded
  with the last one.
\<close>

subsection \<open>The linker, for one path\<close>

text \<open>\<open>image\<close> is the version of the code that is loaded while \<open>refs\<close> is positive.\<close>

record linker =
  refs :: nat
  image :: nat

text \<open>The file: its modification time, and its version, None when it cannot be loaded.\<close>

type_synonym so_file = "int \<times> nat option"

definition dlopen :: "nat option \<Rightarrow> linker \<Rightarrow> linker option" where
  "dlopen v d = (if 0 < refs d then Some (d\<lparr>refs := refs d + 1\<rparr>)
     else (case v of None \<Rightarrow> None | Some v \<Rightarrow> Some \<lparr>refs = 1, image = v\<rparr>))"

definition dlclose :: "linker \<Rightarrow> linker" where
  "dlclose d = d\<lparr>refs := refs d - 1\<rparr>"

subsection \<open>\<open>dl_rt\<close>\<close>

record module =
  handle :: bool            \<comment> \<open>not NULL\<close>
  mod_time :: int
  run_version :: "nat option"  \<comment> \<open>the version whose \<open>run\<close> is called\<close>

definition init_module :: module where
  "init_module = \<lparr>handle = False, mod_time = 0, run_version = None\<rparr>"

definition close_module :: "module \<times> linker \<Rightarrow> module \<times> linker" where
  "close_module = (\<lambda>(m, d). if handle m then (m\<lparr>handle := False\<rparr>, dlclose d) else (m, d))"

text \<open>None: \<open>check_error\<close> ended the program.  \<open>has_run\<close>: the versions that define the symbol.\<close>

definition update_module :: "(nat \<Rightarrow> bool) \<Rightarrow> so_file \<Rightarrow> module \<times> linker \<Rightarrow> (module \<times> linker) option" where
  "update_module has_run = (\<lambda>(mtime, v) (m, d).
     let need_open = (\<not> handle m \<or> mtime \<noteq> mod_time m);
         (m, d) = (if need_open then close_module (m, d) else (m, d))
     in case dlopen v d of
          None \<Rightarrow> None
        | Some d \<Rightarrow> if \<not> has_run (image d) then None
            else Some (m\<lparr>handle := True, run_version := Some (image d), mod_time := mtime\<rparr>, d))"

text \<open>The rounds of \<open>main\<close>: the file as each round finds it, and the versions that were run.\<close>

fun dl_rounds :: "(nat \<Rightarrow> bool) \<Rightarrow> so_file list \<Rightarrow> module \<times> linker \<Rightarrow> (nat list \<times> module \<times> linker) option" where
  "dl_rounds has_run [] s = Some ([], s)"
| "dl_rounds has_run (f # fs) s = (case update_module has_run f s of
       None \<Rightarrow> None
     | Some (m, d) \<Rightarrow> (case dl_rounds has_run fs (m, d) of
           None \<Rightarrow> None
         | Some (vs, s') \<Rightarrow> Some (the (run_version m) # vs, s')))"

definition dl_rt_main :: "(nat \<Rightarrow> bool) \<Rightarrow> so_file list \<Rightarrow> nat list option" where
  "dl_rt_main has_run fs = map_option fst (dl_rounds has_run fs (init_module, \<lparr>refs = 0, image = 0\<rparr>))"

text \<open>A handle that is held once is reopened as meant; one that is held twice never again.\<close>

lemma update_reloads:
  assumes "handle m" and "refs d = 1" and "mtime \<noteq> mod_time m" and "has_run v"
  shows "update_module has_run (mtime, Some v) (m, d) =
    Some (m\<lparr>handle := True, run_version := Some v, mod_time := mtime\<rparr>, \<lparr>refs = 1, image = v\<rparr>)"
  using assms by (simp add: update_module_def close_module_def dlclose_def dlopen_def)

lemma update_counts:
  assumes "handle m" and "0 < refs d" and "has_run (image d)"
  shows "update_module has_run (mod_time m, v) (m, d) =
    Some (m\<lparr>run_version := Some (image d)\<rparr>, d\<lparr>refs := refs d + 1\<rparr>)"
  using assms by (simp add: update_module_def dlopen_def)

definition pinned :: "nat \<Rightarrow> module \<times> linker \<Rightarrow> bool" where
  "pinned v = (\<lambda>(m, d). handle m \<and> 2 \<le> refs d \<and> image d = v)"

lemma update_pinned:
  assumes "pinned v (m, d)" and "has_run v"
  shows "\<exists>m' d'. update_module has_run f (m, d) = Some (m', d') \<and> pinned v (m', d') \<and> run_version m' = Some v"
  using assms by (cases f) (auto simp: pinned_def update_module_def close_module_def dlclose_def dlopen_def Let_def)

lemma dl_rounds_pinned:
  "pinned v s \<Longrightarrow> has_run v \<Longrightarrow> \<exists>s'. dl_rounds has_run fs s = Some (replicate (length fs) v, s')"
proof (induction fs arbitrary: s)
  case (Cons f fs)
  obtain m d where s: "s = (m, d)" by fastforce
  obtain m' d' where u: "update_module has_run f s = Some (m', d')" "pinned v (m', d')" "run_version m' = Some v"
    using update_pinned[of v m d has_run f] Cons.prems s by blast
  then show ?case using Cons.IH[of "(m', d')"] Cons.prems(2) by auto
qed simp

text \<open>Rounds that each find a new modification time hold one reference, to the current version.\<close>

definition loadable :: "(int \<times> nat) list \<Rightarrow> so_file list" where
  "loadable gs = map (\<lambda>(t, v). (t, Some v)) gs"

definition held :: "int \<times> nat \<Rightarrow> module \<times> linker \<Rightarrow> bool" where
  "held = (\<lambda>(t, v) (m, d). handle m \<and> mod_time m = t \<and> refs d = 1 \<and> image d = v)"

lemma dl_rounds_append:
  "dl_rounds has_run (xs @ ys) s = (case dl_rounds has_run xs s of None \<Rightarrow> None
     | Some (vs, s') \<Rightarrow> map_option (\<lambda>(ws, u). (vs @ ws, u)) (dl_rounds has_run ys s'))"
proof (induction xs arbitrary: s)
  case (Cons f xs)
  then show ?case by (cases "update_module has_run f s") (auto split: option.splits)
qed (simp add: option.map_id)

lemma dl_rounds_changing:
  "held g s \<Longrightarrow> distinct_adj (map fst (g # gs)) \<Longrightarrow> \<forall>g \<in> set gs. has_run (snd g) \<Longrightarrow>
     \<exists>s'. dl_rounds has_run (loadable gs) s = Some (map snd gs, s') \<and> held (last (g # gs)) s'"
proof (induction gs arbitrary: g s)
  case (Cons g' gs)
  obtain t v t' v' m d where eqs: "g = (t, v)" "g' = (t', v')" "s = (m, d)" by (cases g, cases g', cases s) auto
  have "update_module has_run (t', Some v') (m, d) =
      Some (m\<lparr>handle := True, run_version := Some v', mod_time := t'\<rparr>, \<lparr>refs = 1, image = v'\<rparr>)"
    using Cons.prems eqs by (intro update_reloads) (auto simp: held_def)
  moreover have "held g' (m\<lparr>handle := True, run_version := Some v', mod_time := t'\<rparr>, \<lparr>refs = 1, image = v'\<rparr>)"
    by (simp add: held_def eqs)
  moreover have "distinct_adj (map fst (g' # gs))" using Cons.prems(2) by simp
  ultimately show ?case using Cons.IH[of g'] Cons.prems(3) eqs by (fastforce simp: loadable_def)
qed (simp add: loadable_def)

lemma dl_rounds_start:
  assumes "gs \<noteq> []" and "\<forall>g \<in> set gs. has_run (snd g)" and "distinct_adj (map fst gs)"
  shows "\<exists>s'. dl_rounds has_run (loadable gs) (init_module, \<lparr>refs = 0, image = 0\<rparr>) = Some (map snd gs, s') \<and> held (last gs) s'"
proof -
  obtain t v gs' where gs: "gs = (t, v) # gs'" using assms(1) by (cases gs) auto
  let ?s = "(\<lparr>handle = True, mod_time = t, run_version = Some v\<rparr>, \<lparr>refs = 1, image = v\<rparr>)"
  have one: "update_module has_run (t, Some v) (init_module, \<lparr>refs = 0, image = 0\<rparr>) = Some ?s"
    using assms(2) gs by (simp add: update_module_def init_module_def close_module_def dlopen_def)
  have "held (t, v) ?s" by (simp add: held_def)
  then obtain s' where "dl_rounds has_run (loadable gs') ?s = Some (map snd gs', s')" "held (last gs) s'"
    using dl_rounds_changing[of "(t, v)" ?s gs' has_run] assms(2,3) gs by auto
  then show ?thesis using one gs by (simp add: loadable_def)
qed

lemma dl_rounds_stale:
  assumes "held (t, v) s" and "has_run v"
  shows "\<exists>s'. dl_rounds has_run ((t, w) # fs) s = Some (replicate (Suc (length fs)) v, s')"
proof -
  obtain m d where s: "s = (m, d)" by fastforce
  have u: "update_module has_run (t, w) s = Some (m\<lparr>run_version := Some v\<rparr>, d\<lparr>refs := refs d + 1\<rparr>)"
    using assms update_counts[of m d has_run w] by (simp add: held_def s)
  have "pinned v (m\<lparr>run_version := Some v\<rparr>, d\<lparr>refs := refs d + 1\<rparr>)" using assms(1) by (simp add: pinned_def held_def s)
  then show ?thesis
    using dl_rounds_pinned[of v _ has_run fs] assms(2) u by fastforce
qed

text \<open>
  C38. Reloading, as long as every version loads and defines \<open>run\<close>: while each round finds another modification time
  than the one before, each round runs the file's current version.  But from the first round that finds it unchanged
  every round runs the version of then, however often the file is replaced later and whatever it holds, because
  \<open>update_module\<close> opens the module again without closing it.
\<close>
theorem stale_module:
  assumes "gs \<noteq> []" and "\<forall>g \<in> set gs. has_run (snd g)" and "distinct_adj (map fst gs)"
  shows "dl_rt_main has_run (loadable gs) = Some (map snd gs) \<and>
    dl_rt_main has_run (loadable gs @ (fst (last gs), w) # fs) =
      Some (map snd gs @ replicate (Suc (length fs)) (snd (last gs)))"
proof -
  obtain s where s: "dl_rounds has_run (loadable gs) (init_module, \<lparr>refs = 0, image = 0\<rparr>) = Some (map snd gs, s)" "held (last gs) s"
    using dl_rounds_start[OF assms] by blast
  have "has_run (snd (last gs))" using assms(1,2) by simp
  then obtain s' where "dl_rounds has_run ((fst (last gs), w) # fs) s = Some (replicate (Suc (length fs)) (snd (last gs)), s')"
    using dl_rounds_stale[of "fst (last gs)" "snd (last gs)" s has_run w fs] s(2) by auto
  then show ?thesis using s(1) by (simp only: dl_rt_main_def dl_rounds_append option.case prod.case option.map fst_conv)
qed

theorem stale_module_witness:
  "dl_rt_main (\<lambda>_. True) [(10, Some 1), (20, Some 2)] = Some [1, 2] \<and>
   dl_rt_main (\<lambda>_. True) [(10, Some 1), (20, Some 2), (20, Some 2), (30, Some 3), (40, None)] = Some [1, 2, 2, 2, 2]"
  using stale_module[of "[(10, 1), (20, 2)]" "\<lambda>_. True" "Some 2" "[(30, Some 3), (40, None)]"]
  by (simp add: loadable_def numeral_2_eq_2 numeral_3_eq_3)

subsection \<open>\<open>dl\<close>\<close>

definition PATH_MAX :: nat where "PATH_MAX = 4096"

text \<open>\<open>strcpy\<close> to an offset of a block.\<close>

definition strcpy_at :: "byte list \<Rightarrow> nat \<Rightarrow> byte list \<Rightarrow> c_error + byte list" where
  "strcpy_at dst off s = mem_write dst off (s @ [0])"

definition strlen :: "byte list \<Rightarrow> nat" where
  "strlen s = length (takeWhile (\<lambda>c. c \<noteq> 0) s)"

definition combine_path :: "byte list \<Rightarrow> byte list \<Rightarrow> byte list \<Rightarrow> c_error + byte list" where
  "combine_path a b dst =
     bindE (strcpy_at dst 0 a) (\<lambda>dst.
     bindE (if strlen dst = 0 then Inl OutOfBounds
            else if dst ! (strlen dst - 1) \<noteq> 47 then strcpy_at dst (strlen dst) [47] else Inr dst) (\<lambda>dst.
       strcpy_at dst (strlen dst) b))"

text \<open>The test for names that end in \<open>.so\<close>.\<close>

definition is_module_name :: "byte list \<Rightarrow> bool" where
  "is_module_name s \<longleftrightarrow> 3 < length s \<and> drop (length s - 3) s = [46, 115, 111]"

lemma strlen_prefix: "0 \<notin> set s \<Longrightarrow> strlen (s @ 0 # r) = length s"
  unfolding strlen_def by (subst takeWhile_append2) auto

lemma strcpy_append:
  assumes "0 \<notin> set s" and "length s + length t < length (s @ 0 # r)"
  shows "\<exists>r'. strcpy_at (s @ 0 # r) (strlen (s @ 0 # r)) t = Inr ((s @ t) @ 0 # r') \<and>
    length ((s @ t) @ 0 # r') = length (s @ 0 # r)"
proof -
  have "strcpy_at (s @ 0 # r) (length s) t = Inr ((s @ t) @ 0 # drop (length t) r)"
    using assms(2) by (simp add: strcpy_at_def mem_write_def)
  then show ?thesis using assms unfolding strlen_prefix[OF assms(1)] by (intro exI[of _ "drop (length t) r"]) simp
qed

text \<open>The two parts are joined by exactly one separator; the whole must fit \<open>PATH_MAX\<close>.\<close>

lemma combine_path_joins:
  assumes "0 \<notin> set a" and "0 \<notin> set b" and "a \<noteq> []" and "length dst = PATH_MAX"
    and "length a + length b + 1 < PATH_MAX"
  shows "\<exists>r. combine_path a b dst = Inr ((a @ (if last a = 47 then [] else [47]) @ b) @ 0 # r) \<and>
    length ((a @ (if last a = 47 then [] else [47]) @ b) @ 0 # r) = PATH_MAX"
proof -
  obtain r where r: "strcpy_at dst 0 a = Inr (a @ 0 # r)" "length (a @ 0 # r) = PATH_MAX"
    using assms(4,5) by (auto simp: strcpy_at_def mem_write_def)
  have idx: "(a @ 0 # r) ! (strlen (a @ 0 # r) - 1) = last a" and ne: "strlen (a @ 0 # r) \<noteq> 0"
    using assms(3) unfolding strlen_prefix[OF assms(1)] by (simp_all add: last_conv_nth nth_append)
  let ?s = "a @ (if last a = 47 then [] else [47])"
  have s0: "0 \<notin> set ?s" using assms(1) by simp
  obtain r1 where r1: "(if last a \<noteq> 47 then strcpy_at (a @ 0 # r) (strlen (a @ 0 # r)) [47] else Inr (a @ 0 # r)) =
      Inr (?s @ 0 # r1)" "length (?s @ 0 # r1) = PATH_MAX"
  proof (cases "last a = 47")
    case True
    then show ?thesis using that r(2) by simp
  next
    case False
    have "length a + length [47 :: byte] < length (a @ 0 # r)" unfolding r(2) using assms(5) by simp
    from strcpy_append[OF assms(1) this] obtain r' where
      "strcpy_at (a @ 0 # r) (strlen (a @ 0 # r)) [47] = Inr ((a @ [47]) @ 0 # r')"
      "length ((a @ [47]) @ 0 # r') = length (a @ 0 # r)" by blast
    then show ?thesis using that[of r'] False r(2) by simp
  qed
  have "length ?s + length b < length (?s @ 0 # r1)" unfolding r1(2) using assms(5) by simp
  from strcpy_append[OF s0 this] obtain r2 where
    "strcpy_at (?s @ 0 # r1) (strlen (?s @ 0 # r1)) b = Inr ((?s @ b) @ 0 # r2)"
    "length ((?s @ b) @ 0 # r2) = PATH_MAX" unfolding r1(2) by blast
  then show ?thesis using r(1) r1(1) ne idx unfolding combine_path_def by (intro exI[of _ r2]) auto
qed

lemma combine_path_empty: "0 < length dst \<Longrightarrow> combine_path [] b dst = Inl OutOfBounds"
  by (simp add: combine_path_def strcpy_at_def mem_write_def strlen_def)

text \<open>
  \<open>list_modules\<close>: the entries of the directory in order; \<open>opens\<close> tells of a path whether \<open>dlopen\<close> and \<open>dlsym\<close>
  succeed.  The result: the modules given to \<open>exec_module\<close>, and whether the walk came to its end (otherwise
  \<open>check_error\<close> called \<open>exit\<close>).
\<close>

fun list_modules :: "(byte list \<Rightarrow> bool) \<Rightarrow> byte list \<Rightarrow> byte list list \<Rightarrow> byte list \<Rightarrow> c_error + byte list list \<times> bool" where
  "list_modules opens dir [] buf = Inr ([], True)"
| "list_modules opens dir (name # names) buf =
     (if is_module_name name
      then bindE (combine_path dir name buf) (\<lambda>buf.
             let path = takeWhile (\<lambda>c. c \<noteq> 0) buf
             in if opens path
                then bindE (list_modules opens dir names buf) (\<lambda>(ms, e). Inr (path # ms, e))
                else Inr ([path], False))
      else list_modules opens dir names buf)"

lemma list_modules_all:
  assumes "0 \<notin> set dir" and "dir \<noteq> []" and "\<forall>name \<in> set names. 0 \<notin> set name \<and> length dir + length name + 1 < PATH_MAX"
    and "\<forall>path. opens path" and "length buf = PATH_MAX"
  shows "list_modules opens dir names buf =
    Inr (map (\<lambda>name. dir @ (if last dir = 47 then [] else [47]) @ name) (filter is_module_name names), True)"
  using assms(3,5)
proof (induction names arbitrary: buf)
  case (Cons name names)
  let ?p = "dir @ (if last dir = 47 then [] else [47]) @ name"
  obtain r where r: "combine_path dir name buf = Inr (?p @ 0 # r)" "length (?p @ 0 # r) = PATH_MAX"
    using combine_path_joins[OF assms(1) _ assms(2) Cons.prems(2), of name] Cons.prems(1) by auto
  have "takeWhile (\<lambda>c. c \<noteq> 0) (?p @ 0 # r) = ?p"
    using Cons.prems(1) assms(1) by (subst takeWhile_append2) (auto split: if_splits)
  then show ?case using Cons r assms(4) by simp
qed simp

subsection \<open>The modules themselves\<close>

text \<open>
  \<open>dl/modules/test.c\<close> and \<open>dl_rt/modules/test.c\<close>: \<open>_init\<close> runs when the object is loaded, \<open>_fini\<close> when it is unloaded.
\<close>

datatype module_line = Initialize | Finalize | Run | LoadError | ModuleName "byte list"

definition test_init :: "module_line list" where "test_init = [Initialize]"
definition test_fini :: "module_line list" where "test_fini = [Finalize]"
definition test_run :: "module_line list" where "test_run = [Run]"

definition square_run :: "int \<Rightarrow> c_error + int" where
  "square_run a = (let p = a * a in if p \<le> INT_MAX then Inr p else Inl SignedOverflow)"

text \<open>
  \<open>exec_module\<close> of a file that is not loaded: what it prints when \<open>dlopen\<close> and \<open>dlsym\<close> succeed, and whether the program
  goes on; after a \<open>dlopen\<close> that worked, \<open>exit\<close> runs the finalizer as well.
\<close>

definition exec_module :: "bool \<Rightarrow> bool \<Rightarrow> module_line list \<times> bool" where
  "exec_module loads has_run =
     (if \<not> loads then ([LoadError], False)
      else if \<not> has_run then (test_init @ [LoadError] @ test_fini, False)
      else (test_init @ test_run @ test_fini, True))"

text \<open>\<open>main\<close> of \<open>dl\<close>: the arguments, the directory, and what the modules print.\<close>

datatype dl_end = DlUsage | DlOpenError | DlDone "module_line list" bool

definition dl_main :: "byte list list \<Rightarrow> byte list list option \<Rightarrow> (byte list \<Rightarrow> bool) \<Rightarrow> (byte list \<Rightarrow> bool) \<Rightarrow> byte list \<Rightarrow>
    c_error + dl_end" where
  "dl_main args dir loads has_run buf =
     (if length args + 1 \<noteq> 2 then Inr DlUsage
      else case dir of
        None \<Rightarrow> Inr DlOpenError
      | Some names \<Rightarrow> bindE (list_modules (\<lambda>p. snd (exec_module (loads p) (has_run p))) (args ! 0) names buf) (\<lambda>(ms, e).
          Inr (DlDone (concat (map (\<lambda>p. ModuleName p # fst (exec_module (loads p) (has_run p))) ms)) e)))"

text \<open>A directory of working modules: each is initialized, run and finalized before the next.\<close>

lemma dl_main_runs:
  assumes "0 \<notin> set d" and "d \<noteq> []" and "\<forall>name \<in> set names. 0 \<notin> set name \<and> length d + length name + 1 < PATH_MAX"
    and "length buf = PATH_MAX"
  shows "dl_main [d] (Some names) (\<lambda>_. True) (\<lambda>_. True) buf =
    Inr (DlDone (concat (map (\<lambda>name. [ModuleName (d @ (if last d = 47 then [] else [47]) @ name), Initialize, Run, Finalize])
      (filter is_module_name names))) True)"
proof -
  have "list_modules (\<lambda>p. snd (exec_module True True)) d names buf =
      Inr (map (\<lambda>name. d @ (if last d = 47 then [] else [47]) @ name) (filter is_module_name names), True)"
    using assms by (intro list_modules_all) (simp_all add: exec_module_def)
  then show ?thesis by (simp add: dl_main_def exec_module_def test_init_def test_run_def test_fini_def o_def)
qed

text \<open>The rounds of \<open>dl_rt\<close> with the test module: squares, up to the largest whose square is an \<open>int\<close>.\<close>

lemma square_run_fits: "square_run a = Inr b \<longleftrightarrow> b = a * a \<and> \<bar>a\<bar> \<le> 46340"
proof -
  have "a * a \<le> INT_MAX \<longleftrightarrow> \<bar>a\<bar> \<le> 46340"
  proof
    assume "a * a \<le> INT_MAX"
    then have "\<bar>a\<bar> * \<bar>a\<bar> < 46341 * 46341" by (simp add: INT_MAX_def)
    then show "\<bar>a\<bar> \<le> 46340" using mult_mono[of 46341 "\<bar>a\<bar>" 46341 "\<bar>a\<bar>"] by linarith
  next
    assume "\<bar>a\<bar> \<le> 46340"
    then have "\<bar>a\<bar> * \<bar>a\<bar> \<le> 46340 * 46340" by (intro mult_mono) auto
    then show "a * a \<le> INT_MAX" by (simp add: INT_MAX_def)
  qed
  then show ?thesis by (auto simp: square_run_def Let_def)
qed

end
