(* ===== verification/EchoServer.thy ===== *)
theory EchoServer
  imports ByteStream
begin

text \<open>
  The connection of \<open>src/sockets/example/server.c\<close> and \<open>client.c\<close>: the child process that greets and echoes, and
  the client's loop.  \<open>recv\<close> and \<open>send\<close> are the calls of \<open>ByteStream\<close>.
\<close>

subsection \<open>The server's child\<close>

definition check_socket_result :: "int \<Rightarrow> errno \<Rightarrow> int" where
  "check_socket_result res err =
     (if res = -1 \<and> err \<noteq> EINTR then -1 else if res = 0 then -1 else 0)"

text \<open>What \<open>recv\<close> returns, \<open>errno\<close> (looked at only when that is -1), and the buffer.\<close>

definition recv_into :: "byte list \<Rightarrow> errno + byte list \<Rightarrow> int \<times> errno \<times> byte list" where
  "recv_into buf r = (case r of
       Inl e \<Rightarrow> (-1, e, buf)
     | Inr xs \<Rightarrow> (int (length xs), EINTR, xs @ drop (length xs) buf))"

text \<open>
  One round after another.  The length given to \<open>send\<close> is \<open>(size_t)recv_size\<close>: after an interrupted \<open>recv\<close>,
  which \<open>check_socket_result\<close> lets pass, that is \<open>2 ^ 64 - 1\<close> bytes of a buffer of 1024.  The second check looks at
  \<open>recv_size\<close> again, so the result of \<open>send\<close> is not used.
\<close>

function echo_loop :: "byte list \<Rightarrow> source \<Rightarrow> sink \<Rightarrow> c_error + source \<times> sink" where
  "echo_loop buf src snk =
     (case sys_read 1024 src of (r, src') \<Rightarrow>
        case recv_into buf r of (recv_size, err, buf') \<Rightarrow>
          if check_socket_result recv_size err = -1 then Inr (src', snk)
          else case mem_read buf' 0 (unat (word_of_int recv_size :: size_t)) of
            Inl e \<Rightarrow> Inl e
          | Inr xs \<Rightarrow> (case sys_write xs snk of (sent_size, snk') \<Rightarrow>
              if check_socket_result recv_size err = -1 then Inr (src', snk')
              else echo_loop buf' src' snk'))"
  by pat_completeness auto
termination
proof (relation "measure (\<lambda>(buf, src, snk). budget src)", goal_cases)
  case (2 buf src snk r src')
  then have rd: "sys_read 1024 src = (r, src')" and go: "check_socket_result (fst (recv_into buf r)) (fst (snd (recv_into buf r))) \<noteq> -1"
    by (metis fst_conv snd_conv)+
  have "budget src' < budget src"
  proof (cases r)
    case (Inl e)
    then show ?thesis using rd fd.get_error[of 1024 src e src'] by simp
  next
    case (Inr ys)
    then have "ys \<noteq> []" using go by (auto simp: check_socket_result_def recv_into_def)
    then show ?thesis using rd Inr fd.get_progress[of 1024 src ys src'] by simp
  qed
  then show ?case by simp
qed simp

declare echo_loop.simps [simp del]

definition greeting :: "byte list" where
  "greeting = map of_char (''HTTP/1.1 200 OK'' @ [CHR 0x0A] @ ''Server: Fake'' @ [CHR 0x0A] @
     ''Content-Language: ru'' @ [CHR 0x0A] @ ''Content-Type: text/html; charset=utf-8'' @ [CHR 0x0A, CHR 0x0A])"

text \<open>91 bytes of the string literal, with its NUL.  What \<open>buf\<close> holds at first does not matter.\<close>

definition serve :: "source \<Rightarrow> sink \<Rightarrow> c_error + source \<times> sink" where
  "serve src snk = bindE (mem_read (greeting @ [0]) 0 91) (\<lambda>g. echo_loop (replicate 1024 0) src (snd (sys_write g snk)))"

lemma greeting_91: "length greeting = 90"
  by (simp add: greeting_def)

lemma greeting_written: "mem_read (greeting @ [0]) 0 91 = Inr (greeting @ [0])"
  by (simp add: mem_read_def greeting_91)

lemma echo_eof: "sys_read 1024 src = (Inr [], src') \<Longrightarrow> echo_loop buf src snk = Inr (src', snk)"
  by (subst echo_loop.simps) (simp add: check_socket_result_def recv_into_def)

lemma echo_got:
  assumes r: "sys_read 1024 src = (Inr xs, src')" and "xs \<noteq> []" and "length buf = 1024"
  shows "echo_loop buf src snk = echo_loop (xs @ drop (length xs) buf) src' (snd (sys_write xs snk))"
    and "length (xs @ drop (length xs) buf) = 1024"
proof -
  have le: "length xs \<le> 1024" using fd.get_bytes[OF r] by simp
  then have "unat (word_of_int (int (length xs)) :: size_t) = length xs" by (simp add: unat_of_nat_fits)
  then show "echo_loop buf src snk = echo_loop (xs @ drop (length xs) buf) src' (snd (sys_write xs snk))"
    using assms(2) by (subst echo_loop.simps) (auto simp: r check_socket_result_def recv_into_def split: prod.splits)
  show "length (xs @ drop (length xs) buf) = 1024" using le assms(3) by simp
qed

lemma size_of_minus_one: "unat (- 1 :: size_t) = 2 ^ 64 - 1"
  by (simp add: unsigned_minus_1_eq_mask mask_eq_exp_minus_1)

lemma echo_interrupted:
  "sys_read 1024 src = (Inl EINTR, src') \<Longrightarrow> length buf = 1024 \<Longrightarrow> echo_loop buf src snk = Inl OutOfBounds"
  by (subst echo_loop.simps) (simp add: check_socket_result_def recv_into_def mem_read_def size_of_minus_one)

lemma echo_failed: "sys_read 1024 src = (Inl e, src') \<Longrightarrow> e \<noteq> EINTR \<Longrightarrow> echo_loop buf src snk = Inr (src', snk)"
  by (subst echo_loop.simps) (simp add: check_socket_result_def recv_into_def)

text \<open>Chunks as \<open>recv\<close> cuts them, until the end or the first error.\<close>

function received :: "source \<Rightarrow> byte list list \<times> errno option" where
  "received src = (case sys_read 1024 src of
       (Inl e, _) \<Rightarrow> ([], Some e)
     | (Inr xs, src') \<Rightarrow> if xs = [] then ([], None) else (let (xss, r) = received src' in (xs # xss, r)))"
  by pat_completeness auto
termination
  by (relation "measure budget") (auto dest!: fd.get_progress[OF sym])

declare received.simps [simp del]

text \<open>Sending chunk after chunk without looking at the results.\<close>

fun send_all :: "byte list list \<Rightarrow> sink \<Rightarrow> sink" where
  "send_all [] snk = snk"
| "send_all (xs # xss) snk = send_all xss (snd (sys_write xs snk))"

lemma echo_loop_received:
  "received src = (xss, r) \<Longrightarrow> length buf = 1024 \<Longrightarrow>
     (if r = Some EINTR then echo_loop buf src snk = Inl OutOfBounds
      else \<exists>src'. echo_loop buf src snk = Inr (src', send_all xss snk))"
proof (induction src arbitrary: xss snk r buf rule: received.induct)
  case (1 src)
  obtain q src' where q: "sys_read 1024 src = (q, src')" by fastforce
  consider e where "q = Inl e" | "q = Inr []" | xs where "q = Inr xs" "xs \<noteq> []"
    by (cases q) auto
  then show ?case
  proof cases
    case (1 e)
    then have "r = Some e" "xss = []" using q "1.prems"(1) by (subst (asm) received.simps, simp)+
    then show ?thesis using 1 q "1.prems"(2) echo_interrupted[of src src' buf] echo_failed[of src e src'] by auto
  next
    case 2
    then have "r = None" "xss = []" using q "1.prems"(1) by (subst (asm) received.simps, simp)+
    then show ?thesis using 2 q echo_eof[of src src'] by auto
  next
    case (3 xs)
    obtain yss r' where y: "received src' = (yss, r')" by fastforce
    have "received src = (xs # yss, r')" using q 3 y by (subst received.simps) simp
    then have eq: "r = r'" "xss = xs # yss" using "1.prems"(1) by simp_all
    have got: "sys_read 1024 src = (Inr xs, src')" using q 3(1) by simp
    note step = echo_got[OF got 3(2) "1.prems"(2)]
    show ?thesis
      unfolding eq step(1) send_all.simps by (rule "1.IH"[OF q[symmetric] 3 y step(2)])
  qed
qed

lemma received_all: "received src = (xss, None) \<Longrightarrow> concat xss = pending src"
proof (induction src arbitrary: xss rule: received.induct)
  case (1 src)
  obtain q src' where q: "sys_read 1024 src = (q, src')" by fastforce
  consider e where "q = Inl e" | "q = Inr []" | xs where "q = Inr xs" "xs \<noteq> []"
    by (cases q) auto
  then show ?case
  proof cases
    case (1 e)
    then show ?thesis using q "1.prems" by (subst (asm) received.simps) simp
  next
    case 2
    then show ?thesis using q "1.prems" fd.get_eof[of 1024 src src'] by (subst (asm) received.simps) simp
  next
    case (3 xs)
    obtain yss where "received src' = (yss, None)" "xss = xs # yss"
      using q 3 "1.prems" by (subst (asm) received.simps) (auto split: prod.splits)
    then show ?thesis using "1.IH"[OF q[symmetric] 3(1,2)] fd.get_bytes[of 1024 src xs src'] q 3(1) by simp
  qed
qed

lemma send_all_complete: "replies snk = [] \<Longrightarrow> send_all xss snk = snk\<lparr>accepted := accepted snk @ concat xss\<rparr>"
  by (induction xss arbitrary: snk) (simp_all add: sys_write_def)

text \<open>
  C33. What the server's child does with a client that sends some bytes and shuts down its side, for every way \<open>recv\<close>
  may cut and fail: when the calls that send transfer everything, an undisturbed connection is
  greeted with 91 bytes, the last of them a NUL, and gets its own bytes back, all of them; but a \<open>recv\<close> that is
  interrupted makes \<open>send\<close> read far behind the buffer.
\<close>
theorem serve_echoes:
  "(snd (received src) = None \<and> replies snk = [] \<longrightarrow>
      (\<exists>src' snk'. serve src snk = Inr (src', snk') \<and>
         accepted snk' = accepted snk @ greeting @ [0] @ pending src)) \<and>
   (snd (received src) = Some EINTR \<longrightarrow> serve src snk = Inl OutOfBounds)"
proof (intro conjI impI; (elim conjE)?)
  assume r: "snd (received src) = None" and snk: "replies snk = []"
  obtain xss where xss: "received src = (xss, None)" using r by (cases "received src") simp
  let ?snk = "snk\<lparr>accepted := accepted snk @ greeting @ [0]\<rparr>"
  have "snd (sys_write (greeting @ [0]) snk) = ?snk" using snk by (simp add: sys_write_def)
  moreover obtain src' where "echo_loop (replicate 1024 0) src ?snk = Inr (src', send_all xss ?snk)"
    using echo_loop_received[OF xss, of "replicate 1024 0" ?snk] by auto
  ultimately show "\<exists>src' snk'. serve src snk = Inr (src', snk') \<and>
      accepted snk' = accepted snk @ greeting @ [0] @ pending src"
    using send_all_complete[of ?snk xss] received_all[OF xss] snk by (simp add: serve_def greeting_written)
next
  assume "snd (received src) = Some EINTR"
  then obtain xss where "received src = (xss, Some EINTR)" by (cases "received src") simp
  then show "serve src snk = Inl OutOfBounds"
    using echo_loop_received[of src xss "Some EINTR" "replicate 1024 0"] by (simp add: serve_def greeting_written)
qed

theorem serve_echoes_witness:
  "\<exists>src' snk'. serve \<lparr>pending = [104, 105], answers = [Short 0]\<rparr> \<lparr>accepted = [], replies = []\<rparr> = Inr (src', snk') \<and>
     accepted snk' = greeting @ [0, 104, 105]"
proof -
  let ?src = "\<lparr>pending = [104, 105], answers = [Short 0]\<rparr>"
  have e: "received \<lparr>pending = [], answers = []\<rparr> = ([], None)"
    by (subst received.simps) (simp add: sys_read_def)
  have "received \<lparr>pending = [105], answers = []\<rparr> = ([[105]], None)"
    by (subst received.simps) (simp add: sys_read_def e)
  then have "received ?src = ([[104], [105]], None)"
    by (subst received.simps) (simp add: sys_read_def)
  then show ?thesis using serve_echoes[of ?src "\<lparr>accepted = [], replies = []\<rparr>"] by simp
qed

subsection \<open>The accepting loop\<close>

text \<open>
  The parent: each round accepts a connection and forks.  \<open>free_fds\<close> descriptors are left; the parent never closes a
  connection, and it forks also when \<open>accept\<close> has failed.  The result: what each child is given, and whether the server has ended because \<open>fork\<close> failed.
\<close>

datatype connection = Accepted | MinusOne

fun accept_loop :: "nat \<Rightarrow> bool list \<Rightarrow> connection list \<times> bool" where
  "accept_loop free_fds [] = ([], False)"
| "accept_loop free_fds (forked # fs) =
     (let connection = (if 0 < free_fds then Accepted else MinusOne)
      in if \<not> forked then ([], True)
         else (let (out, e) = accept_loop (free_fds - 1) fs in (connection # out, e)))"

lemma accept_loop_exhausts:
  "accept_loop n (replicate k True) = (replicate (min k n) Accepted @ replicate (k - n) MinusOne, False)"
proof (induction k arbitrary: n)
  case (Suc k)
  then show ?case by (cases n) simp_all
qed simp

subsection \<open>The client\<close>

text \<open>
  For each word that \<open>scanf("%s")\<close> reads into the buffer of 1024 bytes: send it, receive at most as many bytes, end
  them with a NUL at \<open>data[recv_size]\<close>, print.  A failing \<open>read\<close> makes that \<open>data[-1]\<close>.
\<close>

fun client_loop :: "byte list list \<Rightarrow> source \<Rightarrow> sink \<Rightarrow> c_error + byte list list \<times> sink" where
  "client_loop [] src snk = Inr ([], snk)"
| "client_loop (w # ws) src snk =
     (if 1024 < length w + 1 then Inl OutOfBounds
      else let (_, snk) = sys_write w snk; (r, src) = sys_read (length w) src
           in case r of
                Inl e \<Rightarrow> Inl OutOfBounds
              | Inr xs \<Rightarrow> bindE (client_loop ws src snk) (\<lambda>(out, snk). Inr (takeWhile (\<lambda>c. c \<noteq> 0) (xs @ [0]) # out, snk)))"

fun blocks :: "nat list \<Rightarrow> 'a list \<Rightarrow> 'a list list" where
  "blocks [] xs = []"
| "blocks (n # ns) xs = take n xs # blocks ns (drop n xs)"

text \<open>The client prints the server's stream in blocks of its words' lengths, whatever they contain.\<close>

lemma client_prints_blocks:
  "answers src = [] \<Longrightarrow> replies snk = [] \<Longrightarrow> \<forall>w \<in> set ws. length w < 1024 \<Longrightarrow>
     client_loop ws src snk =
       Inr (map (takeWhile (\<lambda>c. c \<noteq> 0)) (blocks (map length ws) (pending src)),
         snk\<lparr>accepted := accepted snk @ concat ws\<rparr>)"
proof (induction ws arbitrary: src snk)
  case (Cons w ws)
  have t: "takeWhile (\<lambda>c. c \<noteq> 0) (xs @ [0 :: byte]) = takeWhile (\<lambda>c. c \<noteq> 0) xs" for xs
    by (simp add: takeWhile_tail)
  have "sys_read (length w) src = (Inr (take (length w) (pending src)), src\<lparr>pending := drop (length w) (pending src)\<rparr>)"
    and "sys_write w snk = (Inr (length w), snk\<lparr>accepted := accepted snk @ w\<rparr>)"
    using Cons.prems by (simp_all add: sys_read_def sys_write_def)
  then show ?case
    using Cons.IH[of "src\<lparr>pending := drop (length w) (pending src)\<rparr>" "snk\<lparr>accepted := accepted snk @ w\<rparr>"] Cons.prems
    by (simp add: t)
qed simp

text \<open>Talking to the server, the client prints the beginning of the greeting for its first word.\<close>

lemma client_reads_greeting:
  assumes "length w \<le> 90" and "answers src = []" and "replies snk = []" and "pending src = greeting @ 0 # rest"
  shows "client_loop [w] src snk = Inr ([take (length w) greeting], snk\<lparr>accepted := accepted snk @ w\<rparr>)"
proof -
  have "0 \<notin> set greeting" by (simp add: greeting_def)
  then have "takeWhile (\<lambda>c. c \<noteq> 0) (take (length w) greeting) = take (length w) greeting"
    by (intro takeWhile_eq_all_conv[THEN iffD2]) (auto dest: in_set_takeD)
  then show ?thesis using client_prints_blocks[OF assms(2,3), of "[w]"] assms(1,4) by (simp add: greeting_91)
qed

subsection \<open>The two together\<close>

lemma received_undisturbed: "answers src = [] \<Longrightarrow> \<exists>xss. received src = (xss, None)"
proof (induction src rule: received.induct)
  case (1 src)
  let ?xs = "take 1024 (pending src)" and ?src = "src\<lparr>pending := drop 1024 (pending src)\<rparr>"
  have r: "sys_read 1024 src = (Inr ?xs, ?src)" using "1.prems" by (simp add: sys_read_def)
  show ?case
  proof (cases "?xs = []")
    case True
    then show ?thesis using r by (subst received.simps) simp
  next
    case False
    then obtain yss where "received ?src = (yss, None)" using "1.IH"[OF r[symmetric] refl] "1.prems" by auto
    then show ?thesis using r False by (subst received.simps) simp
  qed
qed

text \<open>
  A session without disturbance: the server echoes all words, but since its greeting comes first, the
  client prints for each word the block of the stream that is due, 91 bytes behind.
\<close>

lemma client_server_session:
  assumes "\<forall>w \<in> set ws. length w < 1024"
  shows "\<exists>src' snk'. serve \<lparr>pending = concat ws, answers = []\<rparr> \<lparr>accepted = [], replies = []\<rparr> = Inr (src', snk') \<and>
    client_loop ws \<lparr>pending = accepted snk', answers = []\<rparr> \<lparr>accepted = [], replies = []\<rparr> =
      Inr (map (takeWhile (\<lambda>c. c \<noteq> 0)) (blocks (map length ws) (greeting @ [0] @ concat ws)),
        \<lparr>accepted = concat ws, replies = []\<rparr>)"
proof -
  let ?src = "\<lparr>pending = concat ws, answers = []\<rparr>" and ?snk = "\<lparr>accepted = greeting @ [0], replies = []\<rparr>"
  obtain xss where xss: "received ?src = (xss, None)" using received_undisturbed[of ?src] by auto
  obtain src' where "echo_loop (replicate 1024 0) ?src ?snk = Inr (src', send_all xss ?snk)"
    using echo_loop_received[OF xss, of "replicate 1024 0" ?snk] by auto
  then have "serve ?src \<lparr>accepted = [], replies = []\<rparr> = Inr (src', \<lparr>accepted = greeting @ [0] @ concat ws, replies = []\<rparr>)"
    using send_all_complete[of ?snk xss] received_all[OF xss] by (simp add: serve_def greeting_written sys_write_def)
  then show ?thesis
    using client_prints_blocks[of "\<lparr>pending = greeting @ [0] @ concat ws, answers = []\<rparr>" "\<lparr>accepted = [], replies = []\<rparr>" ws] assms
    by simp
qed

end
