(* ===== verification/SocketPrograms.thy ===== *)
theory SocketPrograms
  imports EchoServer SocketAddr
begin

text \<open>
  The three \<open>main\<close> functions of \<open>src/sockets/example\<close>: \<open>server.c\<close> and \<open>client.c\<close> around the loops of EchoServer,
  and \<open>main.c\<close>, which prints what a name resolves to.  Given are the answers of \<open>getaddrinfo\<close> (an error, or the
  addresses in the order of its list) and of \<open>bind\<close> and \<open>connect\<close> to an address and a length.
\<close>

subsection \<open>The server\<close>

definition bind_addr :: "byte list" where
  "bind_addr = map of_char ''95.217.13.136:25000''"

datatype server_end =
    BindFailed
  | Served "connection list" bool  \<comment> \<open>what the children were given; whether \<open>main\<close> returned because \<open>fork\<close> failed\<close>

text \<open>
  \<open>stack\<close> is what the variable \<open>addr\<close> holds before anything is stored in it; the result of the parser is not looked
  at.  The address that is bound is part of the result.
\<close>

definition server_main ::
  "inet \<Rightarrow> bool \<Rightarrow> eo_addr \<Rightarrow> (eo_addr \<Rightarrow> nat \<Rightarrow> bool) \<Rightarrow> nat \<Rightarrow> bool list \<Rightarrow> eo_addr \<times> server_end" where
  "server_main L err_null stack binds free_fds forks =
     (let (_, addr) = eo_parse_addr_port L err_null bind_addr stack
      in (addr, if \<not> binds addr (eo_addr_size addr) then BindFailed
                else (let (cs, ended) = accept_loop free_fds forks in Served cs ended)))"

lemma bind_addr_text: "bind_addr = demo_text @ 58 # decimal 25000"
proof -
  have "decimal 25000 = [50, 53, 48, 48, 48]" by (simp add: decimal.simps)
  then show ?thesis by (simp add: bind_addr_def demo_text_def)
qed

lemma server_parses:
  assumes "pton6 L demo_text = None" and "pton4 L demo_text = Some x"
  shows "eo_parse_addr_port L True bind_addr stack =
    (0, stack\<lparr>sa_family := AF_INET, sin_port := htons 25000, sin_addr := x\<rparr>)"
proof -
  have "91 \<notin> set demo_text" "length demo_text \<le> INET6_ADDRSTRLEN" by (simp_all add: demo_text_def INET6_ADDRSTRLEN_def)
  from parse_limited_host[OF this, of L "58 # decimal 25000" 25000 stack]
  show ?thesis using parse_port_of_decimal[of 25000 L True demo_text stack] assms by (simp add: bind_addr_text)
qed

text \<open>
  The server binds its address when the uninitialised variable of the parser is NULL; otherwise the parser refuses, and
  \<open>main\<close> binds whatever the stack holds.
\<close>

lemma server_binds:
  assumes "pton6 L demo_text = None" and "pton4 L demo_text = Some x"
  shows "fst (server_main L True stack binds free_fds forks) = stack\<lparr>sa_family := AF_INET, sin_port := htons 25000, sin_addr := x\<rparr>"
    and "fst (server_main L False stack binds free_fds forks) = stack"
  using server_parses[OF assms, of stack] parse_port_of_decimal[of 25000 L False demo_text stack]
  by (simp_all add: server_main_def bind_addr_text split: prod.splits)

subsection \<open>The client\<close>

datatype client_end =
    ConnectFailed
  | Finished "byte list list" sink  \<comment> \<open>the lines printed, the bytes sent\<close>

text \<open>After an error of \<open>getaddrinfo\<close> the client goes on with a list that was never set.\<close>

definition client_main ::
  "byte list + eo_addr list \<Rightarrow> (eo_addr \<Rightarrow> nat \<Rightarrow> bool) \<Rightarrow> byte list list \<Rightarrow> source \<Rightarrow> sink \<Rightarrow> c_error + client_end" where
  "client_main resolved connects ws src snk =
     (case resolved of
        Inl message \<Rightarrow> Inl UninitRead
      | Inr [] \<Rightarrow> Inl NullDeref
      | Inr (addr # _) \<Rightarrow>
          if \<not> connects addr 16 then Inr ConnectFailed
          else bindE (client_loop ws src snk) (\<lambda>(out, snk). Inr (Finished out snk)))"

text \<open>
  The programs together: the server has bound an address, the name resolves to it first, and a connection is made
  exactly to that address.  Then the client prints its words' lengths of greeting and echo.
\<close>

lemma server_and_client:
  assumes "pton6 L demo_text = None" and "pton4 L demo_text = Some x"
    and srv: "server_main L True stack binds (Suc n) (True # fs) = (addr, Served cs ended)"
    and "connects addr 16" and "\<forall>w \<in> set ws. length w < 1024"
  shows "sin_addr addr = x \<and> hd cs = Accepted \<and>
    (\<exists>src' snk'. serve \<lparr>pending = concat ws, answers = []\<rparr> \<lparr>accepted = [], replies = []\<rparr> = Inr (src', snk') \<and>
      client_main (Inr (addr # as)) connects ws \<lparr>pending = accepted snk', answers = []\<rparr> \<lparr>accepted = [], replies = []\<rparr> =
        Inr (Finished (map (takeWhile (\<lambda>c. c \<noteq> 0)) (blocks (map length ws) (greeting @ [0] @ concat ws)))
          \<lparr>accepted = concat ws, replies = []\<rparr>))"
proof (intro conjI)
  show "sin_addr addr = x" using server_binds(1)[OF assms(1,2), of stack binds "Suc n" "True # fs"] srv by simp
  show "hd cs = Accepted" using srv by (auto simp: server_main_def split: prod.splits if_splits)
  show "\<exists>src' snk'. serve \<lparr>pending = concat ws, answers = []\<rparr> \<lparr>accepted = [], replies = []\<rparr> = Inr (src', snk') \<and>
      client_main (Inr (addr # as)) connects ws \<lparr>pending = accepted snk', answers = []\<rparr> \<lparr>accepted = [], replies = []\<rparr> =
        Inr (Finished (map (takeWhile (\<lambda>c. c \<noteq> 0)) (blocks (map length ws) (greeting @ [0] @ concat ws)))
          \<lparr>accepted = concat ws, replies = []\<rparr>)"
    using client_server_session[OF assms(5)] assms(4) by (auto simp: client_main_def)
qed

lemma client_unresolved: "client_main (Inl message) connects ws src snk = Inl UninitRead"
  by (simp add: client_main_def)

subsection \<open>The resolver\<close>

text \<open>Every address is taken for a \<open>sockaddr_in\<close>, whatever its family.\<close>

fun print_list :: "inet \<Rightarrow> eo_addr list \<Rightarrow> byte list list" where
  "print_list L [] = []"
| "print_list L (cur # rest) = ntop4 L (sin_addr cur) # print_list L rest"

definition resolver_main :: "inet \<Rightarrow> byte list + eo_addr list \<Rightarrow> c_error + byte list list" where
  "resolver_main L resolved = (case resolved of
       Inl message \<Rightarrow> Inl UninitRead
     | Inr output \<Rightarrow> Inr (print_list L output))"

text \<open>
  IPv4 addresses are printed as they are; in the place of an IPv6 address there is the dotted form of its flow
  information, so that an address that differs from another in \<open>sin6_addr\<close> only is printed alike.
\<close>

lemma resolver_prints_v4:
  "resolver_main L (Inr as) = Inr (map (\<lambda>a. ntop4 L (sin_addr a)) as)"
proof -
  have "print_list L as = map (\<lambda>a. ntop4 L (sin_addr a)) as" by (induction as) simp_all
  then show ?thesis by (simp add: resolver_main_def)
qed

lemma resolver_ignores_v6:
  "resolver_main L (Inr [a\<lparr>sin6_addr := x\<rparr>]) = resolver_main L (Inr [a\<lparr>sin6_addr := y\<rparr>])"
  by (simp add: resolver_main_def)

end
