(* ===== verification/HexCode.thy ===== *)
theory HexCode
  imports Prelude
begin

unbundle bit_operations_syntax

text \<open>
  \<open>src/mmap/sample2/main.c\<close>: machine code given as hexadecimal digits is decoded into an executable mapping.
  The mapping holds whole pages, so its block is the requested length rounded up.
\<close>

definition from_hex_char :: "byte \<Rightarrow> byte" where
  "from_hex_char c =
     (if 48 \<le> c \<and> c \<le> 57 then c - 48
      else if 65 \<le> c \<and> c \<le> 70 then 10 + c - 65
      else if 97 \<le> c \<and> c \<le> 102 then 10 + c - 97
      else 0xFF)"

text \<open>\<open>code\<close> is the argument with its NUL; \<open>i\<close> counts the digits by two.\<close>

definition decode_at :: "byte list \<Rightarrow> nat \<Rightarrow> byte" where
  "decode_at code i = push_bit 4 (from_hex_char (code ! i)) OR from_hex_char (code ! (i + 1))"

function decode_loop :: "byte list \<Rightarrow> nat \<Rightarrow> byte list \<Rightarrow> nat \<Rightarrow> c_error + byte list" where
  "decode_loop code n ptr i =
     (if i < n
      then bindE (mem_write ptr (i div 2) [decode_at code i]) (\<lambda>ptr. decode_loop code n ptr (i + 2))
      else Inr ptr)"
  by pat_completeness auto
termination by (relation "measure (\<lambda>(code, n, ptr, i). n - i)") auto

declare decode_loop.simps [simp del]

definition PAGE :: nat where "PAGE = 4096"

text \<open>\<open>mmap\<close>: a length of 0 is refused, otherwise the mapping consists of zeroed pages.\<close>

definition map_pages :: "nat \<Rightarrow> byte list option" where
  "map_pages n = (if n = 0 then None else Some (replicate ((n + PAGE - 1) div PAGE * PAGE) 0))"

text \<open>None: the program ends with an error message.\<close>

definition load_code :: "byte list \<Rightarrow> c_error + byte list option" where
  "load_code text = (let n = length text in case map_pages (n div 2) of
       None \<Rightarrow> Inr None
     | Some ptr \<Rightarrow> bindE (decode_loop (text @ [0]) n ptr 0) (\<lambda>ptr. Inr (Some ptr)))"

subsection \<open>Digits\<close>

definition hex_digit :: "nat \<Rightarrow> byte" where
  "hex_digit v = (if v < 10 then of_nat (48 + v) else of_nat (87 + v))"

definition hex_byte :: "byte \<Rightarrow> byte list" where
  "hex_byte b = [hex_digit (unat b div 16), hex_digit (unat b mod 16)]"

lemma less_16: "v < 16 \<longleftrightarrow> v \<in> {0, 1, 2, 3, 4, 5, 6, 7, 8, 9, 10, 11, 12, 13, 14, 15 :: nat}"
  by (simp add: eval_nat_numeral less_Suc_eq)

lemma from_hex_digit: "v < 16 \<Longrightarrow> from_hex_char (hex_digit v) = of_nat v"
  unfolding less_16 by (elim insertE) (simp_all add: hex_digit_def from_hex_char_def)

text \<open>Upper-case digits are read like lower-case ones, and anything else as \<open>0xFF\<close>.\<close>

lemma from_hex_upper: "65 \<le> c \<Longrightarrow> c \<le> 70 \<Longrightarrow> from_hex_char c = from_hex_char (c + 32)"
  unfolding from_hex_char_def word_le_nat_alt by (simp add: unat_add_fits)

lemma nibbles: "h < 16 \<Longrightarrow> l < 16 \<Longrightarrow> push_bit 4 (of_nat h) OR of_nat l = (of_nat (16 * h + l) :: byte)"
proof -
  assume h: "h < 16" and l: "l < 16"
  have "push_bit 4 (of_nat h) OR of_nat l = push_bit 4 (of_nat h) + (of_nat l :: byte)"
  proof (rule disjunctive_add[symmetric])
    fix n
    have "of_nat l = (take_bit 4 (of_nat l) :: byte)"
      using l by (simp add: take_bit_nat_eq_self take_bit_of_nat)
    then have "bit (of_nat l :: byte) n \<Longrightarrow> n < 4" by (metis bit_take_bit_iff)
    then show "\<not> bit (push_bit 4 (of_nat h) :: byte) n \<or> \<not> bit (of_nat l :: byte) n"
      by (auto simp: bit_push_bit_iff)
  qed
  then show ?thesis by (simp add: push_bit_eq_mult)
qed

lemma decode_at_digits:
  assumes "code = xs @ hex_byte b @ ys"
  shows "decode_at code (length xs) = b"
proof -
  have h: "unat b div 16 < 16" using unat_less_2p[of b] by (simp add: div_less_iff_less_mult)
  have "code ! length xs = hex_digit (unat b div 16)" "code ! (length xs + 1) = hex_digit (unat b mod 16)"
    using assms by (simp_all add: hex_byte_def nth_append)
  then show ?thesis
    using h nibbles[OF h, of "unat b mod 16"] by (simp add: decode_at_def from_hex_digit)
qed

subsection \<open>Decoding\<close>

text \<open>The loop over the digits of \<open>bs\<close>, after the digits \<open>as\<close>.\<close>

lemma decode_loop_bytes:
  assumes "length (concat (map hex_byte as)) = 2 * length as"
    and "code = concat (map hex_byte (as @ bs)) @ r" and "length as + length bs \<le> length ptr"
    and "take (length as) ptr = as"
  shows "decode_loop code (2 * length (as @ bs)) ptr (2 * length as) = Inr (as @ bs @ drop (length (as @ bs)) ptr)"
  using assms
proof (induction bs arbitrary: as ptr)
  case Nil
  have "ptr = as @ drop (length as) ptr" using Nil.prems(4) append_take_drop_id[of "length as" ptr] by simp
  then show ?case by (subst decode_loop.simps) simp
next
  case (Cons b bs)
  have at: "decode_at code (2 * length as) = b"
    using decode_at_digits[of code "concat (map hex_byte as)" b "concat (map hex_byte bs) @ r"] Cons.prems(1,2)
    by simp
  let ?ptr = "take (length as) ptr @ [b] @ drop (length as + 1) ptr"
  have w: "mem_write ptr (length as) [b] = Inr ?ptr" using Cons.prems(3) by (simp add: mem_write_def)
  have "decode_loop code (2 * length ((as @ [b]) @ bs)) ?ptr (2 * length (as @ [b])) =
      Inr ((as @ [b]) @ bs @ drop (length ((as @ [b]) @ bs)) ?ptr)"
    using Cons.prems by (intro Cons.IH) (simp_all add: hex_byte_def)
  moreover have "drop (length ((as @ [b]) @ bs)) ?ptr = drop (length (as @ b # bs)) ptr"
    using Cons.prems(3,4) by (simp add: add.commute)
  ultimately show ?case using w at by (subst decode_loop.simps) (simp add: add.commute)
qed

lemma hex_length: "length (concat (map hex_byte bs)) = 2 * length bs"
  by (induction bs) (simp_all add: hex_byte_def)

lemma pages_cover: "n \<le> (n + PAGE - 1) div PAGE * PAGE"
  using div_mult_mod_eq[of "n + PAGE - 1" PAGE] mod_less_divisor[of PAGE "n + PAGE - 1"]
  by (simp add: PAGE_def)

text \<open>
  The round trip: the digits of any non-empty byte sequence are decoded to that sequence, followed by the zeroes
  that fill the last page.
\<close>

lemma load_code_roundtrip:
  assumes "bs \<noteq> []"
  shows "load_code (concat (map hex_byte bs)) =
    Inr (Some (bs @ replicate ((length bs + PAGE - 1) div PAGE * PAGE - length bs) 0))"
proof -
  let ?n = "(length bs + PAGE - 1) div PAGE * PAGE"
  have "decode_loop (concat (map hex_byte bs) @ [0]) (2 * length bs) (replicate ?n 0) 0 =
      Inr (bs @ drop (length bs) (replicate ?n 0))"
    using decode_loop_bytes[of "[]" "concat (map hex_byte bs) @ [0]" bs "[0]" "replicate ?n 0"] pages_cover[of "length bs"]
    by simp
  then show ?thesis using assms by (simp add: load_code_def hex_length map_pages_def Let_def)
qed

subsection \<open>\<open>main\<close>\<close>

text \<open>
  \<open>call\<close> is what the processor does with the code, an argument of the model; the pairs are those that \<open>scanf\<close>
  reads before it fails.
\<close>

definition hex_main :: "(byte list \<Rightarrow> 32 word \<Rightarrow> 32 word \<Rightarrow> 32 word) \<Rightarrow> byte list \<Rightarrow> (32 word \<times> 32 word) list \<Rightarrow>
    c_error + 32 word list" where
  "hex_main call text pairs = bindE (load_code text) (\<lambda>code. case code of
       None \<Rightarrow> Inr []
     | Some ptr \<Rightarrow> Inr (map (\<lambda>(a, b). call ptr a b) pairs))"

lemma hex_main_calls:
  "bs \<noteq> [] \<Longrightarrow> \<exists>k. hex_main call (concat (map hex_byte bs)) pairs = Inr (map (\<lambda>(a, b). call (bs @ replicate k 0) a b) pairs)"
  using load_code_roundtrip[of bs] by (auto simp: hex_main_def)

end
