(* ===== verification/RelTree.thy ===== *)
theory RelTree
  imports Prelude
begin

text \<open>
  \<open>src/sample5/main.c\<close>: trees in arrays whose links are distances between array elements, so that a
  tree can be copied as bytes.  An index stands for a \<open>node_t*\<close> into the array; the words wrap as the C
  conversions do.
\<close>

record node =
  left :: int
  right :: int
  label :: "byte list"

text \<open>The index of the left child; None is NULL.\<close>

definition get_left :: "node list \<Rightarrow> nat \<Rightarrow> c_error + int option" where
  "get_left a p = (if p < length a
     then Inr (if left (a ! p) = 0 then None else Some (int p + left (a ! p))) else Inl OutOfBounds)"

text \<open>\<open>malloc\<close> and the two copies, then the link; \<open>offset\<close> is \<open>node_a - root_a\<close>.\<close>

definition concat_left :: "node list \<Rightarrow> nat \<Rightarrow> node list \<Rightarrow> nat \<Rightarrow> nat \<Rightarrow> c_error + node list" where
  "concat_left root_a size_a root_b size_b offset =
     bindE (mem_read root_a 0 size_a) (\<lambda>xs.
     bindE (mem_read root_b 0 size_b) (\<lambda>ys.
       let res = xs @ ys
       in if offset < length res
          then Inr (res[offset := (res ! offset)\<lparr>left := int size_a - int offset\<rparr>]) else Inl OutOfBounds))"

text \<open>\<open>main\<close>: the copy of the one-node tree becomes its own left child.\<close>

definition tree_main :: "c_error + byte list" where
  "tree_main =
     (let root = [\<lparr>left = 0, right = 0, label = [97, 98, 99]\<rparr>]
      in bindE (concat_left root 1 root 1 0) (\<lambda>res.
         bindE (get_left res 0) (\<lambda>p. case p of
             None \<Rightarrow> Inl NullDeref
           | Some i \<Rightarrow> if 0 \<le> i \<and> i < int (length res) then Inr (label (res ! nat i)) else Inl OutOfBounds)))"

lemma tree_main_prints: "tree_main = Inr [97, 98, 99]"
  by (simp add: tree_main_def concat_left_def get_left_def)

text \<open>
  After \<open>concat_left\<close> the chosen node of \<open>a\<close> has the root of \<open>b\<close> as its left child, and every other link leads
  where it led before, the ones of \<open>b\<close> moved by the size of \<open>a\<close>.
\<close>

lemma concat_left_links:
  assumes "length a = n" and "length b = m" and "0 < m" and "k < n"
  shows "\<exists>c. concat_left a n b m k = Inr c \<and> length c = n + m \<and>
    get_left c k = Inr (Some (int n)) \<and>
    (\<forall>i < n. i \<noteq> k \<longrightarrow> get_left c i = get_left a i \<and> right (c ! i) = right (a ! i) \<and> label (c ! i) = label (a ! i)) \<and>
    (\<forall>j < m. get_left c (n + j) = map_sum id (map_option ((+) (int n))) (get_left b j) \<and> c ! (n + j) = b ! j)"
proof -
  let ?c = "(a @ b)[k := ((a @ b) ! k)\<lparr>left := int n - int k\<rparr>]"
  have "concat_left a n b m k = Inr ?c" using assms by (simp add: concat_left_def Let_def)
  moreover have "get_left ?c k = Inr (Some (int n))" using assms by (simp add: get_left_def)
  moreover have "get_left ?c i = get_left a i \<and> right (?c ! i) = right (a ! i) \<and> label (?c ! i) = label (a ! i)"
    if "i < n" "i \<noteq> k" for i
    using that assms by (simp add: get_left_def nth_append)
  moreover have "get_left ?c (n + j) = map_sum id (map_option ((+) (int n))) (get_left b j) \<and> ?c ! (n + j) = b ! j"
    if "j < m" for j
    using that assms by (simp add: get_left_def nth_append)
  ultimately show ?thesis using assms by (intro exI[of _ ?c]) simp
qed

end
