(* ===== verification/Encode16.thy ===== *)
theory Encode16
  imports SocketAddr ByteStream
begin

text \<open>
  \<open>src/1201/main.c\<close>: numbers read with \<open>scanf("%hu")\<close> are written as two bytes each, the high one first.
  The numbers are given as \<open>scanf\<close> reads them, before they are cut to 16 bits.
\<close>

text \<open>The bytes of a \<open>uint16_t\<close> in memory.\<close>

definition bytes16 :: "uint16 \<Rightarrow> byte list" where
  "bytes16 x = [ucast x, ucast (drop_bit 8 x)]"

definition htobe16 :: "uint16 \<Rightarrow> uint16" where
  "htobe16 x = htons x"

fun encode :: "nat list \<Rightarrow> sink \<Rightarrow> int \<times> sink" where
  "encode [] snk = (0, snk)"
| "encode (n # ns) snk =
     (let x = htobe16 (of_nat n)
      in case sys_write (bytes16 x) snk of
           (Inr k, snk) \<Rightarrow> if k \<noteq> 2 then (-1, snk) else encode ns snk
         | (Inl e, snk) \<Rightarrow> (-1, snk))"

fun decode :: "byte list \<Rightarrow> nat list" where
  "decode (h # l # bs) = (256 * unat h + unat l) # decode bs"
| "decode _ = []"

lemma bytes16_high_first: "bytes16 (htobe16 x) = [ucast (drop_bit 8 x), ucast x]"
  unfolding bytes16_def htobe16_def htons_def
  by (auto intro!: bit_word_eqI simp: bit_simps)

lemma high_low: "256 * unat (ucast (drop_bit 8 x) :: byte) + unat (ucast x :: byte) = unat (x :: uint16)"
proof -
  have "unat x div 256 < 256" using unat_less_2p[of x] by (simp add: div_less_iff_less_mult)
  then have "unat (ucast (drop_bit 8 x) :: byte) = unat x div 256"
    by (simp add: unsigned_ucast_eq unsigned_drop_bit_eq drop_bit_eq_div take_bit_nat_eq_self unat_div)
  moreover have "unat (ucast x :: byte) = unat x mod 256" by (simp add: unsigned_ucast_eq take_bit_eq_mod)
  ultimately show ?thesis by simp
qed

text \<open>Decoding the file gives back the numbers modulo \<open>2 ^ 16\<close>; a failed or short write ends the encoding.\<close>

lemma encode_roundtrip:
  "replies snk = [] \<Longrightarrow> \<exists>bs. encode ns snk = (0, snk\<lparr>accepted := accepted snk @ bs\<rparr>) \<and> length bs = 2 * length ns \<and>
     decode bs = map (\<lambda>n. n mod 2 ^ 16) ns"
proof (induction ns arbitrary: snk)
  case (Cons n ns)
  let ?b = "bytes16 (htobe16 (of_nat n))"
  have len: "length ?b = 2" by (simp add: bytes16_def)
  have w: "sys_write ?b snk = (Inr 2, snk\<lparr>accepted := accepted snk @ ?b\<rparr>)"
    using Cons.prems len by (simp add: sys_write_def)
  obtain bs where bs: "encode ns (snk\<lparr>accepted := accepted snk @ ?b\<rparr>) = (0, snk\<lparr>accepted := (accepted snk @ ?b) @ bs\<rparr>)"
    "length bs = 2 * length ns" "decode bs = map (\<lambda>n. n mod 2 ^ 16) ns"
    using Cons.IH[of "snk\<lparr>accepted := accepted snk @ ?b\<rparr>"] Cons.prems by auto
  have "encode (n # ns) snk = (0, snk\<lparr>accepted := accepted snk @ (?b @ bs)\<rparr>)" using w bs(1) by (simp add: Let_def)
  moreover have "decode (?b @ bs) = map (\<lambda>n. n mod 2 ^ 16) (n # ns)"
    using bs(3) high_low[of "of_nat n"] by (simp add: bytes16_high_first unat_of_nat)
  ultimately show ?case using bs(2) len by (intro exI[of _ "?b @ bs"]) simp
qed simp

lemma encode_stops: "sys_write (bytes16 (htobe16 (of_nat n))) snk = (Inl e, snk') \<Longrightarrow> encode (n # ns) snk = (-1, snk')"
  by (simp add: Let_def)

text \<open>\<open>main\<close>: the file is emptied when it can be opened; without it nothing is read.  The result of \<open>encode\<close> is not used.\<close>

definition encode_main :: "bool \<Rightarrow> byte list \<Rightarrow> answer list \<Rightarrow> nat list \<Rightarrow> int \<times> byte list" where
  "encode_main opens old rs ns =
     (if opens then (let (_, snk) = encode ns \<lparr>accepted = [], replies = rs\<rparr> in (0, accepted snk)) else (0, old))"

lemma encode_main_file:
  "\<exists>bs. encode_main True old [] ns = (0, bs) \<and> decode bs = map (\<lambda>n. n mod 2 ^ 16) ns"
  using encode_roundtrip[of "\<lparr>accepted = [], replies = []\<rparr>" ns] by (auto simp: encode_main_def)

end
