(* ===== verification/SharedMemory.thy ===== *)
theory SharedMemory
  imports Files
begin

text \<open>
  Integers in shared mappings: \<open>src/mmap/sample1/main.c\<close>, which reads and sets the first integer of a file, and
  \<open>src/mmap/sample3-fork/main.c\<close>, where a parent polls an integer that its child sets.
\<close>

subsection \<open>\<open>mem_rw_loop\<close>\<close>

datatype rw_output = Shown "32 word" | SyncFailed

text \<open>The numbers that \<open>scanf\<close> reads, each with the result of the \<open>msync\<close> it may lead to; the function returns -1.\<close>

fun mem_rw_loop :: "(32 word \<times> bool) list \<Rightarrow> 32 word \<Rightarrow> rw_output list \<times> 32 word \<times> int" where
  "mem_rw_loop [] cell = ([], cell, -1)"
| "mem_rw_loop ((x, synced) # xs) cell =
     (if x = 0 then (let (out, res) = mem_rw_loop xs cell in (Shown cell # out, res))
      else (let cell = x; (out, res) = mem_rw_loop xs cell in ((if synced then [] else [SyncFailed]) @ out, res)))"

text \<open>The value a zero shows is the last other number, or what the file held.\<close>

fun last_set :: "32 word \<Rightarrow> (32 word \<times> bool) list \<Rightarrow> 32 word" where
  "last_set cell [] = cell"
| "last_set cell ((x, _) # xs) = last_set (if x = 0 then cell else x) xs"

lemma mem_rw_loop_append:
  "mem_rw_loop (xs @ ys) cell =
     (let (out, cell', _) = mem_rw_loop xs cell; (out', res) = mem_rw_loop ys cell' in (out @ out', res))"
  by (induction xs cell rule: mem_rw_loop.induct) (auto simp: Let_def split: prod.splits)

lemma mem_rw_loop_cell: "snd (mem_rw_loop xs cell) = (last_set cell xs, -1)"
  by (induction xs cell rule: mem_rw_loop.induct) (auto simp: Let_def split: prod.splits)

lemma mem_rw_loop_shows:
  "fst (mem_rw_loop (xs @ [(0, b)]) cell) = fst (mem_rw_loop xs cell) @ [Shown (last_set cell xs)]"
  using mem_rw_loop_cell[of xs cell] by (auto simp: mem_rw_loop_append split: prod.splits)

text \<open>
  \<open>main\<close>: the file named on the command line is mapped whole.  The page behind the
  end of a short file holds zeros, and what is stored there is lost; \<open>mmap\<close> refuses an empty file.  Given: the arguments after the program's name, and
  the file if it can be opened.
\<close>

datatype rw_end = RwUsage | RwError | RwDone "rw_output list" "byte list"

definition rw_main :: "byte list list \<Rightarrow> (byte list \<Rightarrow> byte list option) \<Rightarrow> (32 word \<times> bool) list \<Rightarrow> rw_end" where
  "rw_main args file inputs =
     (if length args + 1 \<noteq> 2 then RwUsage
      else case file (args ! 0) of
        None \<Rightarrow> RwError
      | Some bs \<Rightarrow> if bs = [] then RwError
          else let (out, cell, _) = mem_rw_loop inputs (from_le32 (take 4 (bs @ replicate 4 0)))
               in RwDone out (take (length bs) (le32 cell @ drop 4 bs)))"

text \<open>The file keeps its length and holds the last number that was set; a second run shows it.\<close>

lemma rw_main_persists:
  assumes "4 \<le> length bs"
  shows "\<exists>out. rw_main [f] (\<lambda>_. Some bs) inputs = RwDone out (le32 (last_set (from_le32 (take 4 bs)) inputs) @ drop 4 bs) \<and>
    rw_main [f] (\<lambda>_. Some (le32 (last_set (from_le32 (take 4 bs)) inputs) @ drop 4 bs)) [(0, b)] =
      RwDone [Shown (last_set (from_le32 (take 4 bs)) inputs)] (le32 (last_set (from_le32 (take 4 bs)) inputs) @ drop 4 bs)"
proof -
  let ?c = "last_set (from_le32 (take 4 bs)) inputs"
  obtain out where "mem_rw_loop inputs (from_le32 (take 4 bs)) = (out, ?c, -1)"
    using mem_rw_loop_cell[of inputs "from_le32 (take 4 bs)"] by (metis prod.collapse)
  moreover have "bs \<noteq> []" using assms by auto
  ultimately have "rw_main [f] (\<lambda>_. Some bs) inputs = RwDone out (le32 ?c @ drop 4 bs)"
    using assms by (simp add: rw_main_def)
  moreover have "le32 ?c @ drop 4 bs \<noteq> []" by (simp add: le32_def)
  then have "rw_main [f] (\<lambda>_. Some (le32 ?c @ drop 4 bs)) [(0, b)] = RwDone [Shown ?c] (le32 ?c @ drop 4 bs)"
    using assms by (simp add: rw_main_def from_le32_le32)
  ultimately show ?thesis by blast
qed

subsection \<open>The polling parent\<close>

text \<open>\<open>seen\<close>: the values of \<open>*mem\<close> at the parent's successive reads; the result is what it prints.\<close>

fun poll_updates :: "32 word \<Rightarrow> 32 word list \<Rightarrow> 32 word list" where
  "poll_updates last_value [] = []"
| "poll_updates last_value (new_value # seen) =
     (if last_value \<noteq> new_value then new_value # poll_updates new_value seen else poll_updates last_value seen)"

text \<open>The child: every number that \<open>scanf\<close> reads is stored at once.  Each parent read comes after some of them.\<close>

fun child_values :: "32 word \<Rightarrow> 32 word list \<Rightarrow> nat list \<Rightarrow> 32 word list" where
  "child_values cell xs [] = []"
| "child_values cell xs (k # ks) = (let cell = last (cell # take k xs) in cell # child_values cell (drop k xs) ks)"

definition parent_output :: "32 word list \<Rightarrow> nat list \<Rightarrow> 32 word list" where
  "parent_output xs ks = poll_updates 0 (child_values 0 xs ks)"

lemma poll_updates_remdups: "v # poll_updates v seen = remdups_adj (v # seen)"
  by (induction v seen rule: poll_updates.induct) auto

text \<open>Every printed value differs from the one before, and the last one is the last value seen.\<close>

lemma poll_updates_distinct: "distinct_adj (v # poll_updates v seen)"
  unfolding poll_updates_remdups by (rule distinct_adj_remdups_adj)

lemma poll_updates_last: "last (v # poll_updates v seen) = last (v # seen)"
  unfolding poll_updates_remdups by (rule last_remdups_adj)

lemma child_values_from: "set (child_values cell xs ks) \<subseteq> insert cell (set xs)"
proof (induction ks arbitrary: cell xs)
  case (Cons k ks)
  have l: "last (cell # take k xs) \<in> insert cell (set xs)"
    using last_in_set[of "cell # take k xs"] set_take_subset[of k xs] by auto
  then show ?case using Cons.IH[of "last (cell # take k xs)" "drop k xs"] set_drop_subset[of k xs]
    by (auto simp: Let_def simp del: last.simps)
qed simp

text \<open>The parent prints only values that the child read; one that is overwritten between two reads is not printed.\<close>

lemma parent_output_from:
  "set (parent_output xs ks) \<subseteq> insert 0 (set xs) \<and> distinct_adj (0 # parent_output xs ks)"
proof
  have "set (0 # parent_output xs ks) \<subseteq> set (0 # child_values 0 xs ks)"
    unfolding parent_output_def poll_updates_remdups by simp
  then show "set (parent_output xs ks) \<subseteq> insert 0 (set xs)" using child_values_from[of 0 xs ks] by auto
  show "distinct_adj (0 # parent_output xs ks)" unfolding parent_output_def by (rule poll_updates_distinct)
qed

text \<open>\<open>main\<close>: the mapping starts as 0; None when \<open>mmap\<close> fails.  A \<open>fork\<close> that fails makes a parent without a child.\<close>

definition fork_main :: "bool \<Rightarrow> bool \<Rightarrow> 32 word list \<Rightarrow> nat list \<Rightarrow> 32 word list option" where
  "fork_main maps forks xs ks =
     (if \<not> maps then None else Some (if forks then parent_output xs ks else parent_output [] ks))"

lemma child_values_none: "child_values cell [] ks = replicate (length ks) cell"
  by (induction ks) simp_all

lemma fork_main_childless: "fork_main True False xs ks = Some []"
proof -
  have "poll_updates v (replicate n v) = []" for v n by (induction n) simp_all
  then show ?thesis by (simp add: fork_main_def parent_output_def child_values_none)
qed

end
