(* ===== verification/ForkPrograms.thy ===== *)
theory ForkPrograms
  imports Decimal
begin

unbundle bit_operations_syntax

text \<open>
  The sequential programs around \<open>fork\<close>: \<open>src/fork/map/main.c\<close>, \<open>timer/main.c\<close>, \<open>recursive-fork/main.c\<close> and
  \<open>nonblocking/main.c\<close>, with \<open>recursive-fork2/main.c\<close> and \<open>simple/main.c\<close>.  The results of \<open>fork\<close>, \<open>waitpid\<close> and the other calls are given as lists; text is
  bytes without the terminating NUL unless it is a buffer.
\<close>

subsection \<open>\<open>map\<close>\<close>

text \<open>The inner loop that cuts the newlines off the end of the buffer \<open>line\<close> of the given length.\<close>

fun chop_newlines :: "nat \<Rightarrow> byte list \<Rightarrow> nat \<times> byte list" where
  "chop_newlines 0 line = (0, line)"
| "chop_newlines (Suc n) line = (if line ! n = 10 then chop_newlines n (line[n := 0]) else (Suc n, line))"

definition argument_text :: "byte list \<Rightarrow> byte list" where
  "argument_text line = takeWhile (\<lambda>c. c \<noteq> 0) line"

definition substitute :: "byte list \<Rightarrow> byte list list \<Rightarrow> byte list list" where
  "substitute line args = List.map (\<lambda>a. if a = [123, 125] then line else a) args"

datatype fork_result = ForkFails | Parent bool  \<comment> \<open>whether \<open>waitpid\<close> succeeds\<close>

text \<open>The arguments that the children execute, in order; \<open>line @ [0]\<close> is the buffer that \<open>getline\<close> fills.\<close>

fun map_loop :: "byte list list \<Rightarrow> byte list list \<Rightarrow> fork_result list \<Rightarrow> byte list list list" where
  "map_loop args (line # ls) (ForkFails # fs) = []"
| "map_loop args (line # ls) (Parent waited # fs) =
     substitute (argument_text (snd (chop_newlines (length line) (line @ [0])))) args #
     (if waited then map_loop args ls fs else [])"
| "map_loop args _ _ = []"

lemma chop_newlines_text:
  "0 \<notin> set w \<Longrightarrow> (w = [] \<or> last w \<noteq> 10) \<Longrightarrow>
     argument_text (snd (chop_newlines (length w + k) (w @ replicate k 10 @ 0 # r))) = w"
proof (induction k arbitrary: r)
  case 0
  have w: "argument_text (w @ 0 # r) = w"
    unfolding argument_text_def using "0.prems"(1) by (subst takeWhile_append2) auto
  show ?case
  proof (cases "length w")
    case (Suc n)
    then have "(w @ 0 # r) ! n = last w" by (cases w) (auto simp: last_conv_nth nth_append)
    then show ?thesis using Suc "0.prems"(2) w by auto
  qed (use w in simp)
next
  case (Suc k)
  have "(w @ replicate (Suc k) 10 @ 0 # r) ! (length w + k) = 10"
    by (simp add: nth_append replicate_append_same[symmetric])
  moreover have "(w @ replicate (Suc k) 10 @ 0 # r)[length w + k := 0] = w @ replicate k 10 @ 0 # 0 # r"
    by (simp add: list_update_append replicate_append_same[symmetric])
  ultimately show ?case using Suc.IH[of "0 # r"] Suc.prems by simp
qed

text \<open>Each line, without its newlines, replaces the arguments \<open>{}\<close>.\<close>

lemma map_loop_lines:
  assumes "\<forall>w \<in> set ws. 0 \<notin> set w \<and> (w = [] \<or> last w \<noteq> 10)" and "length ks = length ws"
  shows "map_loop args (List.map (\<lambda>(w, k). w @ replicate k 10) (zip ws ks)) (replicate (length ws) (Parent True)) =
    List.map (\<lambda>w. substitute w args) ws"
  using assms
proof (induction ws arbitrary: ks)
  case (Cons w ws)
  then obtain k ks' where ks: "ks = k # ks'" by (cases ks) auto
  show ?case using Cons ks chop_newlines_text[of w k "[]"] by simp
qed simp

text \<open>\<open>main\<close>: the arguments without the program's name; an \<open>execvp\<close> that fails is a line of the child and not modelled.\<close>

datatype map_result = MapUsage | Mapped "byte list list list"

definition map_main :: "byte list list \<Rightarrow> byte list list \<Rightarrow> fork_result list \<Rightarrow> map_result" where
  "map_main args ls fs = (if length args + 1 < 2 then MapUsage else Mapped (map_loop args ls fs))"

subsection \<open>\<open>timer\<close>\<close>

datatype report = ExitCode int | Signaled int | Stopped int | InvalidStatus | WaitError

text \<open>The status macros; \<open>WIFSIGNALED\<close> halves a \<open>signed char\<close>.\<close>

definition wait_report :: "32 word \<Rightarrow> report" where
  "wait_report st =
     (if st AND 0x7F = 0 then ExitCode (uint (drop_bit 8 st AND 0xFF))
      else if 0 < sint (ucast ((st AND 0x7F) + 1) :: 8 word) div 2 then Signaled (uint (st AND 0x7F))
      else if st AND 0xFF = 0x7F then Stopped (uint (drop_bit 8 st AND 0xFF))
      else InvalidStatus)"

text \<open>\<open>sprintf(counter_str, "STEP=%lu")\<close> into 64 bytes.\<close>

definition counter_text :: "uint64 \<Rightarrow> byte list" where
  "counter_text c = [83, 84, 69, 80, 61] @ decimal (unat c)"

definition counter_str :: "uint64 \<Rightarrow> byte list \<Rightarrow> c_error + byte list" where
  "counter_str c buf = mem_write buf 0 (counter_text c @ [0])"

text \<open>The rounds of \<open>main\<close>: \<open>waitpid\<close> fails (None) or gives a status; the result has the variable of each child.\<close>

fun timer_loop :: "32 word option list \<Rightarrow> uint64 \<Rightarrow> (byte list \<times> report) list" where
  "timer_loop [] c = []"
| "timer_loop (st # sts) c =
     (counter_text c, case st of None \<Rightarrow> WaitError | Some st \<Rightarrow> wait_report st) # timer_loop sts (c + 1)"

lemma counter_str_fits: "length buf = 64 \<Longrightarrow> \<exists>b. counter_str c buf = Inr b"
proof -
  assume buf: "length buf = 64"
  have "unat c < 2 ^ 64" using unat_less_2p[of c] by simp
  then have "unat c < 10 ^ Suc 19" by simp
  then have "length (decimal (unat c)) \<le> Suc 19" by (rule decimal_length)
  then show ?thesis using buf by (simp add: counter_str_def counter_text_def)
qed

lemma timer_loop_steps:
  "unat c + length sts < 2 ^ 64 \<Longrightarrow>
     List.map fst (timer_loop sts c) = List.map (\<lambda>i. [83, 84, 69, 80, 61] @ decimal (unat c + i)) [0..<length sts]"
proof (induction sts arbitrary: c)
  case (Cons st sts)
  then have "unat (c + 1) = unat c + 1" by (simp add: unat_add_fits)
  then have "List.map fst (timer_loop sts (c + 1)) =
      List.map (\<lambda>i. [83, 84, 69, 80, 61] @ decimal (unat c + i)) (List.map Suc [0..<length sts])"
    using Cons.IH[of "c + 1"] Cons.prems by simp
  then show ?case
    by (simp add: counter_text_def upt_conv_Cons[of 0 "Suc (length sts)"] map_Suc_upt del: upt_Suc)
qed simp

lemma and_masks: "st AND 0x7F = take_bit 7 st" "st AND 0xFF = take_bit 8 st" for st :: "32 word"
  by (simp_all add: take_bit_eq_mask mask_eq_exp_minus_1)

text \<open>The encodings of the manual page: exit code \<open>c\<close>, and death by signal \<open>s\<close>.\<close>

lemma wait_report_exit:
  assumes "c < 256"
  shows "wait_report (of_nat (256 * c)) = ExitCode (int c)"
proof -
  let ?st = "of_nat (256 * c) :: 32 word"
  have st: "unat ?st = 256 * c" using assms by (intro unat_of_nat_fits) simp
  have "unat (take_bit 7 ?st) = take_bit 7 (256 * c)" by (simp only: unsigned_take_bit_eq st)
  also have "\<dots> = 256 * c mod 128" by (simp add: take_bit_eq_mod)
  also have "256 * c mod 128 = 0" by presburger
  finally have "take_bit 7 ?st = 0" unfolding unat_eq_0 .
  moreover have "unat (take_bit 8 (drop_bit 8 ?st)) = take_bit 8 (drop_bit 8 (take_bit 32 (256 * c)))"
    by (simp only: unsigned_take_bit_eq unsigned_drop_bit_eq st) simp
  then have "unat (take_bit 8 (drop_bit 8 ?st)) = c" using assms by (simp add: drop_bit_eq_div take_bit_eq_mod)
  then have "uint (take_bit 8 (drop_bit 8 ?st)) = int c" by (metis uint_nat)
  ultimately show ?thesis by (simp only: wait_report_def and_masks if_True simp_thms)
qed

lemma wait_report_signal: "s \<in> {1, 2, 6, 9, 11, 15} \<Longrightarrow> wait_report (of_nat s) = Signaled (int s)"
  by (auto simp: wait_report_def)

text \<open>
  \<open>main\<close>: the arguments without the program's name, and the rounds.  A child whose \<open>execve\<close> fails returns
  -1, which its parent reports as a successful execution with code 255.
\<close>

datatype timer_result =
    TimerUsage
  | SecondsError
  | Rounds uint32 "(byte list \<times> report) list"  \<comment> \<open>seconds between them\<close>

definition timer_main :: "byte list list \<Rightarrow> 32 word option list \<Rightarrow> timer_result" where
  "timer_main args sts =
     (if length args + 1 < 3 then TimerUsage
      else case scan_unsigned (args ! 0) of
        None \<Rightarrow> SecondsError
      | Some seconds \<Rightarrow> Rounds seconds (timer_loop sts 0))"

lemma timer_main_rounds:
  assumes "n < 2 ^ 32" and "length sts < 2 ^ 64"
  shows "\<exists>rs. timer_main (decimal n # prog # args) sts = Rounds (of_nat n) rs \<and>
    List.map fst rs = List.map (\<lambda>i. [83, 84, 69, 80, 61] @ decimal i) [0..<length sts]"
  using scan_unsigned_decimal[OF assms(1), of "[]"] timer_loop_steps[of 0 sts] assms(2) by (simp add: timer_main_def)

lemma timer_failed_exec: "wait_report (of_nat (256 * 255)) = ExitCode 255"
  using wait_report_exit[of 255] by simp

subsection \<open>\<open>recursive-fork\<close>\<close>

datatype fork_line = NumberSep nat byte | ForkError

text \<open>The process that reached number \<open>i\<close>; after printing it forks, and its child goes on while it waits.\<close>

function fork_chain :: "(nat \<Rightarrow> bool) \<Rightarrow> nat \<Rightarrow> nat \<Rightarrow> fork_line list" where
  "fork_chain forks n i =
     (if i \<le> n
      then NumberSep i (if i \<noteq> n then 32 else 10) # (if forks i then fork_chain forks n (i + 1) else [ForkError])
      else [])"
  by pat_completeness auto
termination by (relation "measure (\<lambda>(forks, n, i). Suc n - i)") auto

declare fork_chain.simps [simp del]

lemma fork_chain_counts:
  "\<forall>i. forks i \<Longrightarrow> fork_chain forks n i = List.map (\<lambda>j. NumberSep j (if j \<noteq> n then 32 else 10)) [i..<Suc n]"
proof (induction "Suc n - i" arbitrary: i)
  case 0
  then show ?case by (subst fork_chain.simps) simp
next
  case (Suc k)
  then have "i \<le> n" by simp
  then show ?case using Suc by (subst fork_chain.simps) (simp add: upt_rec[of i] del: upt_Suc)
qed

text \<open>\<open>main\<close>: \<open>garbage\<close> is what \<open>n\<close> holds when \<open>scanf\<close> reads no number, which only is reported at the end of the input.\<close>

datatype chain_line = ScanfError | ChainLine fork_line

definition recursive_fork_main :: "int \<Rightarrow> int option \<Rightarrow> bool \<Rightarrow> (nat \<Rightarrow> bool) \<Rightarrow> chain_line list" where
  "recursive_fork_main garbage scanned at_end forks =
     (let n = (case scanned of Some n \<Rightarrow> n | None \<Rightarrow> garbage)
      in (if scanned = None \<and> at_end then [ScanfError] else []) @
           List.map ChainLine (if n < 1 then [] else fork_chain forks (nat n) 1))"

lemma recursive_fork_main_counts:
  "\<forall>i. forks i \<Longrightarrow> 1 \<le> n \<Longrightarrow> recursive_fork_main g (Some n) b forks =
     List.map (\<lambda>j. ChainLine (NumberSep j (if j \<noteq> nat n then 32 else 10))) [1..<Suc (nat n)]"
  by (simp add: recursive_fork_main_def fork_chain_counts del: upt_Suc)

subsection \<open>\<open>nonblocking\<close>\<close>

datatype read_line = Failure int | GotValue "32 word"

text \<open>The condition \<open>res == -1 || ENOBUFS\<close> tests a constant that is not zero.\<close>

definition ENOBUFS :: int where "ENOBUFS = 105"

fun child_loop :: "(int \<times> 32 word) list \<Rightarrow> read_line list" where
  "child_loop [] = []"
| "child_loop ((res, x) # rs) =
     (if res = 0 then []
      else (if res = -1 \<or> ENOBUFS \<noteq> 0 then Failure res else GotValue x) # child_loop rs)"

lemma child_never_shows_value: "GotValue x \<notin> set (child_loop rs)"
  by (induction rs rule: child_loop.induct) (auto simp: ENOBUFS_def)

text \<open>The parent: what \<open>scanf\<close> reads goes into the pipe; when it reads nothing, \<open>x\<close> has no value yet is written.\<close>

fun parent_loop :: "32 word option list \<Rightarrow> c_error + 32 word list" where
  "parent_loop [] = Inr []"
| "parent_loop (None # rs) = Inl UninitRead"
| "parent_loop (Some x # rs) = bindE (parent_loop rs) (\<lambda>out. Inr (x # out))"

lemma parent_forwards: "parent_loop (List.map Some xs) = Inr xs"
  by (induction xs) simp_all

lemma parent_end_of_input: "None \<in> set rs \<Longrightarrow> parent_loop rs = Inl UninitRead"
  by (induction rs rule: parent_loop.induct) auto

text \<open>
  \<open>main\<close> after \<open>fork\<close>: a \<open>pid\<close> that is not 0 runs the parent's loop, also when it is the -1 of a failure, which has been
  reported.
\<close>

datatype pipe_process = ParentRuns bool "c_error + 32 word list" | ChildRuns "read_line list"

definition nonblocking_main :: "int \<Rightarrow> 32 word option list \<Rightarrow> (int \<times> 32 word) list \<Rightarrow> pipe_process" where
  "nonblocking_main pid scanned reads =
     (if pid \<noteq> 0 then ParentRuns (pid = -1) (parent_loop scanned) else ChildRuns (child_loop reads))"

subsection \<open>\<open>recursive-fork2\<close>\<close>

datatype fork2_line = Fork2Error | Number int

text \<open>
  A process at the start of its loop: the numbers that \<open>scanf\<close> will read, and whether the \<open>fork\<close> calls succeed.  The child
  goes on with the rest of the input while its parent leaves the loop, waits for it and prints its number;
  without a child the parent waits for nobody.
\<close>

fun fork2_process :: "int list \<Rightarrow> bool list \<Rightarrow> fork2_line list" where
  "fork2_process (n # ns) (forked # fs) =
     (if forked then fork2_process ns fs @ [Number n] else [Fork2Error, Number n])"
| "fork2_process _ _ = []"

text \<open>\<open>main\<close> starts by replacing itself by \<open>ls\<close>; only if that fails does it come to the loop.\<close>

definition fork2_main :: "bool \<Rightarrow> int list \<Rightarrow> bool list \<Rightarrow> fork2_line list" where
  "fork2_main exec_works ns fs = (if exec_works then [] else fork2_process ns fs)"

text \<open>The processes print the numbers in reverse order; a fork that fails cuts the list off there.\<close>

lemma fork2_reverses: "fork2_process ns (replicate (length ns) True @ fs) = List.map Number (rev ns)"
  by (induction ns) (simp_all add: fork2_process.simps(2))

lemma fork2_cut:
  "fork2_process (ns @ n # ms) (replicate (length ns) True @ False # fs) = Fork2Error # Number n # List.map Number (rev ns)"
  by (induction ns) simp_all

subsection \<open>\<open>simple\<close>\<close>

datatype simple_line = ChildLine | ParentLine | SimpleError

text \<open>
  The rounds of one of the two processes with a fully buffered \<open>stdout\<close>: lines in the buffer, lines written.
  A \<open>fork\<close> that failed ends the loop, and \<open>exit\<close> writes the buffer.
\<close>

fun simple_loop :: "int \<Rightarrow> nat \<Rightarrow> size_t \<Rightarrow> simple_line list \<times> simple_line list \<Rightarrow> simple_line list \<times> simple_line list" where
  "simple_loop pid 0 counter (buf, out) = (buf, out)"
| "simple_loop pid (Suc k) counter (buf, out) =
     (let line = (if pid = 0 then ChildLine else if 0 < pid then ParentLine else SimpleError);
          buf = buf @ [line]; counter = counter + 1
      in if pid < 0 then ([], out @ buf)
         else if counter mod 5 = 0 then simple_loop pid k counter ([], out @ buf)
         else simple_loop pid k counter (buf, out))"

text \<open>Lines come out five at a time.\<close>

lemma simple_loop_lines:
  assumes "0 \<le> pid" and "c + k < 2 ^ 64" and "length buf = c mod 5" and "length out = 5 * (c div 5)"
  shows "case simple_loop pid k (of_nat c) (buf, out) of
    (buf', out') \<Rightarrow> length buf' = (c + k) mod 5 \<and> length out' = 5 * ((c + k) div 5)"
  using assms(2-)
proof (induction k arbitrary: c buf out)
  case (Suc k)
  have s: "(of_nat c + 1 :: size_t) = of_nat (Suc c)" by simp
  have "unat (of_nat (Suc c) :: size_t) = Suc c" using Suc.prems(1) by (intro unat_of_nat_fits) simp
  then have "unat ((of_nat (Suc c) :: size_t) mod 5) = Suc c mod 5" by (simp add: unat_mod)
  then have m: "(of_nat (Suc c) :: size_t) mod 5 = 0 \<longleftrightarrow> Suc c mod 5 = 0" by (metis unat_eq_0)
  let ?line = "if pid = 0 then ChildLine else if 0 < pid then ParentLine else SimpleError"
  show ?case
  proof (cases "Suc c mod 5 = 0")
    case True
    have "simple_loop pid (Suc k) (of_nat c) (buf, out) = simple_loop pid k (of_nat (Suc c)) ([], out @ buf @ [?line])"
      using assms(1) True m by (simp add: Let_def s del: of_nat_Suc)
    moreover have "Suc c div 5 = Suc (c div 5)" "c mod 5 = 4" using True by (auto simp: div_Suc mod_Suc split: if_splits)
    ultimately show ?thesis
      using Suc.IH[of "Suc c" "[]" "out @ buf @ [?line]"] Suc.prems True by (simp del: of_nat_Suc simple_loop.simps)
  next
    case False
    have "simple_loop pid (Suc k) (of_nat c) (buf, out) = simple_loop pid k (of_nat (Suc c)) (buf @ [?line], out)"
      using assms(1) False m by (simp add: Let_def s del: of_nat_Suc)
    moreover have "Suc c div 5 = c div 5" "Suc c mod 5 = Suc (c mod 5)" using False by (auto simp: div_Suc mod_Suc split: if_splits)
    ultimately show ?thesis
      using Suc.IH[of "Suc c" "buf @ [?line]" out] Suc.prems by (simp del: of_nat_Suc simple_loop.simps)
  qed
qed simp

end
