(* ===== verification/Signals.thy ===== *)
theory Signals
  imports Transition
begin

text \<open>
  \<open>src/signal/sigreader/sigreader.h\<close>: signals taken one at a time in \<open>sigsuspend\<close>.  Outside it they are
  blocked, so those sent meanwhile are pending, each at most once.  When \<open>sigsuspend\<close> unblocks them
  the handlers of all pending signals run before it returns, in an order that the kernel chooses.
  Then the two programs \<open>src/signal/sigterm_print/main.c\<close> and \<open>sigterm_print_naive/main.c\<close>, which report
  \<open>SIGTERM\<close> from their main loop, as step relations.
\<close>

subsection \<open>The signal reader\<close>

record reader =
  target_set :: "nat list"
  pending :: "nat list"      \<comment> \<open>blocked signals waiting for delivery\<close>
  sr_exists :: bool
  sr_last_signal :: nat

text \<open>\<open>sr_init\<close> and \<open>sr_acquire\<close>.\<close>

definition sr_acquire :: "nat list \<Rightarrow> reader" where
  "sr_acquire sigs = \<lparr>target_set = sigs, pending = [], sr_exists = False, sr_last_signal = 0\<rparr>"

definition sr_sighandler :: "nat \<Rightarrow> reader \<Rightarrow> reader" where
  "sr_sighandler sig r = r\<lparr>sr_exists := True, sr_last_signal := sig\<rparr>"

text \<open>A signal sent to the process between two reads.\<close>

definition send_signal :: "nat \<Rightarrow> reader \<Rightarrow> reader" where
  "send_signal sig r = (if sig \<in> set (target_set r) \<and> sig \<notin> set (pending r) then r\<lparr>pending := pending r @ [sig]\<rparr> else r)"

text \<open>\<open>order\<close> is the kernel's choice, a rearrangement of the pending signals.\<close>

definition sigsuspend :: "(nat list \<Rightarrow> nat list) \<Rightarrow> reader \<Rightarrow> reader" where
  "sigsuspend order r = fold sr_sighandler (order (pending r)) (r\<lparr>pending := []\<rparr>)"

text \<open>None: the call waits for a signal that has not come yet.\<close>

definition sr_read :: "(nat list \<Rightarrow> nat list) \<Rightarrow> reader \<Rightarrow> (nat \<times> reader) option" where
  "sr_read order r =
     (if \<not> sr_exists r \<and> pending r = [] then None
      else let r = (if \<not> sr_exists r then sigsuspend order r else r)
           in Some (sr_last_signal r, r\<lparr>sr_exists := False\<rparr>))"

definition permutes_list :: "(nat list \<Rightarrow> nat list) \<Rightarrow> bool" where
  "permutes_list order \<longleftrightarrow> (\<forall>xs. set (order xs) = set xs \<and> length (order xs) = length xs)"

lemma fold_handlers:
  "fold sr_sighandler xs r = (if xs = [] then r else r\<lparr>sr_exists := True, sr_last_signal := last xs\<rparr>)"
  by (induction xs arbitrary: r) (auto simp: sr_sighandler_def)

text \<open>
  A read returns one of the pending signals and forgets all of them: of several signals sent between two reads,
  all but one are lost, and the next read waits.
\<close>

lemma sr_read_one:
  assumes "permutes_list order" and "\<not> sr_exists r" and "pending r \<noteq> []"
  shows "\<exists>sig r'. sr_read order r = Some (sig, r') \<and> sig \<in> set (pending r) \<and> pending r' = [] \<and>
    \<not> sr_exists r' \<and> sr_read order r' = None"
proof -
  let ?o = "order (pending r)"
  have "set ?o = set (pending r)" using assms(1) by (simp add: permutes_list_def)
  moreover from this have "?o \<noteq> []" using assms(3) by (metis set_empty)
  ultimately have o: "?o \<noteq> []" "set ?o = set (pending r)" by simp_all
  then have "last ?o \<in> set (pending r)" using last_in_set[of ?o] by simp
  then show ?thesis using assms(2,3) o(1) by (simp add: sr_read_def sigsuspend_def fold_handlers)
qed

lemma send_signal_pending:
  "sig \<in> set (target_set r) \<Longrightarrow> set (pending (send_signal sig r)) = insert sig (set (pending r)) \<and>
     sr_exists (send_signal sig r) = sr_exists r"
  by (auto simp: send_signal_def)

lemma two_signals_one_read:
  assumes "permutes_list order"
  shows "\<exists>sig r'. sr_read order (send_signal 12 (send_signal 10 (sr_acquire [10, 12]))) = Some (sig, r') \<and>
    sig \<in> {10, 12} \<and> sr_read order r' = None"
proof -
  have "pending (send_signal 12 (send_signal 10 (sr_acquire [10, 12]))) = [10, 12]"
    and "\<not> sr_exists (send_signal 12 (send_signal 10 (sr_acquire [10, 12])))"
    by (simp_all add: send_signal_def sr_acquire_def)
  then show ?thesis using sr_read_one[OF assms, of "send_signal 12 (send_signal 10 (sr_acquire [10, 12]))"] by auto
qed

definition sr_release :: "(nat list \<Rightarrow> nat list) \<Rightarrow> reader \<Rightarrow> reader" where
  "sr_release order r = (sigsuspend order r)\<lparr>target_set := []\<rparr>"

text \<open>After a release no signal is held back or counted as the reader's any more.\<close>

lemma sr_release_spec:
  assumes "permutes_list order"
  shows "pending (sr_release order r) = [] \<and> send_signal sig (sr_release order r) = sr_release order r \<and>
    (sr_exists (sr_release order r) \<longleftrightarrow> sr_exists r \<or> pending r \<noteq> [])"
proof -
  have "order (pending r) = [] \<longleftrightarrow> pending r = []" using assms unfolding permutes_list_def by (metis length_0_conv)
  then show ?thesis by (simp add: sr_release_def sigsuspend_def fold_handlers send_signal_def)
qed

text \<open>
  \<open>main\<close>: reads \<open>SIGUSR1\<close> and \<open>SIGUSR2\<close> for ever and prints each.  A burst is what is sent while the
  program is not in \<open>sigsuspend\<close>, from one return of it to the next entry; an empty burst leaves it waiting.
\<close>

definition SIGUSR1 :: nat where "SIGUSR1 = 10"
definition SIGUSR2 :: nat where "SIGUSR2 = 12"

fun reader_loop :: "(nat list \<Rightarrow> nat list) \<Rightarrow> reader \<Rightarrow> nat list list \<Rightarrow> nat list" where
  "reader_loop order r [] = []"
| "reader_loop order r (burst # bursts) =
     (let r = fold send_signal burst r
      in case sr_read order r of
           None \<Rightarrow> reader_loop order r bursts
         | Some (sig, r) \<Rightarrow> sig # reader_loop order r bursts)"

definition sigreader_main :: "(nat list \<Rightarrow> nat list) \<Rightarrow> nat list list \<Rightarrow> nat list" where
  "sigreader_main order bursts = reader_loop order (sr_acquire [SIGUSR1, SIGUSR2]) bursts"

lemma send_signals:
  "target_set (fold send_signal burst r) = target_set r \<and> sr_exists (fold send_signal burst r) = sr_exists r \<and>
     set (pending (fold send_signal burst r)) = set (pending r) \<union> (set burst \<inter> set (target_set r))"
  by (induction burst arbitrary: r) (auto simp: send_signal_def)

lemma sr_read_target: "sr_read order r = Some (sig, r') \<Longrightarrow> target_set r' = target_set r"
  by (auto simp: sr_read_def sigsuspend_def fold_handlers Let_def split: if_splits)

text \<open>One line for each burst with one of the two signals in it, and that line is one of them; other signals are not read.\<close>

lemma reader_loop_lines:
  assumes "permutes_list order" and "\<not> sr_exists r" and "pending r = []"
  shows "list_all2 (\<lambda>sig burst. sig \<in> set burst \<inter> set (target_set r)) (reader_loop order r bursts)
     (filter (\<lambda>burst. set burst \<inter> set (target_set r) \<noteq> {}) bursts)"
  using assms(2,3)
proof (induction bursts arbitrary: r)
  case (Cons burst bursts)
  let ?r = "fold send_signal burst r"
  have p: "set (pending ?r) = set burst \<inter> set (target_set r)" and e: "\<not> sr_exists ?r"
    and t: "target_set ?r = target_set r"
    using send_signals[of burst r] Cons.prems by simp_all
  show ?case
  proof (cases "pending ?r = []")
    case True
    then have "sr_read order ?r = None" using e by (simp add: sr_read_def)
    moreover have "set burst \<inter> set (target_set r) = {}" using p True by simp
    ultimately show ?thesis using Cons.IH[OF e True] t by simp
  next
    case False
    then obtain sig r' where s: "sr_read order ?r = Some (sig, r')" "sig \<in> set (pending ?r)" "pending r' = []" "\<not> sr_exists r'"
      using sr_read_one[OF assms(1) e] by blast
    then show ?thesis using Cons.IH[OF s(4,3)] sr_read_target[OF s(1)] t p by auto
  qed
qed simp

lemma sigreader_main_lines:
  assumes "permutes_list order"
  shows "list_all2 (\<lambda>sig burst. sig \<in> set burst \<inter> {SIGUSR1, SIGUSR2}) (sigreader_main order bursts)
     (filter (\<lambda>burst. set burst \<inter> {SIGUSR1, SIGUSR2} \<noteq> {}) bursts)"
  using reader_loop_lines[OF assms, of "sr_acquire [SIGUSR1, SIGUSR2]" bursts]
  by (simp add: sigreader_main_def sr_acquire_def)

subsection \<open>\<open>sigterm_print\<close> and \<open>sigterm_print_naive\<close>\<close>

text \<open>
  \<open>unreported\<close> is a ghost: a signal has been sent since the program last printed \<open>received\<close>.  In the first
  program the signal is blocked except in \<open>sigsuspend\<close>, in the second the handler may run at any point.
\<close>

datatype term_pc = Suspend | TestFlag | ClearFlag | PrintReceived | SleepFive

record term_state =
  term_pending :: bool
  flag :: bool           \<comment> \<open>the variable \<open>received\<close>\<close>
  term_at :: term_pc
  unreported :: bool

definition term_init :: "term_pc \<Rightarrow> term_state \<Rightarrow> bool" where
  "term_init c s \<longleftrightarrow> s = \<lparr>term_pending = False, flag = False, term_at = c, unreported = False\<rparr>"

text \<open>The part of the loop that both programs share; \<open>again\<close> is the control point at its start.\<close>

inductive report_step :: "term_pc \<Rightarrow> term_state \<Rightarrow> term_state \<Rightarrow> bool" for again where
  test: "term_at s = TestFlag \<Longrightarrow> report_step again s (s\<lparr>term_at := if flag s then ClearFlag else again\<rparr>)"
| clear: "term_at s = ClearFlag \<Longrightarrow> report_step again s (s\<lparr>flag := False, term_at := PrintReceived\<rparr>)"
| print: "term_at s = PrintReceived \<Longrightarrow> report_step again s (s\<lparr>unreported := term_pending s \<or> flag s, term_at := SleepFive\<rparr>)"
| wake: "term_at s = SleepFive \<Longrightarrow> report_step again s (s\<lparr>term_at := again\<rparr>)"

inductive sigterm_step :: "term_state \<Rightarrow> term_state \<Rightarrow> bool" where
  sent: "sigterm_step s (s\<lparr>term_pending := True, unreported := True\<rparr>)"
| delivered: "term_at s = Suspend \<Longrightarrow> term_pending s \<Longrightarrow>
    sigterm_step s (s\<lparr>term_pending := False, flag := True, term_at := TestFlag\<rparr>)"
| program: "report_step Suspend s t \<Longrightarrow> sigterm_step s t"

inductive naive_step :: "term_state \<Rightarrow> term_state \<Rightarrow> bool" where
  naive_sent: "naive_step s (s\<lparr>term_pending := True, unreported := True\<rparr>)"
| naive_delivered: "term_pending s \<Longrightarrow> naive_step s (s\<lparr>term_pending := False, flag := True\<rparr>)"
| naive_program: "report_step TestFlag s t \<Longrightarrow> naive_step s t"

text \<open>A signal that has not been reported is still on its way: pending, noted in \<open>received\<close>, or about to be printed.\<close>

definition term_inv :: "term_state \<Rightarrow> bool" where
  "term_inv s \<longleftrightarrow> (unreported s \<longrightarrow> term_pending s \<or> flag s \<or> term_at s = PrintReceived)"

lemma report_inv: "term_inv s \<Longrightarrow> report_step c s t \<Longrightarrow> term_inv t"
  by (erule report_step.cases) (auto simp: term_inv_def)

interpretation sigterm: transition_system "term_init Suspend" sigterm_step term_inv
proof
  show "term_inv t" if "term_inv s" "sigterm_step s t" for s t
    using that(2,1) by cases (auto simp: term_inv_def report_inv[unfolded term_inv_def])
qed (simp add: term_init_def term_inv_def)

interpretation naive: transition_system "term_init TestFlag" naive_step term_inv
proof
  show "term_inv t" if "term_inv s" "naive_step s t" for s t
    using that(2,1) by cases (auto simp: term_inv_def report_inv[unfolded term_inv_def])
qed (simp add: term_init_def term_inv_def)

end
