(* ===== verification/Semaphore.thy ===== *)
theory Semaphore
  imports Transition "HOL-Library.Sublist"
begin

text \<open>
  \<open>src/cppthread/thread/main.cpp\<close>, the counting \<open>Semaphore\<close> made of a mutex and a condition variable: any number of
  threads with any sequences of operations, one access to a shared object per step, and the function
  \<open>run_semaphore\<close> that \<open>main\<close> calls.
\<close>

subsection \<open>The threads and their steps\<close>

text \<open>
  A thread is a list of operations still to do, the first of them in progress.  \<open>StartThread\<close> and \<open>JoinThread\<close> are
  the constructor and \<open>join\<close> of \<open>std::thread\<close>, \<open>PrintOk\<close> the line that \<open>run_semaphore\<close> writes.
\<close>

datatype sem_op = AcquireSem | ReleaseSem | StartThread nat | PrintOk | JoinThread nat

datatype sem_pc =
    NotStarted
  | Ready                                            \<comment> \<open>at the start of the next operation\<close>
  | TestCounter | Waiting | Relocking | AcquireUnlock  \<comment> \<open>in \<open>acquire\<close>\<close>
  | Increment | Notify | ReleaseUnlock                 \<comment> \<open>in \<open>release\<close>\<close>

type_synonym thread = "sem_pc \<times> sem_op list"

record semaphore =
  counter :: size_t
  sem_mutex :: "nat option"
  threads :: "nat \<Rightarrow> thread"
  oks :: nat  \<comment> \<open>lines printed\<close>

definition at_op :: "semaphore \<Rightarrow> nat \<Rightarrow> sem_pc \<Rightarrow> sem_op \<Rightarrow> sem_op list \<Rightarrow> bool" where
  "at_op s p c a r \<longleftrightarrow> threads s p = (c, a # r)"

definition move :: "semaphore \<Rightarrow> nat \<Rightarrow> sem_pc \<Rightarrow> sem_op list \<Rightarrow> semaphore" where
  "move s p c ops = s\<lparr>threads := (threads s)(p := (c, ops))\<rparr>"

text \<open>
  One access to a shared object per step, by one of \<open>n\<close> threads.  \<open>spurious\<close>: whether \<open>cond_.wait\<close> may
  return without a notification, as the standard allows.
\<close>

inductive sem_step :: "bool \<Rightarrow> nat \<Rightarrow> semaphore \<Rightarrow> semaphore \<Rightarrow> bool" for spurious n where
  acquire_lock: "p < n \<Longrightarrow> at_op s p Ready AcquireSem r \<Longrightarrow> sem_mutex s = None \<Longrightarrow>
    sem_step spurious n s (move (s\<lparr>sem_mutex := Some p\<rparr>) p TestCounter (AcquireSem # r))"
| cond_wait: "p < n \<Longrightarrow> at_op s p TestCounter AcquireSem r \<Longrightarrow> counter s = 0 \<Longrightarrow>
    sem_step spurious n s (move (s\<lparr>sem_mutex := None\<rparr>) p Waiting (AcquireSem # r))"
| spurious_wakeup: "p < n \<Longrightarrow> at_op s p Waiting AcquireSem r \<Longrightarrow> spurious \<Longrightarrow>
    sem_step spurious n s (move s p Relocking (AcquireSem # r))"
| wait_relock: "p < n \<Longrightarrow> at_op s p Relocking AcquireSem r \<Longrightarrow> sem_mutex s = None \<Longrightarrow>
    sem_step spurious n s (move (s\<lparr>sem_mutex := Some p\<rparr>) p TestCounter (AcquireSem # r))"
| decrement: "p < n \<Longrightarrow> at_op s p TestCounter AcquireSem r \<Longrightarrow> counter s \<noteq> 0 \<Longrightarrow>
    sem_step spurious n s (move (s\<lparr>counter := counter s - 1\<rparr>) p AcquireUnlock (AcquireSem # r))"
| acquire_unlock: "p < n \<Longrightarrow> at_op s p AcquireUnlock AcquireSem r \<Longrightarrow>
    sem_step spurious n s (move (s\<lparr>sem_mutex := None\<rparr>) p Ready r)"
| release_lock: "p < n \<Longrightarrow> at_op s p Ready ReleaseSem r \<Longrightarrow> sem_mutex s = None \<Longrightarrow>
    sem_step spurious n s (move (s\<lparr>sem_mutex := Some p\<rparr>) p Increment (ReleaseSem # r))"
| increment: "p < n \<Longrightarrow> at_op s p Increment ReleaseSem r \<Longrightarrow>
    sem_step spurious n s (move (s\<lparr>counter := counter s + 1\<rparr>) p Notify (ReleaseSem # r))"
| notify_one: "p < n \<Longrightarrow> q < n \<Longrightarrow> at_op s p Notify ReleaseSem r \<Longrightarrow> at_op s q Waiting AcquireSem r' \<Longrightarrow>
    sem_step spurious n s (move (move s q Relocking (AcquireSem # r')) p ReleaseUnlock (ReleaseSem # r))"
| notify_none: "p < n \<Longrightarrow> at_op s p Notify ReleaseSem r \<Longrightarrow> \<forall>q<n. fst (threads s q) \<noteq> Waiting \<Longrightarrow>
    sem_step spurious n s (move s p ReleaseUnlock (ReleaseSem # r))"
| release_unlock: "p < n \<Longrightarrow> at_op s p ReleaseUnlock ReleaseSem r \<Longrightarrow>
    sem_step spurious n s (move (s\<lparr>sem_mutex := None\<rparr>) p Ready r)"
| start_thread: "p < n \<Longrightarrow> q < n \<Longrightarrow> at_op s p Ready (StartThread q) r \<Longrightarrow> threads s q = (NotStarted, ops) \<Longrightarrow>
    sem_step spurious n s (move (move s q Ready ops) p Ready r)"
| print_ok: "p < n \<Longrightarrow> at_op s p Ready PrintOk r \<Longrightarrow>
    sem_step spurious n s (move (s\<lparr>oks := oks s + 1\<rparr>) p Ready r)"
| join_thread: "p < n \<Longrightarrow> at_op s p Ready (JoinThread q) r \<Longrightarrow> threads s q = (Ready, []) \<Longrightarrow>
    sem_step spurious n s (move s p Ready r)"

text \<open>
  The start: \<open>n\<close> threads with their programs, those that some program starts not running yet.
\<close>

definition releases_in :: "sem_op list \<Rightarrow> nat" where
  "releases_in ops = count_list ops ReleaseSem"

definition acquires_in :: "sem_op list \<Rightarrow> nat" where
  "acquires_in ops = count_list ops AcquireSem"

definition sem_init :: "nat \<Rightarrow> (nat \<Rightarrow> thread) \<Rightarrow> nat \<Rightarrow> semaphore \<Rightarrow> bool" where
  "sem_init n ts initial s \<longleftrightarrow>
     initial + (\<Sum>q<n. releases_in (snd (ts q))) < 2 ^ 64 \<and> (\<forall>q<n. fst (ts q) \<in> {Ready, NotStarted}) \<and>
     s = \<lparr>counter = of_nat initial, sem_mutex = None, threads = ts, oks = 0\<rparr>"

text \<open>What a thread still has to do: releases not yet counted, acquires not yet granted.\<close>

fun releases_left :: "thread \<Rightarrow> nat" where
  "releases_left (c, ops) = releases_in ops - (if c = Notify \<or> c = ReleaseUnlock then 1 else 0)"

fun acquires_left :: "thread \<Rightarrow> nat" where
  "acquires_left (c, ops) = acquires_in ops - (if c = AcquireUnlock then 1 else 0)"

definition released :: "nat \<Rightarrow> (nat \<Rightarrow> thread) \<Rightarrow> semaphore \<Rightarrow> nat" where
  "released n ts s = (\<Sum>q<n. releases_in (snd (ts q))) - (\<Sum>q<n. releases_left (threads s q))"

definition acquired :: "nat \<Rightarrow> (nat \<Rightarrow> thread) \<Rightarrow> semaphore \<Rightarrow> nat" where
  "acquired n ts s = (\<Sum>q<n. acquires_in (snd (ts q))) - (\<Sum>q<n. acquires_left (threads s q))"

subsection \<open>The invariant\<close>

fun well_placed :: "thread \<Rightarrow> bool" where
  "well_placed (NotStarted, ops) \<longleftrightarrow> True"
| "well_placed (Ready, ops) \<longleftrightarrow> True"
| "well_placed (Increment, ops) \<longleftrightarrow> ops \<noteq> [] \<and> hd ops = ReleaseSem"
| "well_placed (Notify, ops) \<longleftrightarrow> ops \<noteq> [] \<and> hd ops = ReleaseSem"
| "well_placed (ReleaseUnlock, ops) \<longleftrightarrow> ops \<noteq> [] \<and> hd ops = ReleaseSem"
| "well_placed (_, ops) \<longleftrightarrow> ops \<noteq> [] \<and> hd ops = AcquireSem"

definition holds_mutex :: "sem_pc \<Rightarrow> bool" where
  "holds_mutex c \<longleftrightarrow> c \<in> {TestCounter, AcquireUnlock, Increment, Notify, ReleaseUnlock}"

text \<open>A thread that will look at the counter, or notify one that will.\<close>

fun will_look :: "thread \<Rightarrow> nat" where
  "will_look (c, ops) = of_bool (c \<in> {TestCounter, Relocking, Notify})"

definition over_threads :: "nat \<Rightarrow> (thread \<Rightarrow> nat) \<Rightarrow> semaphore \<Rightarrow> nat" where
  "over_threads n w s = (\<Sum>q<n. w (threads s q))"

definition threads_ok :: "nat \<Rightarrow> (nat \<Rightarrow> thread) \<Rightarrow> semaphore \<Rightarrow> bool" where
  "threads_ok n ts s \<longleftrightarrow>
     (\<forall>q<n. well_placed (threads s q) \<and> suffix (snd (threads s q)) (snd (ts q)) \<and>
        (sem_mutex s = Some q \<longleftrightarrow> holds_mutex (fst (threads s q)))) \<and>
     (\<forall>q. sem_mutex s = Some q \<longrightarrow> q < n)"

definition counted :: "nat \<Rightarrow> nat \<Rightarrow> nat \<Rightarrow> semaphore \<Rightarrow> bool" where
  "counted n given asked s \<longleftrightarrow>
     unat (counter s) + over_threads n releases_left s + asked = given + over_threads n acquires_left s"

definition woken :: "nat \<Rightarrow> semaphore \<Rightarrow> bool" where
  "woken n s \<longleftrightarrow> (\<exists>q<n. fst (threads s q) = Waiting) \<longrightarrow> unat (counter s) \<le> over_threads n will_look s"

definition sem_inv :: "nat \<Rightarrow> (nat \<Rightarrow> thread) \<Rightarrow> nat \<Rightarrow> semaphore \<Rightarrow> bool" where
  "sem_inv n ts initial s \<longleftrightarrow>
     threads_ok n ts s \<and> woken n s \<and> initial + (\<Sum>q<n. releases_in (snd (ts q))) < 2 ^ 64 \<and>
     counted n (initial + (\<Sum>q<n. releases_in (snd (ts q)))) (\<Sum>q<n. acquires_in (snd (ts q))) s"

lemma move_simps [simp]:
  "threads (move s p c ops) = (threads s)(p := (c, ops))" "counter (move s p c ops) = counter s"
  "sem_mutex (move s p c ops) = sem_mutex s" "oks (move s p c ops) = oks s"
  by (simp_all add: move_def)

lemma in_cons [simp]:
  "releases_in (a # r) = of_bool (a = ReleaseSem) + releases_in r"
  "acquires_in (a # r) = of_bool (a = AcquireSem) + acquires_in r"
  "releases_in [] = 0" "acquires_in [] = 0"
  by (simp_all add: releases_in_def acquires_in_def)

lemma over_threads_upd:
  "p < n \<Longrightarrow> threads t = (threads s)(p := x) \<Longrightarrow>
     over_threads n w t + w (threads s p) = over_threads n w s + w x"
  unfolding over_threads_def using sum_thread_upd[of p n w "threads s" x] by simp

lemma counted_upd:
  assumes "counted n g a s" and "p < n" and "threads t = (threads s)(p := x)"
    and "unat (counter t) + releases_left x + acquires_left (threads s p) =
      unat (counter s) + releases_left (threads s p) + acquires_left x"
  shows "counted n g a t"
  using assms(1,4) over_threads_upd[OF assms(2,3), of releases_left] over_threads_upd[OF assms(2,3), of acquires_left]
  unfolding counted_def by linarith

lemma woken_upd:
  assumes "woken n s" and "p < n" and "threads t = (threads s)(p := x)"
    and "fst x = Waiting \<Longrightarrow> counter t = 0"
    and "counter t \<noteq> 0 \<Longrightarrow> unat (counter t) + will_look (threads s p) \<le> unat (counter s) + will_look x"
  shows "woken n t"
proof (cases "counter t = 0")
  case False
  then have x: "fst x \<noteq> Waiting" using assms(4) by blast
  show ?thesis
    unfolding woken_def
  proof
    assume "\<exists>q<n. fst (threads t q) = Waiting"
    then have "\<exists>q<n. fst (threads s q) = Waiting" using assms(3) x by (auto split: if_splits)
    then have "unat (counter s) \<le> over_threads n will_look s" using assms(1) by (simp add: woken_def)
    then show "unat (counter t) \<le> over_threads n will_look t"
      using assms(5)[OF False] over_threads_upd[OF assms(2,3), of will_look] by linarith
  qed
qed (simp add: woken_def)

lemma threads_ok_upd:
  assumes "threads_ok n ts s" and "p < n" and "threads t = (threads s)(p := x)"
    and "well_placed x" and "suffix (snd x) (snd (threads s p))"
    and "sem_mutex t = sem_mutex s \<and> holds_mutex (fst x) = holds_mutex (fst (threads s p)) \<or>
      sem_mutex s = None \<and> sem_mutex t = Some p \<and> holds_mutex (fst x) \<or>
      holds_mutex (fst (threads s p)) \<and> sem_mutex t = None \<and> \<not> holds_mutex (fst x)"
  shows "threads_ok n ts t"
proof -
  have "suffix (snd x) (snd (ts p))"
    using assms(1,2,5) unfolding threads_ok_def by (blast intro: suffix_order.trans)
  moreover have "sem_mutex t = Some q \<longleftrightarrow> holds_mutex (fst (threads t q))" if "q < n" for q
  proof -
    have "holds_mutex (fst (threads s q)) \<longleftrightarrow> sem_mutex s = Some q" if "q < n" for q
      using assms(1) that by (simp add: threads_ok_def)
    note m = this
    show ?thesis
    proof (cases "q = p")
      case True
      then show ?thesis using assms(3,6) m[OF that] by auto
    next
      case False
      then show ?thesis using assms(3,6) m[OF that] m[OF assms(2)] by auto
    qed
  qed
  moreover have "sem_mutex s = Some q \<Longrightarrow> q < n" for q using assms(1) by (simp add: threads_ok_def)
  then have "sem_mutex t = Some q \<Longrightarrow> q < n" for q using assms(2,6) by auto
  moreover have "well_placed (threads t q) \<and> suffix (snd (threads t q)) (snd (ts q))" if "q < n" for q
    using assms(1,3,4) that calculation(1) by (cases "q = p") (simp_all add: threads_ok_def)
  ultimately show ?thesis unfolding threads_ok_def by blast
qed

text \<open>Counting up never wraps: a release in progress has not been counted.\<close>

lemma left_within:
  assumes "threads_ok n ts s"
  shows "over_threads n acquires_left s \<le> (\<Sum>q<n. acquires_in (snd (ts q)))"
    and "over_threads n releases_left s \<le> (\<Sum>q<n. releases_in (snd (ts q)))"
proof -
  have "acquires_left (threads s q) \<le> acquires_in (snd (ts q)) \<and> releases_left (threads s q) \<le> releases_in (snd (ts q))"
    if "q < n" for q
  proof -
    have "suffix (snd (threads s q)) (snd (ts q))" using assms(1) that by (simp add: threads_ok_def)
    then have "acquires_in (snd (threads s q)) \<le> acquires_in (snd (ts q)) \<and>
        releases_in (snd (threads s q)) \<le> releases_in (snd (ts q))"
      by (auto simp: suffix_def acquires_in_def releases_in_def)
    then show ?thesis by (cases "threads s q") auto
  qed
  note le = this
  show "over_threads n acquires_left s \<le> (\<Sum>q<n. acquires_in (snd (ts q)))"
    "over_threads n releases_left s \<le> (\<Sum>q<n. releases_in (snd (ts q)))"
    unfolding over_threads_def by (intro sum_mono; use le in auto)+
qed

lemma increment_fits:
  assumes "sem_inv n ts i s" and "p < n" and "0 < releases_left (threads s p)"
  shows "unat (counter s + 1) = unat (counter s) + 1"
proof -
  have "over_threads n acquires_left s \<le> (\<Sum>q<n. acquires_in (snd (ts q)))"
    using assms(1) by (intro left_within) (simp add: sem_inv_def)
  moreover have "releases_left (threads s p) \<le> over_threads n releases_left s"
    unfolding over_threads_def using assms(2) by (intro member_le_sum) auto
  ultimately have "unat (counter s) + 1 < 2 ^ 64" using assms(1,3) unfolding sem_inv_def counted_def by linarith
  then show ?thesis using unat_add_fits[of "counter s" 1] by simp
qed

text \<open>The three parts together, for a step of one thread.\<close>

lemma sem_inv_upd:
  assumes "sem_inv n ts i s" and "p < n" and "threads t = (threads s)(p := x)"
    and "well_placed x" and "suffix (snd x) (snd (threads s p))"
    and "sem_mutex t = sem_mutex s \<and> holds_mutex (fst x) = holds_mutex (fst (threads s p)) \<or>
      sem_mutex s = None \<and> sem_mutex t = Some p \<and> holds_mutex (fst x) \<or>
      holds_mutex (fst (threads s p)) \<and> sem_mutex t = None \<and> \<not> holds_mutex (fst x)"
    and "unat (counter t) + releases_left x + acquires_left (threads s p) =
      unat (counter s) + releases_left (threads s p) + acquires_left x"
    and "fst x = Waiting \<Longrightarrow> counter t = 0"
    and "counter t \<noteq> 0 \<Longrightarrow> unat (counter t) + will_look (threads s p) \<le> unat (counter s) + will_look x"
  shows "sem_inv n ts i t"
  using assms(1) threads_ok_upd[OF _ assms(2,3,4,5,6)] counted_upd[OF _ assms(2,3,7)]
    woken_upd[OF _ assms(2,3,8,9)]
  by (auto simp: sem_inv_def)

lemma sem_inv_move:
  assumes "sem_inv n ts i s" and "p < n" and at: "at_op s p c a r" and "threads u = threads s"
    and "well_placed (c', ops)" and "suffix ops (a # r)"
    and "sem_mutex u = sem_mutex s \<and> holds_mutex c' = holds_mutex c \<or>
      sem_mutex s = None \<and> sem_mutex u = Some p \<and> holds_mutex c' \<or>
      holds_mutex c \<and> sem_mutex u = None \<and> \<not> holds_mutex c'"
    and "unat (counter u) + releases_left (c', ops) + acquires_left (c, a # r) =
      unat (counter s) + releases_left (c, a # r) + acquires_left (c', ops)"
    and "c' = Waiting \<Longrightarrow> counter u = 0"
    and "counter u \<noteq> 0 \<Longrightarrow> unat (counter u) + will_look (c, a # r) \<le> unat (counter s) + will_look (c', ops)"
  shows "sem_inv n ts i (move u p c' ops)"
  by (rule sem_inv_upd[OF assms(1,2), of _ "(c', ops)"]) (use assms in \<open>auto simp: at_op_def\<close>)

lemma unat_pred: "c \<noteq> 0 \<Longrightarrow> unat (c - 1) + 1 = unat c" for c :: size_t
  by (simp add: unat_minus_one unat_gt_0)

lemma sem_inv_after_notify:
  assumes "sem_inv n ts i u" and "p < n" and "at_op u p Notify ReleaseSem r"
    and "woken n (move u p ReleaseUnlock (ReleaseSem # r))"
  shows "sem_inv n ts i (move u p ReleaseUnlock (ReleaseSem # r))"
proof -
  let ?t = "move u p ReleaseUnlock (ReleaseSem # r)"
  have "threads_ok n ts ?t"
    by (rule threads_ok_upd[of n ts u p _ "(ReleaseUnlock, ReleaseSem # r)"])
      (use assms in \<open>auto simp: at_op_def sem_inv_def holds_mutex_def\<close>)
  moreover have "counted n g a ?t" if "counted n g a u" for g a
    by (rule counted_upd[OF that assms(2)]) (use assms(3) in \<open>auto simp: at_op_def\<close>)
  ultimately show ?thesis using assms(1,4) by (simp add: sem_inv_def)
qed

lemma sem_inv_notify:
  assumes inv: "sem_inv n ts i s" and pq: "p < n" "q < n"
    and at: "at_op s p Notify ReleaseSem r" "at_op s q Waiting AcquireSem r'"
  shows "sem_inv n ts i (move (move s q Relocking (AcquireSem # r')) p ReleaseUnlock (ReleaseSem # r))"
proof -
  let ?u = "move s q Relocking (AcquireSem # r')"
  let ?t = "move ?u p ReleaseUnlock (ReleaseSem # r)"
  have ne: "p \<noteq> q" using at by (auto simp: at_op_def)
  have u: "sem_inv n ts i ?u"
    by (rule sem_inv_upd[OF inv pq(2)]) (use at in \<open>auto simp: at_op_def holds_mutex_def\<close>)
  have "over_threads n will_look ?t = over_threads n will_look s"
    using over_threads_upd[OF pq(2), of ?u s "(Relocking, AcquireSem # r')" will_look]
      over_threads_upd[OF pq(1), of ?t ?u "(ReleaseUnlock, ReleaseSem # r)" will_look] at ne by (simp add: at_op_def)
  moreover have "unat (counter s) \<le> over_threads n will_look s"
    using inv pq at(2) by (auto simp: sem_inv_def woken_def at_op_def)
  ultimately have "woken n ?t" by (simp add: woken_def)
  then show ?thesis using sem_inv_after_notify[OF u pq(1), of r] at(1) ne by (simp add: at_op_def)
qed

lemma sem_inv_step:
  assumes inv: "sem_inv n ts i s" and st: "sem_step sp n s t"
  shows "sem_inv n ts i t"
  using st
proof cases
  case (decrement p r)
  show ?thesis unfolding decrement(1)
    by (rule sem_inv_move[OF inv decrement(2,3)])
      (use unat_pred[OF decrement(4)] in \<open>auto simp: holds_mutex_def\<close>)
next
  case (increment p r)
  have "unat (counter s + 1) = unat (counter s) + 1"
    by (rule increment_fits[OF inv increment(2)]) (use increment in \<open>simp add: at_op_def\<close>)
  then show ?thesis unfolding increment(1)
    by (intro sem_inv_move[OF inv increment(2,3)]) (auto simp: holds_mutex_def)
next
  case (notify_one p q r r')
  then show ?thesis using sem_inv_notify[OF inv] by simp
next
  case (notify_none p r)
  then have "woken n (move s p ReleaseUnlock (ReleaseSem # r))" by (auto simp: woken_def)
  then show ?thesis using sem_inv_after_notify[OF inv] notify_none by simp
next
  case (start_thread p q r ops)
  let ?u = "move s q Ready ops"
  have ne: "p \<noteq> q" using start_thread by (auto simp: at_op_def)
  have u: "sem_inv n ts i ?u"
    by (rule sem_inv_upd[OF inv start_thread(3), of _ "(Ready, ops)"]) (use start_thread in \<open>auto simp: holds_mutex_def\<close>)
  show ?thesis unfolding start_thread(1)
    by (rule sem_inv_move[OF u start_thread(2), of Ready "StartThread q" r])
      (use start_thread ne in \<open>auto simp: at_op_def holds_mutex_def suffix_ConsI\<close>)
qed (simp_all only:, ((rule sem_inv_move[OF inv], assumption, assumption); (auto simp: holds_mutex_def suffix_ConsI)?)+)

subsection \<open>Termination and what a halted execution looks like\<close>

fun op_work :: "sem_op \<Rightarrow> nat" where
  "op_work AcquireSem = 3"
| "op_work ReleaseSem = 6"
| "op_work _ = 1"

fun sem_work :: "thread \<Rightarrow> nat" where
  "sem_work (c, ops) = (case c of
       NotStarted \<Rightarrow> sum_list (map op_work ops)
     | Ready \<Rightarrow> sum_list (map op_work ops)
     | TestCounter \<Rightarrow> 2 + sum_list (map op_work (tl ops))
     | Waiting \<Rightarrow> 1 + sum_list (map op_work (tl ops))
     | Relocking \<Rightarrow> 3 + sum_list (map op_work (tl ops))
     | AcquireUnlock \<Rightarrow> 1 + sum_list (map op_work (tl ops))
     | Increment \<Rightarrow> 5 + sum_list (map op_work (tl ops))
     | Notify \<Rightarrow> 4 + sum_list (map op_work (tl ops))
     | ReleaseUnlock \<Rightarrow> 1 + sum_list (map op_work (tl ops)))"

definition sem_mu :: "nat \<Rightarrow> semaphore \<Rightarrow> nat" where
  "sem_mu n s = over_threads n sem_work s"

lemma sem_mu_move:
  "p < n \<Longrightarrow> threads u = threads s \<Longrightarrow>
     sem_mu n (move u p c ops) + sem_work (threads s p) = sem_mu n s + sem_work (c, ops)"
  unfolding sem_mu_def by (rule over_threads_upd) simp_all

lemma sem_mu_move_less:
  assumes "p < n" and "at_op s p c a r" and "threads u = threads s" and "sem_work (c', ops) < sem_work (c, a # r)"
  shows "sem_mu n (move u p c' ops) < sem_mu n s"
  using assms sem_mu_move[OF assms(1,3), of c' ops] by (simp add: at_op_def)

lemma sem_mu_step:
  assumes "sem_step False n s t"
  shows "sem_mu n t < sem_mu n s"
  using assms
proof cases
  case (notify_one p q r r')
  let ?u = "move s q Relocking (AcquireSem # r')"
  have ne: "p \<noteq> q" using notify_one by (auto simp: at_op_def)
  have "sem_mu n ?u = sem_mu n s + 2"
    using sem_mu_move[OF notify_one(3), of s s Relocking "AcquireSem # r'"] notify_one by (simp add: at_op_def)
  moreover have "sem_mu n t + 4 = sem_mu n ?u + 1"
    using sem_mu_move[OF notify_one(2), of ?u ?u ReleaseUnlock "ReleaseSem # r"] notify_one ne by (simp add: at_op_def)
  ultimately show ?thesis by simp
next
  case (start_thread p q r ops)
  let ?u = "move s q Ready ops"
  have ne: "p \<noteq> q" using start_thread by (auto simp: at_op_def)
  have "sem_mu n ?u = sem_mu n s"
    using sem_mu_move[OF start_thread(3), of s s Ready ops] start_thread by simp
  moreover have "sem_mu n t + 1 = sem_mu n ?u"
    using sem_mu_move[OF start_thread(2), of ?u ?u Ready r] start_thread ne by (simp add: at_op_def)
  ultimately show ?thesis by simp
qed (simp_all only:, ((rule sem_mu_move_less, assumption, assumption); simp)+)

lemma sem_inv_init: "sem_init n ts i s \<Longrightarrow> sem_inv n ts i s"
proof -
  assume s: "sem_init n ts i s"
  then have i: "unat (of_nat i :: size_t) = i" by (intro unat_of_nat_fits) (simp add: sem_init_def)
  have pc: "fst (ts q) = Ready \<or> fst (ts q) = NotStarted" if "q < n" for q using s that by (auto simp: sem_init_def)
  have "well_placed (ts q)" "\<not> holds_mutex (fst (ts q))" "fst (ts q) \<noteq> Waiting"
    "releases_left (ts q) = releases_in (snd (ts q))" "acquires_left (ts q) = acquires_in (snd (ts q))" if "q < n" for q
    using pc[OF that] by (cases "ts q"; auto simp: holds_mutex_def)+
  then show ?thesis
    using s i by (auto simp: sem_init_def sem_inv_def threads_ok_def counted_def woken_def over_threads_def)
qed

interpretation sem: transition_system "sem_init n ts i" "sem_step sp n" "sem_inv n ts i" for n ts i sp
  by unfold_locales (auto intro: sem_inv_init sem_inv_step)

interpretation sem_notified: terminating_system "sem_init n ts i" "sem_step False n" "sem_inv n ts i" "sem_mu n" for n ts i
  by unfold_locales (rule sem_mu_step)

lemma mutex_free_if_stuck:
  assumes ok: "threads_ok n ts s" and st: "stuck (sem_step sp n) s"
  shows "sem_mutex s = None"
proof (rule ccontr)
  assume "sem_mutex s \<noteq> None"
  then obtain p where p: "p < n" "holds_mutex (fst (threads s p))"
    using ok by (auto simp: threads_ok_def)
  obtain c ops where th: "threads s p = (c, ops)" by fastforce
  have "well_placed (c, ops)" using ok p th by (metis threads_ok_def)
  then obtain r where at: "at_op s p c (if c = TestCounter \<or> c = AcquireUnlock then AcquireSem else ReleaseSem) r"
    using p th by (cases ops) (auto simp: holds_mutex_def at_op_def)
  have no: "\<not> sem_step sp n s t" for t using st by (simp add: stuck_def)
  consider "c = TestCounter" | "c = AcquireUnlock" | "c = Increment" | "c = Notify" | "c = ReleaseUnlock"
    using p th by (auto simp: holds_mutex_def)
  then show False
  proof cases
    case 1
    then show ?thesis using at no cond_wait[OF p(1), of s r] decrement[OF p(1), of s r] by auto
  next
    case 4
    show ?thesis
    proof (cases "\<exists>q<n. fst (threads s q) = Waiting")
      case True
      then obtain q ops' where q: "q < n" "threads s q = (Waiting, ops')" by (metis prod.collapse)
      then have "well_placed (Waiting, ops')" using ok by (metis threads_ok_def)
      then obtain r' where "at_op s q Waiting AcquireSem r'" using q(2) by (cases ops') (auto simp: at_op_def)
      then show ?thesis using 4 at no notify_one[OF p(1) q(1), of s r r'] by auto
    qed (use 4 at no notify_none[OF p(1), of s r] in auto)
  qed (use at no acquire_unlock[OF p(1), of s r] increment[OF p(1), of s r] release_unlock[OF p(1), of s r] in auto)
qed

text \<open>A thread inside an operation of the semaphore cannot go on only in one way: it waits, and the counter is 0.\<close>

lemma stuck_in_operation:
  assumes inv: "sem_inv n ts i s" and st: "stuck (sem_step sp n) s"
    and p: "p < n" "threads s p = (c, a # r)" "c \<noteq> NotStarted" "a = AcquireSem \<or> a = ReleaseSem"
  shows "a = AcquireSem \<and> c = Waiting \<and> counter s = 0"
proof -
  have ok: "threads_ok n ts s" using inv by (simp add: sem_inv_def)
  have mx: "sem_mutex s = None" by (rule mutex_free_if_stuck[OF ok st])
  have no: "\<not> sem_step sp n s t" for t using st by (simp add: stuck_def)
  have wait: "c' = NotStarted \<or> c' = Ready \<or> c' = Waiting \<or> c' = Relocking" if "q < n" "threads s q = (c', ops)" for q c' ops
    using ok mx that by (cases c') (auto simp: threads_ok_def holds_mutex_def)
  have relock: "c' \<noteq> Relocking" if q: "q < n" "threads s q = (c', ops)" for q c' ops
  proof
    assume "c' = Relocking"
    then have "well_placed (Relocking, ops)" using ok q by (metis threads_ok_def)
    then obtain r' where "at_op s q Relocking AcquireSem r'"
      using \<open>c' = Relocking\<close> q by (cases ops) (auto simp: at_op_def)
    then show False using no wait_relock q(1) mx by blast
  qed
  have "c \<noteq> Ready" using no p mx acquire_lock[of p n s r] release_lock[of p n s r] by (auto simp: at_op_def)
  then have c: "c = Waiting" using wait[OF p(1,2)] relock[OF p(1,2)] p(3) by blast
  then have "well_placed (Waiting, a # r)" using ok p by (metis threads_ok_def)
  then have a: "a = AcquireSem" by simp
  have "will_look (threads s q) = 0" if "q < n" for q
    using wait[OF that] relock[OF that] by (cases "threads s q") auto
  then have "over_threads n will_look s = 0" by (simp add: over_threads_def)
  moreover have "\<exists>q<n. fst (threads s q) = Waiting" using p(1,2) c by auto
  ultimately have "unat (counter s) = 0" using inv by (simp add: sem_inv_def woken_def)
  then show ?thesis using a c by (simp add: unat_eq_0)
qed

text \<open>
  C14. The semaphore of any number of threads with any programs, as long as the counter cannot overflow: with or without spurious wake-ups
  the counter is the initial value plus the releases minus the acquires so far, and one thread at a time is inside
  the mutex; without spurious wake-ups every execution is finite, and in one that cannot go on nobody is
  inside \<open>acquire\<close> or \<open>release\<close> except threads that wait while the counter is 0: no wake-up is lost.
\<close>
theorem semaphore_correct:
  assumes "reachable (sem_init n ts initial) (sem_step spurious n) s"
  shows "unat (counter s) + acquired n ts s = initial + released n ts s \<and>
    (\<forall>p q. p < n \<and> q < n \<and> holds_mutex (fst (threads s p)) \<and> holds_mutex (fst (threads s q)) \<longrightarrow> p = q) \<and>
    (\<not> spurious \<longrightarrow> (\<forall>m t. (sem_step False n ^^ m) s t \<longrightarrow> m \<le> sem_mu n s)) \<and>
    (stuck (sem_step spurious n) s \<longrightarrow> (\<forall>p<n. \<forall>c a r. threads s p = (c, a # r) \<and> c \<noteq> NotStarted \<and>
        (a = AcquireSem \<or> a = ReleaseSem) \<longrightarrow> a = AcquireSem \<and> c = Waiting \<and> counter s = 0))"
proof (intro conjI)
  have inv: "sem_inv n ts initial s" by (rule sem.inv_reachable[OF assms])
  then have ok: "threads_ok n ts s" by (simp add: sem_inv_def)
  show "unat (counter s) + acquired n ts s = initial + released n ts s"
    using inv left_within[OF ok] unfolding sem_inv_def counted_def acquired_def released_def over_threads_def by linarith
  show "\<forall>p q. p < n \<and> q < n \<and> holds_mutex (fst (threads s p)) \<and> holds_mutex (fst (threads s q)) \<longrightarrow> p = q"
  proof (intro allI impI)
    fix p q assume "p < n \<and> q < n \<and> holds_mutex (fst (threads s p)) \<and> holds_mutex (fst (threads s q))"
    then have "sem_mutex s = Some p" "sem_mutex s = Some q" using ok unfolding threads_ok_def by blast+
    then show "p = q" by simp
  qed
  show "\<not> spurious \<longrightarrow> (\<forall>m t. (sem_step False n ^^ m) s t \<longrightarrow> m \<le> sem_mu n s)"
    using sem_notified.run_length_bound[OF _ inv] by fastforce
qed (use stuck_in_operation[OF sem.inv_reachable[OF assms]] in blast)

subsection \<open>\<open>run_semaphore\<close>\<close>

definition run_semaphore_threads :: "nat \<Rightarrow> thread" where
  "run_semaphore_threads = (\<lambda>_. (NotStarted, []))
     (0 := (Ready, [AcquireSem, AcquireSem, StartThread 1, AcquireSem, PrintOk, AcquireSem, JoinThread 1]),
      1 := (NotStarted, [ReleaseSem]))"

definition run_semaphore_init :: "semaphore \<Rightarrow> bool" where
  "run_semaphore_init = sem_init 2 run_semaphore_threads 2"

text \<open>The line is printed when it is no longer to do, and \<open>th\<close> runs from its construction on.\<close>

definition run_inv :: "semaphore \<Rightarrow> bool" where
  "run_inv s \<longleftrightarrow> sem_inv 2 run_semaphore_threads 2 s \<and> fst (threads s 0) \<noteq> NotStarted \<and>
     oks s + count_list (snd (threads s 0)) PrintOk = 1 \<and>
     (fst (threads s 1) = NotStarted \<longleftrightarrow> StartThread 1 \<in> set (snd (threads s 0)))"

lemma sum_two: "(\<Sum>q<2. f q) = f 0 + f 1" for f :: "nat \<Rightarrow> nat"
  by (simp add: numeral_2_eq_2)

lemma two_threads: "p < 2 \<longleftrightarrow> p = 0 \<or> p = 1" for p :: nat by auto

lemma main_suffixes:
  "suffix ops [AcquireSem, AcquireSem, StartThread 1, AcquireSem, PrintOk, AcquireSem, JoinThread 1] \<longleftrightarrow>
     ops \<in> {[AcquireSem, AcquireSem, StartThread 1, AcquireSem, PrintOk, AcquireSem, JoinThread 1],
       [AcquireSem, StartThread 1, AcquireSem, PrintOk, AcquireSem, JoinThread 1],
       [StartThread 1, AcquireSem, PrintOk, AcquireSem, JoinThread 1],
       [AcquireSem, PrintOk, AcquireSem, JoinThread 1], [PrintOk, AcquireSem, JoinThread 1],
       [AcquireSem, JoinThread 1], [JoinThread 1], []}"
  by (auto simp: suffix_Cons)

lemma run_todo:
  assumes "sem_inv 2 run_semaphore_threads 2 s"
  shows "suffix (snd (threads s 0)) [AcquireSem, AcquireSem, StartThread 1, AcquireSem, PrintOk, AcquireSem, JoinThread 1]"
    and "suffix (snd (threads s 1)) [ReleaseSem]"
  using assms by (simp_all add: sem_inv_def threads_ok_def two_threads run_semaphore_threads_def)

lemma run_inv_step:
  assumes inv: "run_inv s" and st: "sem_step sp 2 s t"
  shows "run_inv t"
proof -
  have "sem_inv 2 run_semaphore_threads 2 t" using inv st sem_inv_step unfolding run_inv_def by blast
  moreover have "fst (threads t 0) \<noteq> NotStarted \<and> oks t + count_list (snd (threads t 0)) PrintOk = 1 \<and>
      (fst (threads t 1) = NotStarted \<longleftrightarrow> StartThread 1 \<in> set (snd (threads t 0)))"
  proof -
    have todo: "suffix (snd (threads s 0)) [AcquireSem, AcquireSem, StartThread 1, AcquireSem, PrintOk, AcquireSem, JoinThread 1]"
      "suffix (snd (threads s 1)) [ReleaseSem]"
      using inv run_todo by (simp_all add: run_inv_def)
    have th1: "a = ReleaseSem \<and> r = []" if "threads s (Suc 0) = (c, a # r)" for c a r
      using todo(2) that by (auto simp: suffix_Cons)
    have th0: "q = 1 \<and> StartThread 1 \<notin> set r" if "threads s 0 = (c, StartThread q # r)" for c q r
      using todo(1) that by (auto simp: suffix_Cons)
    have i: "fst (threads s 0) \<noteq> NotStarted" "oks s + count_list (snd (threads s 0)) PrintOk = 1"
      "fst (threads s 1) = NotStarted \<longleftrightarrow> StartThread 1 \<in> set (snd (threads s 0))"
      using inv by (simp_all add: run_inv_def)
    from st show ?thesis
    proof cases
      case (notify_none p r)
      show ?thesis using notify_none(1-3) i by (auto simp: two_threads at_op_def dest: th1)
    next
      case (start_thread p q r ops)
      have "p = 0" using start_thread(2,4) th1 by (auto simp: two_threads at_op_def)
      moreover have "q = 1" "StartThread 1 \<notin> set r"
        using start_thread(4) th0[of Ready q r] calculation by (simp_all add: at_op_def)
      ultimately show ?thesis using start_thread(1,4) i by (simp add: at_op_def)
    qed (use i in \<open>auto simp: two_threads at_op_def dest: th1 th0\<close>)
  qed
  ultimately show ?thesis by (simp add: run_inv_def)
qed

interpretation run_semaphore: transition_system run_semaphore_init "sem_step sp 2" run_inv for sp
proof
  fix s assume s: "run_semaphore_init s"
  then have "sem_inv 2 run_semaphore_threads 2 s" unfolding run_semaphore_init_def by (rule sem_inv_init)
  then show "run_inv s"
    using s by (simp add: run_inv_def run_semaphore_init_def sem_init_def run_semaphore_threads_def)
qed (rule run_inv_step)

lemma reached_acquires:
  assumes "run_inv s"
  shows "unat (counter s) + acquired 2 run_semaphore_threads s = 2 + released 2 run_semaphore_threads s"
    and "released 2 run_semaphore_threads s \<le> 1"
    and "acquired 2 run_semaphore_threads s = 4 - acquires_left (threads s 0)"
proof -
  have inv: "sem_inv 2 run_semaphore_threads 2 s" using assms by (simp add: run_inv_def)
  then have ok: "threads_ok 2 run_semaphore_threads s" by (simp add: sem_inv_def)
  show "unat (counter s) + acquired 2 run_semaphore_threads s = 2 + released 2 run_semaphore_threads s"
    using inv left_within[OF ok] unfolding sem_inv_def counted_def acquired_def released_def over_threads_def by linarith
  show "released 2 run_semaphore_threads s \<le> 1"
    by (simp add: released_def run_semaphore_threads_def sum_two)
  have "suffix (snd (threads s 1)) [ReleaseSem]" using run_todo(2)[OF inv] .
  then have "acquires_left (threads s 1) = 0" by (cases "threads s 1") (auto simp: suffix_Cons)
  then show "acquired 2 run_semaphore_threads s = 4 - acquires_left (threads s 0)"
    by (simp add: acquired_def run_semaphore_threads_def sum_two)
qed

text \<open>When nothing moves, \<open>main\<close> waits in an \<open>acquire\<close>, and the thread has ended.\<close>

lemma stuck_main_waits:
  assumes inv: "run_inv s" and st: "stuck (sem_step sp 2) s"
  shows "\<exists>r. threads s 0 = (Waiting, AcquireSem # r) \<and> counter s = 0"
proof -
  have sinv: "sem_inv 2 run_semaphore_threads 2 s" using inv by (simp add: run_inv_def)
  have no: "\<not> sem_step sp 2 s t" for t using st by (simp add: stuck_def)
  obtain c ops where m: "threads s 0 = (c, ops)" by fastforce
  obtain c1 ops1 where t: "threads s 1 = (c1, ops1)" by fastforce
  have c: "c \<noteq> NotStarted" using inv m by (simp add: run_inv_def)
  have wp: "well_placed (c, ops)" using sinv m by (metis sem_inv_def threads_ok_def zero_less_numeral)
  note todo = run_todo(1)[OF sinv, unfolded m snd_conv]
  have "ops \<noteq> StartThread q # r" for q r
  proof
    assume o: "ops = StartThread q # r"
    then have q: "q = 1" using todo by (auto simp: suffix_Cons)
    then have "c1 = NotStarted" using inv m t o by (simp add: run_inv_def)
    moreover have "c = Ready" using wp o c by (cases c) auto
    ultimately show False using no start_thread[of 0 2 q s r ops1] m t o q by (auto simp: at_op_def)
  qed
  moreover have "ops \<noteq> PrintOk # r" for r
  proof
    assume o: "ops = PrintOk # r"
    then have "c = Ready" using wp c by (cases c) auto
    then show False using no print_ok[of 0 2 s r] m o by (auto simp: at_op_def)
  qed
  moreover have "1 \<le> acquires_left (c, ops)" using reached_acquires[OF inv] m by simp
  ultimately obtain r where r: "ops = AcquireSem # r"
    using main_suffixes[of ops] todo by (auto split: if_splits)
  then show ?thesis using stuck_in_operation[OF sinv st, of 0 c AcquireSem r] m c by simp
qed

lemma stuck_thread_done:
  assumes inv: "run_inv s" and st: "stuck (sem_step sp 2) s" and "StartThread 1 \<notin> set (snd (threads s 0))"
  shows "threads s 1 = (Ready, [])"
proof -
  have sinv: "sem_inv 2 run_semaphore_threads 2 s" using inv by (simp add: run_inv_def)
  obtain c ops where t: "threads s 1 = (c, ops)" by fastforce
  have c: "c \<noteq> NotStarted" using inv assms(3) t by (simp add: run_inv_def)
  have "ops = [ReleaseSem] \<or> ops = []" using run_todo(2)[OF sinv] t by (auto simp: suffix_Cons)
  then have o: "ops = []" using stuck_in_operation[OF sinv st, of 1 c ReleaseSem "[]"] t c by auto
  have "well_placed (threads s 1)" using sinv by (simp add: sem_inv_def threads_ok_def)
  then show ?thesis using t o c by (cases c) auto
qed

text \<open>
  C17. \<open>run_semaphore\<close>, and so the program, never returns: in no execution, with spurious wake-ups or without, does \<open>main\<close>
  get beyond its fourth \<open>acquire\<close> to the \<open>join\<close>, for there are two initial units and one release.
  It does print its line: an execution that cannot go on has printed \<open>ok\<close> once, the thread has ended, and
  \<open>main\<close> waits in that \<open>acquire\<close>; and without spurious wake-ups every execution gets to such a point.
\<close>
theorem run_semaphore_never_returns:
  assumes "reachable run_semaphore_init (sem_step spurious 2) s"
  shows "snd (threads s 0) \<noteq> [JoinThread 1] \<and> snd (threads s 0) \<noteq> [] \<and>
    (stuck (sem_step spurious 2) s \<longrightarrow> oks s = 1 \<and> threads s 1 = (Ready, []) \<and>
       threads s 0 = (Waiting, [AcquireSem, JoinThread 1])) \<and>
    (\<exists>t. (sem_step False 2)\<^sup>*\<^sup>* s t \<and> stuck (sem_step False 2) t)"
proof (intro conjI impI)
  have inv: "run_inv s" by (rule run_semaphore.inv_reachable[OF assms])
  then have sinv: "sem_inv 2 run_semaphore_threads 2 s" by (simp add: run_inv_def)
  have "1 \<le> acquires_left (threads s 0)" using reached_acquires[OF inv] by linarith
  then show "snd (threads s 0) \<noteq> [JoinThread 1]" "snd (threads s 0) \<noteq> []"
    by (cases "threads s 0"; auto)+
  show "\<exists>t. (sem_step False 2)\<^sup>*\<^sup>* s t \<and> stuck (sem_step False 2) t"
    by (rule sem_notified.reaches_stuck[OF sinv])
  assume st: "stuck (sem_step spurious 2) s"
  obtain r where m: "threads s 0 = (Waiting, AcquireSem # r)" "counter s = 0"
    using stuck_main_waits[OF inv st] by blast
  note todo = run_todo(1)[OF sinv, unfolded m snd_conv main_suffixes]
  have few: "acquires_in (AcquireSem # r) = 2 - released 2 run_semaphore_threads s" using reached_acquires[OF inv] m by simp
  then show th1: "threads s 1 = (Ready, [])" using todo m by (intro stuck_thread_done[OF inv st]) auto
  have "releases_in r = 0" using todo by auto
  then have "released 2 run_semaphore_threads s = 1"
    using th1 m by (simp add: released_def run_semaphore_threads_def sum_two)
  then have r: "r = [JoinThread 1]" using few todo by auto
  then show "threads s 0 = (Waiting, [AcquireSem, JoinThread 1])" using m by simp
  show "oks s = 1" using inv m r by (simp add: run_inv_def)
qed

lemma run_semaphore_starts:
  "sem_init 2 run_semaphore_threads 2 \<lparr>counter = 2, sem_mutex = None, threads = run_semaphore_threads, oks = 0\<rparr>"
  by (simp add: sem_init_def run_semaphore_threads_def sum_two two_threads all_conj_distrib)

lemma run_semaphore_halts:
  "\<exists>t. reachable run_semaphore_init (sem_step False 2) t \<and> stuck (sem_step False 2) t"
proof -
  let ?s = "\<lparr>counter = 2, sem_mutex = None, threads = run_semaphore_threads, oks = 0\<rparr>"
  obtain t where t: "(sem_step False 2)\<^sup>*\<^sup>* ?s t" "stuck (sem_step False 2) t"
    using sem_notified.reaches_stuck[OF sem_inv_init[OF run_semaphore_starts]] by blast
  have "run_semaphore_init ?s" using run_semaphore_starts by (simp add: run_semaphore_init_def)
  then show ?thesis using reachable_steps[OF reach_init[of run_semaphore_init] t(1)] t(2) by blast
qed

theorem run_semaphore_never_returns_witness:
  "\<exists>s. reachable run_semaphore_init (sem_step False 2) s \<and> oks s = 1 \<and> threads s 0 = (Waiting, [AcquireSem, JoinThread 1])"
  using run_semaphore_halts run_semaphore_never_returns[of False] by blast

theorem semaphore_correct_witness:
  "\<exists>s. reachable (sem_init 2 run_semaphore_threads 2) (sem_step False 2) s \<and>
     unat (counter s) + acquired 2 run_semaphore_threads s = 2 + released 2 run_semaphore_threads s \<and>
     (\<forall>r. threads s 0 = (Waiting, AcquireSem # r) \<longrightarrow> counter s = 0)"
proof -
  obtain s where s: "reachable (sem_init 2 run_semaphore_threads 2) (sem_step False 2) s" "stuck (sem_step False 2) s"
    using run_semaphore_halts unfolding run_semaphore_init_def by blast
  then show ?thesis using semaphore_correct[OF s(1)] by fastforce
qed

end
