(* ===== verification/CppThreads.thy ===== *)
theory CppThreads
  imports Semaphore
begin

text \<open>
  \<open>src/cppthread/thread/main.cpp\<close>, the rest of the file: the deferred task, the counter under a \<open>std::mutex\<close>, and the
  \<open>SpinLock\<close> over a weak compare-and-exchange; also \<open>src/cppthread/broken/main.cpp\<close>, a deferred task alone.
\<close>

subsection \<open>\<open>thread_worker\<close> and \<open>run_async\<close>\<close>

datatype cpp_event = Line int | Sleep nat

definition thread_worker :: "int \<Rightarrow> c_error + cpp_event list \<times> int" where
  "thread_worker x =
     (let out = concat (replicate 2 [Line x, Sleep 1])
      in if x = INT_MAX then Inl SignedOverflow else Inr (out, x + 1))"

text \<open>The task is deferred: it starts inside \<open>get\<close>, after the sleep, in the thread that asks.\<close>

definition run_async :: "c_error + cpp_event list" where
  "run_async = bindE (thread_worker 15) (\<lambda>(out, res). Inr ([Sleep 2] @ out @ [Line res]))"

lemma run_async_prints:
  "run_async = Inr [Sleep 2, Line 15, Sleep 1, Line 15, Sleep 1, Line 16]"
  by (simp add: run_async_def thread_worker_def INT_MAX_def numeral_2_eq_2)

text \<open>\<open>src/cppthread/broken/main.cpp\<close>: the status is what a deferred task returns to \<open>get\<close>.\<close>

definition broken_task :: "unit \<Rightarrow> int" where
  "broken_task u = 0"

definition broken_main :: int where
  "broken_main = (let r = broken_task in r ())"

subsection \<open>\<open>run_mutex\<close>\<close>

datatype mx_pc = MxLoop nat | MxLocked nat | MxAdd nat size_t | MxUnlock nat | MxDone

record mx_state =
  mx_counter :: size_t
  mx_owner :: "nat option"
  mx_pc :: "nat \<Rightarrow> mx_pc"
  mx_out :: "size_t option"   \<comment> \<open>what \<open>main\<close> has printed after both joins\<close>

definition LOCKED_ROUNDS :: nat where "LOCKED_ROUNDS = 1024"

definition mx_init :: "mx_state \<Rightarrow> bool" where
  "mx_init s \<longleftrightarrow> s = \<lparr>mx_counter = 0, mx_owner = None, mx_pc = (\<lambda>_. MxLoop 0), mx_out = None\<rparr>"

inductive mx_step :: "nat \<Rightarrow> mx_state \<Rightarrow> mx_state \<Rightarrow> bool" for k where
  mx_lock: "p < 2 \<Longrightarrow> mx_pc s p = MxLoop i \<Longrightarrow> i < k \<Longrightarrow> mx_owner s = None \<Longrightarrow>
    mx_step k s (s\<lparr>mx_owner := Some p, mx_pc := (mx_pc s)(p := MxLocked i)\<rparr>)"
| mx_load: "p < 2 \<Longrightarrow> mx_pc s p = MxLocked i \<Longrightarrow>
    mx_step k s (s\<lparr>mx_pc := (mx_pc s)(p := MxAdd i (mx_counter s))\<rparr>)"
| mx_store: "p < 2 \<Longrightarrow> mx_pc s p = MxAdd i c \<Longrightarrow>
    mx_step k s (s\<lparr>mx_counter := c + 1, mx_pc := (mx_pc s)(p := MxUnlock i)\<rparr>)"
| mx_unlock: "p < 2 \<Longrightarrow> mx_pc s p = MxUnlock i \<Longrightarrow>
    mx_step k s (s\<lparr>mx_owner := None, mx_pc := (mx_pc s)(p := MxLoop (i + 1))\<rparr>)"
| mx_end: "p < 2 \<Longrightarrow> mx_pc s p = MxLoop i \<Longrightarrow> \<not> i < k \<Longrightarrow>
    mx_step k s (s\<lparr>mx_pc := (mx_pc s)(p := MxDone)\<rparr>)"
| mx_print: "mx_pc s 0 = MxDone \<Longrightarrow> mx_pc s 1 = MxDone \<Longrightarrow> mx_out s = None \<Longrightarrow>
    mx_step k s (s\<lparr>mx_out := Some (mx_counter s)\<rparr>)"

fun mx_added :: "nat \<Rightarrow> mx_pc \<Rightarrow> nat" where
  "mx_added k (MxLoop i) = i"
| "mx_added k (MxLocked i) = i"
| "mx_added k (MxAdd i c) = i"
| "mx_added k (MxUnlock i) = i + 1"
| "mx_added k MxDone = k"

fun mx_owns :: "mx_pc \<Rightarrow> bool" where
  "mx_owns (MxLoop i) = False"
| "mx_owns MxDone = False"
| "mx_owns _ = True"

fun mx_left :: "nat \<Rightarrow> mx_pc \<Rightarrow> nat" where
  "mx_left k (MxLoop i) = 4 * (k - i) + 1"
| "mx_left k (MxLocked i) = 4 * (k - i)"
| "mx_left k (MxAdd i c) = 4 * (k - i) - 1"
| "mx_left k (MxUnlock i) = 4 * (k - i) - 2"
| "mx_left k MxDone = 0"

fun mx_within :: "nat \<Rightarrow> size_t \<Rightarrow> mx_pc \<Rightarrow> bool" where
  "mx_within k x (MxLoop i) \<longleftrightarrow> i \<le> k"
| "mx_within k x (MxLocked i) \<longleftrightarrow> i < k"
| "mx_within k x (MxAdd i c) \<longleftrightarrow> i < k \<and> c = x"
| "mx_within k x (MxUnlock i) \<longleftrightarrow> i < k"
| "mx_within k x MxDone \<longleftrightarrow> True"

definition mx_inv :: "nat \<Rightarrow> mx_state \<Rightarrow> bool" where
  "mx_inv k s \<longleftrightarrow>
     mx_counter s = of_nat (mx_added k (mx_pc s 0) + mx_added k (mx_pc s 1)) \<and>
     (mx_owner s = Some 0 \<longleftrightarrow> mx_owns (mx_pc s 0)) \<and> (mx_owner s = Some 1 \<longleftrightarrow> mx_owns (mx_pc s 1)) \<and>
     (mx_owner s \<in> {None, Some 0, Some 1}) \<and>
     mx_within k (mx_counter s) (mx_pc s 0) \<and> mx_within k (mx_counter s) (mx_pc s 1) \<and>
     (mx_out s = None \<or> mx_out s = Some (of_nat (2 * k)) \<and> mx_pc s 0 = MxDone \<and> mx_pc s 1 = MxDone)"

definition mx_mu :: "nat \<Rightarrow> mx_state \<Rightarrow> nat" where
  "mx_mu k s = mx_left k (mx_pc s 0) + mx_left k (mx_pc s 1) + of_bool (mx_out s = None)"

lemma mx_within_other: "\<not> mx_owns c \<Longrightarrow> mx_within k x c \<Longrightarrow> mx_within k y c"
  by (cases c) auto

lemma mx_inv_step: "mx_inv k s \<Longrightarrow> mx_step k s t \<Longrightarrow> mx_inv k t"
  by (erule mx_step.cases) (auto simp: mx_inv_def two_threads elim: mx_within_other)

lemma mx_mu_step: "mx_inv k s \<Longrightarrow> mx_step k s t \<Longrightarrow> mx_mu k t < mx_mu k s"
  by (erule mx_step.cases) (auto simp: mx_inv_def mx_mu_def two_threads)

interpretation mx: terminating_system mx_init "mx_step k" "mx_inv k" "mx_mu k" for k
proof
  show "mx_inv k s" if "mx_init s" for s using that by (simp add: mx_init_def mx_inv_def)
qed (fact mx_inv_step mx_mu_step)+

lemma mx_stuck:
  assumes inv: "mx_inv k s" and st: "stuck (mx_step k) s"
  shows "mx_out s = Some (of_nat (2 * k))"
proof -
  have no: "\<not> mx_step k s t" for t using st by (simp add: stuck_def)
  have moves: "mx_pc s p = MxDone \<or> \<not> mx_owns (mx_pc s p) \<and> mx_owner s \<noteq> None" if "p < 2" for p
  proof (cases "mx_pc s p")
    case (MxLoop i)
    then show ?thesis using no mx_lock[OF that MxLoop] mx_end[OF that MxLoop] by (cases "i < k") auto
  qed (use that no in \<open>auto dest: mx_step.intros\<close>)
  have "\<not> mx_owns (mx_pc s p)" if "p < 2" for p using moves[OF that] by auto
  then have "mx_owner s = None" using inv by (simp add: mx_inv_def) (metis One_nat_def one_less_numeral_iff semiring_norm(76) zero_less_numeral)
  then have "mx_pc s 0 = MxDone" "mx_pc s 1 = MxDone" using moves[of 0] moves[of 1] by auto
  moreover from this have "mx_out s \<noteq> None" using no mx_print by blast
  ultimately show ?thesis using inv by (auto simp: mx_inv_def)
qed

text \<open>\<open>run_mutex\<close> prints 2048 in every execution, and every execution is finite.\<close>

lemma run_mutex_prints:
  assumes "reachable mx_init (mx_step LOCKED_ROUNDS) s"
  shows "(mx_out s = None \<or> mx_out s = Some 2048) \<and> (stuck (mx_step LOCKED_ROUNDS) s \<longrightarrow> mx_out s = Some 2048) \<and>
    (\<forall>m t. (mx_step LOCKED_ROUNDS ^^ m) s t \<longrightarrow> m \<le> mx_mu LOCKED_ROUNDS s)"
proof -
  have inv: "mx_inv LOCKED_ROUNDS s" by (rule mx.inv_reachable[OF assms])
  then have "mx_out s = None \<or> mx_out s = Some 2048" by (auto simp: mx_inv_def LOCKED_ROUNDS_def)
  then show ?thesis using mx_stuck[OF inv] mx.run_length_bound[OF _ inv] by (fastforce simp: LOCKED_ROUNDS_def)
qed

subsection \<open>\<open>SpinLock\<close> and \<open>run_atomic\<close>\<close>

text \<open>
  \<open>locked_\<close> as an integer.  The weak exchange may fail although the value is the expected one; \<open>fails\<close>
  says whether it does.
\<close>

definition try_lock :: "bool \<Rightarrow> int \<Rightarrow> bool \<times> int" where
  "try_lock fails l = (if l = 0 \<and> \<not> fails then (True, 1) else (False, l))"

definition spin_release :: "int \<Rightarrow> int" where
  "spin_release l = 0"

text \<open>
  \<open>main\<close> and \<open>th\<close>, an operation per step.  The loop of \<open>lock\<close> goes round as long as \<open>try_lock\<close> fails; the rounds that
  fail leave everything as it is.
\<close>

datatype spin_op = SpinAcquire | PrintTry | SpinRelease | SpinStart | SpinJoin

record spin_state =
  spin_word :: int
  spin_main :: "spin_op list"
  spin_th :: "spin_op list option"   \<comment> \<open>None before its construction\<close>
  spin_out :: "bool list"

definition run_atomic_init :: "spin_state \<Rightarrow> bool" where
  "run_atomic_init s \<longleftrightarrow> s = \<lparr>spin_word = 0,
     spin_main = [SpinAcquire, PrintTry, PrintTry, SpinRelease, PrintTry, PrintTry, SpinStart, SpinAcquire, SpinJoin],
     spin_th = None, spin_out = []\<rparr>"

inductive spin_step :: "spin_state \<Rightarrow> spin_state \<Rightarrow> bool" where
  spin_lock: "spin_main s = SpinAcquire # r \<Longrightarrow> try_lock fails (spin_word s) = (True, l) \<Longrightarrow>
    spin_step s (s\<lparr>spin_word := l, spin_main := r\<rparr>)"
| spin_try: "spin_main s = PrintTry # r \<Longrightarrow> try_lock fails (spin_word s) = (b, l) \<Longrightarrow>
    spin_step s (s\<lparr>spin_word := l, spin_main := r, spin_out := spin_out s @ [b]\<rparr>)"
| spin_unlock: "spin_main s = SpinRelease # r \<Longrightarrow>
    spin_step s (s\<lparr>spin_word := spin_release (spin_word s), spin_main := r\<rparr>)"
| spin_start: "spin_main s = SpinStart # r \<Longrightarrow> spin_step s (s\<lparr>spin_main := r, spin_th := Some [SpinRelease]\<rparr>)"
| spin_th_release: "spin_th s = Some (SpinRelease # r) \<Longrightarrow>
    spin_step s (s\<lparr>spin_word := spin_release (spin_word s), spin_th := Some r\<rparr>)"
| spin_join: "spin_main s = SpinJoin # r \<Longrightarrow> spin_th s = Some [] \<Longrightarrow> spin_step s (s\<lparr>spin_main := r\<rparr>)"

text \<open>What may hold when so many operations of \<open>main\<close> are left.\<close>

definition final_lines :: "bool list \<Rightarrow> bool" where
  "final_lines out \<longleftrightarrow> out \<in> {[False, False, True, False], [False, False, False, True], [False, False, False, False]}"

definition spin_ok :: "spin_op list \<Rightarrow> int \<Rightarrow> spin_op list option \<Rightarrow> bool list \<Rightarrow> bool" where
  "spin_ok ops l th out \<longleftrightarrow>
     ops = [SpinAcquire, PrintTry, PrintTry, SpinRelease, PrintTry, PrintTry, SpinStart, SpinAcquire, SpinJoin] \<and>
       out = [] \<and> l = 0 \<and> th = None \<or>
     ops = [PrintTry, PrintTry, SpinRelease, PrintTry, PrintTry, SpinStart, SpinAcquire, SpinJoin] \<and>
       out = [] \<and> l = 1 \<and> th = None \<or>
     ops = [PrintTry, SpinRelease, PrintTry, PrintTry, SpinStart, SpinAcquire, SpinJoin] \<and> out = [False] \<and> l = 1 \<and> th = None \<or>
     ops = [SpinRelease, PrintTry, PrintTry, SpinStart, SpinAcquire, SpinJoin] \<and> out = [False, False] \<and> th = None \<or>
     ops = [PrintTry, PrintTry, SpinStart, SpinAcquire, SpinJoin] \<and> out = [False, False] \<and> l = 0 \<and> th = None \<or>
     ops = [PrintTry, SpinStart, SpinAcquire, SpinJoin] \<and>
       (out = [False, False, True] \<and> l = 1 \<or> out = [False, False, False] \<and> l = 0) \<and> th = None \<or>
     ops = [SpinStart, SpinAcquire, SpinJoin] \<and> final_lines out \<and> th = None \<or>
     ops = [SpinAcquire, SpinJoin] \<and> final_lines out \<and> (th = Some [SpinRelease] \<or> th = Some [] \<and> l = 0) \<or>
     ops = [SpinJoin] \<and> final_lines out \<and> (th = Some [SpinRelease] \<or> th = Some []) \<or>
     ops = [] \<and> final_lines out \<and> th = Some []"

definition spin_inv :: "spin_state \<Rightarrow> bool" where
  "spin_inv s \<longleftrightarrow> spin_ok (spin_main s) (spin_word s) (spin_th s) (spin_out s)"

definition spin_mu :: "spin_state \<Rightarrow> nat" where
  "spin_mu s = 2 * length (spin_main s) + (case spin_th s of None \<Rightarrow> 1 | Some ops \<Rightarrow> length ops)"

lemma spin_inv_step:
  assumes "spin_inv s" and "spin_step s t"
  shows "spin_inv t"
  using assms(2)
proof cases
  case (spin_try r fails b l)
  have "b = (spin_word s = 0 \<and> \<not> fails)" "l = (if b then 1 else spin_word s)"
    using spin_try by (auto simp: try_lock_def split: if_splits)
  then show ?thesis using assms(1) spin_try unfolding spin_inv_def spin_ok_def
    by (elim disjE conjE) (simp_all add: final_lines_def)
qed (use assms(1) in \<open>unfold spin_inv_def spin_ok_def, elim disjE conjE;
    simp add: try_lock_def spin_release_def split: if_splits\<close>)+

lemma spin_mu_step: "spin_inv s \<Longrightarrow> spin_step s t \<Longrightarrow> spin_mu t < spin_mu s"
  by (erule spin_step.cases) (auto simp: spin_mu_def split: option.splits)

interpretation spin: terminating_system run_atomic_init spin_step spin_inv spin_mu
proof
  show "spin_inv s" if "run_atomic_init s" for s using that by (simp add: run_atomic_init_def spin_inv_def spin_ok_def)
qed (fact spin_inv_step spin_mu_step)+

text \<open>
  \<open>run_atomic\<close> always ends.  It prints 0, 0, 1, 0 as it should, unless the first exchange after the release fails
  spuriously, when the 1 comes one line later, or the second one fails too, when it does not come at all.
\<close>

lemma run_atomic_ends:
  assumes "reachable run_atomic_init spin_step s"
  shows "(\<forall>m t. (spin_step ^^ m) s t \<longrightarrow> m \<le> spin_mu s) \<and>
    (stuck spin_step s \<longrightarrow> spin_main s = [] \<and> spin_th s = Some [] \<and> final_lines (spin_out s))"
proof (intro conjI impI allI)
  have inv: "spin_inv s" by (rule spin.inv_reachable[OF assms])
  show "m \<le> spin_mu s" if "(spin_step ^^ m) s t" for m t using spin.run_length_bound[OF that inv] by simp
  assume "stuck spin_step s"
  then have no: "\<not> spin_step s t" for t by (simp add: stuck_def)
  have th: "spin_th s \<noteq> Some (SpinRelease # r)" for r using no spin_th_release by blast
  have "spin_main s \<noteq> PrintTry # r" for r using no spin_try[of s r False] by (metis prod.collapse)
  moreover have "spin_main s \<noteq> SpinRelease # r" "spin_main s \<noteq> SpinStart # r" for r
    using no spin_unlock[of s r] spin_start[of s r] by auto
  moreover have "spin_main s = SpinAcquire # r \<Longrightarrow> spin_word s \<noteq> 0" "spin_main s = SpinJoin # r \<Longrightarrow> spin_th s \<noteq> Some []" for r
    using no spin_lock[of s r False 1] spin_join[of s r] by (auto simp: try_lock_def)
  ultimately have "spin_main s = [] \<and> spin_th s = Some [] \<and> final_lines (spin_out s)"
    using inv th unfolding spin_inv_def spin_ok_def by (elim disjE conjE) auto
  then show "spin_main s = []" "spin_th s = Some []" "final_lines (spin_out s)" by simp_all
qed

lemma run_atomic_right: "try_lock False 0 = (True, 1) \<and> try_lock False 1 = (False, 1) \<and> spin_release 1 = 0"
  by (simp add: try_lock_def spin_release_def)

end
