(* ===== verification/Calendar.thy ===== *)
theory Calendar
  imports Decimal
begin

text \<open>
  \<open>src/strftime/main.c\<close>: the time of day, moved on by \<open>20 * 365\<close> days and printed as a date.  The time zone is an argument: the
  difference between local time and UTC in seconds at every instant, so it may have daylight saving time; leap seconds do not
  exist in POSIX time.  \<open>localtime\<close>, \<open>strftime\<close> and \<open>ctime\<close> are the library functions as C and POSIX define them, for
  local times after the epoch; \<open>strftime_main\<close> is the program.
\<close>

subsection \<open>Broken-down time\<close>

record tm =
  tm_sec :: nat
  tm_min :: nat
  tm_hour :: nat
  tm_mday :: nat
  tm_mon :: nat    \<comment> \<open>from 0\<close>
  tm_year :: nat   \<comment> \<open>the year itself, where C stores it minus 1900\<close>
  tm_wday :: nat   \<comment> \<open>from Sunday\<close>
  tm_yday :: nat   \<comment> \<open>from 0\<close>

definition leap :: "nat \<Rightarrow> bool" where
  "leap y \<longleftrightarrow> y mod 4 = 0 \<and> (y mod 100 \<noteq> 0 \<or> y mod 400 = 0)"

definition year_days :: "nat \<Rightarrow> nat" where
  "year_days y = (if leap y then 366 else 365)"

definition month_days :: "nat \<Rightarrow> nat \<Rightarrow> nat" where
  "month_days y m = (if m = 1 then (if leap y then 29 else 28) else if m \<in> {3, 5, 8, 10} then 30 else 31)"

text \<open>The year, and the day in it, of the day \<open>d\<close> days after the first of January of \<open>y\<close>; then the month.\<close>

function year_of :: "nat \<Rightarrow> nat \<Rightarrow> nat \<times> nat" where
  "year_of y d = (if d < year_days y then (y, d) else year_of (y + 1) (d - year_days y))"
  by pat_completeness auto
termination by (relation "measure snd") (auto simp: year_days_def)

function month_of :: "nat \<Rightarrow> nat \<Rightarrow> nat \<Rightarrow> nat \<times> nat" where
  "month_of y m d = (if d < month_days y m then (m, d) else month_of y (m + 1) (d - month_days y m))"
  by pat_completeness auto
termination by (relation "measure (\<lambda>(y, m, d). d)") (auto simp: month_days_def split: if_splits)

declare year_of.simps [simp del] month_of.simps [simp del]

definition localtime :: "(int \<Rightarrow> int) \<Rightarrow> int \<Rightarrow> tm" where
  "localtime zone t =
     (let local = nat (t + zone t); days = local div 86400; s = local mod 86400;
          (y, yday) = year_of 1970 days; (m, d) = month_of y 0 yday
      in \<lparr>tm_sec = s mod 60, tm_min = s div 60 mod 60, tm_hour = s div 3600, tm_mday = d + 1, tm_mon = m,
          tm_year = y, tm_wday = (days + 4) mod 7, tm_yday = yday\<rparr>)"

subsection \<open>Printing\<close>

definition two_digits :: "nat \<Rightarrow> byte list" where
  "two_digits n = [of_nat (48 + n div 10), of_nat (48 + n mod 10)]"

text \<open>The format \<open>%Y-%m-%d-%H:%M:%S\<close>.\<close>

definition date_text :: "tm \<Rightarrow> byte list" where
  "date_text i = decimal (tm_year i) @ [45] @ two_digits (tm_mon i + 1) @ [45] @ two_digits (tm_mday i) @ [45] @
     two_digits (tm_hour i) @ [58] @ two_digits (tm_min i) @ [58] @ two_digits (tm_sec i)"

text \<open>\<open>strftime\<close> into a buffer: nothing defined is written when text and NUL exceed the given size.\<close>

definition strftime :: "nat \<Rightarrow> tm \<Rightarrow> byte list option" where
  "strftime maxsize i = (if length (date_text i) + 1 \<le> maxsize then Some (date_text i) else None)"

definition ascii :: "string \<Rightarrow> byte list" where
  "ascii s = map of_char s"

definition day_names :: "string list" where
  "day_names = [''Sun'', ''Mon'', ''Tue'', ''Wed'', ''Thu'', ''Fri'', ''Sat'']"

definition month_names :: "string list" where
  "month_names = [''Jan'', ''Feb'', ''Mar'', ''Apr'', ''May'', ''Jun'', ''Jul'', ''Aug'', ''Sep'', ''Oct'', ''Nov'', ''Dec'']"

definition ctime_text :: "tm \<Rightarrow> byte list" where
  "ctime_text i = ascii (day_names ! tm_wday i) @ [32] @ ascii (month_names ! tm_mon i) @ [32] @
     (if tm_mday i < 10 then [32, of_nat (48 + tm_mday i)] else two_digits (tm_mday i)) @ [32] @
     two_digits (tm_hour i) @ [58] @ two_digits (tm_min i) @ [58] @ two_digits (tm_sec i) @ [32] @
     decimal (tm_year i) @ [10]"

text \<open>The text of \<open>ctime\<close> has room for years of four digits; C leaves longer ones undefined.\<close>

definition ctime :: "(int \<Rightarrow> int) \<Rightarrow> int \<Rightarrow> c_error + byte list" where
  "ctime zone t = (let i = localtime zone t in if tm_year i < 10000 then Inr (ctime_text i) else Inl OutOfBounds)"

text \<open>The conversion \<open>(int)\<close> of a \<open>time_t\<close> keeps 32 bits.\<close>

definition to_int :: "int \<Rightarrow> int" where
  "to_int t = sint (word_of_int t :: 32 word)"

text \<open>
  \<open>cur_time\<close> is what \<open>time\<close> gives, \<open>(sec, usec)\<close> what \<open>gettimeofday\<close> gives; the result is all that is printed.  Without room
  for the text \<open>strftime\<close> leaves \<open>str\<close> undefined.
\<close>

definition strftime_main :: "(int \<Rightarrow> int) \<Rightarrow> int \<Rightarrow> int \<times> int \<Rightarrow> c_error + byte list" where
  "strftime_main zone cur_time m_cur_time =
     (let out = signed_text (to_int cur_time) @ [10];
          out = out @ signed_text (to_int (fst m_cur_time)) @ [32, 40] @ signed_text (to_int (snd m_cur_time)) @
            ascii '' usec)'' @ [10];
          cur_time = cur_time + 20 * 365 * 24 * 60 * 60;
          time_info = localtime zone cur_time
      in case strftime (1024 - 1) time_info of
           None \<Rightarrow> Inl UninitRead
         | Some str \<Rightarrow> bindE (ctime zone cur_time) (\<lambda>str2. Inr (out @ str @ [10] @ str2 @ [10])))"

subsection \<open>Dates and days\<close>

text \<open>The reference: days from the first of January of the year 1 up to a date, by the rule for leap years.\<close>

definition days_to_year :: "nat \<Rightarrow> nat" where
  "days_to_year y = 365 * (y - 1) + ((y - 1) div 4 + (y - 1) div 400) - (y - 1) div 100"

fun days_to_month :: "nat \<Rightarrow> nat \<Rightarrow> nat" where
  "days_to_month y 0 = 0"
| "days_to_month y (Suc m) = days_to_month y m + month_days y m"

definition epoch_days :: nat where "epoch_days = 719162"

definition seconds_of :: "tm \<Rightarrow> nat" where
  "seconds_of i = (days_to_year (tm_year i) + days_to_month (tm_year i) (tm_mon i) + (tm_mday i - 1) - epoch_days) * 86400 +
     tm_hour i * 3600 + tm_min i * 60 + tm_sec i"

definition valid_tm :: "tm \<Rightarrow> bool" where
  "valid_tm i \<longleftrightarrow> tm_sec i < 60 \<and> tm_min i < 60 \<and> tm_hour i < 24 \<and> tm_mon i < 12 \<and> 1 \<le> tm_mday i \<and>
     tm_mday i \<le> month_days (tm_year i) (tm_mon i) \<and> 1970 \<le> tm_year i \<and> tm_wday i < 7 \<and>
     tm_yday i = days_to_month (tm_year i) (tm_mon i) + (tm_mday i - 1)"

lemma epoch_days_1970: "days_to_year 1970 = epoch_days"
  by (simp add: days_to_year_def epoch_days_def)

lemma div_succ: "0 < k \<Longrightarrow> Suc n div k = n div k + of_bool (Suc n mod k = 0)" for n k :: nat
  by (simp add: div_Suc)

lemma year_sum:
  fixes a b c x :: nat
  assumes "c \<le> x" and "R \<Longrightarrow> Q" and "Q \<Longrightarrow> P"
  shows "365 * Suc x + (a + of_bool P + (b + of_bool R)) - (c + of_bool Q) =
    365 * x + (a + b) - c + (365 + of_bool (P \<and> (\<not> Q \<or> R)))"
  using assms by (cases P; cases Q; cases R) auto

lemma days_to_year_Suc:
  assumes "1 \<le> y"
  shows "days_to_year (y + 1) = days_to_year y + year_days y"
proof -
  obtain x where y: "y = Suc x" using assms by (cases y) auto
  define P Q R where "P \<longleftrightarrow> y mod 4 = 0" "Q \<longleftrightarrow> y mod 100 = 0" "R \<longleftrightarrow> y mod 400 = 0"
  have "R \<Longrightarrow> Q" "Q \<Longrightarrow> P"
    unfolding P_Q_R_def using mod_mod_cancel[of 100 400 y] mod_mod_cancel[of 4 100 y] by simp_all
  note PQR = this
  have "y div 4 = x div 4 + of_bool P" "y div 100 = x div 100 + of_bool Q" "y div 400 = x div 400 + of_bool R"
    unfolding P_Q_R_def y by (rule div_succ; simp)+
  then have "days_to_year (y + 1) =
      365 * Suc x + (x div 4 + of_bool P + (x div 400 + of_bool R)) - (x div 100 + of_bool Q)"
    unfolding days_to_year_def add_diff_cancel_right' by (simp only: y)
  also have "\<dots> = 365 * x + (x div 4 + x div 400) - x div 100 + (365 + of_bool (P \<and> (\<not> Q \<or> R)))"
    by (rule year_sum) (use PQR in \<open>simp_all add: div_le_dividend\<close>)
  also have "\<dots> = days_to_year y + year_days y"
    unfolding days_to_year_def year_days_def leap_def P_Q_R_def y by simp
  finally show ?thesis .
qed

lemma days_to_month_year: "days_to_month y 12 = year_days y"
  by (simp add: eval_nat_numeral month_days_def year_days_def)

lemma year_of_days:
  "1 \<le> y \<Longrightarrow> year_of y d = (y', d') \<Longrightarrow> d' < year_days y' \<and> y \<le> y' \<and> days_to_year y' + d' = days_to_year y + d"
proof (induction y d rule: year_of.induct)
  case (1 y d)
  show ?case
  proof (cases "d < year_days y")
    case True
    then show ?thesis using 1(3) by (subst (asm) year_of.simps) simp
  next
    case False
    then have "year_of (y + 1) (d - year_days y) = (y', d')" using 1(3) by (subst (asm) year_of.simps) simp
    then have "d' < year_days y' \<and> y + 1 \<le> y' \<and> days_to_year y' + d' = days_to_year (y + 1) + (d - year_days y)"
      using 1(1)[OF False] 1(2) by simp
    then show ?thesis using days_to_year_Suc[OF 1(2)] False by simp
  qed
qed

lemma month_of_days:
  "month_of y m d = (m', d') \<Longrightarrow> d' < month_days y m' \<and> m \<le> m' \<and> days_to_month y m' + d' = days_to_month y m + d"
proof (induction y m d rule: month_of.induct)
  case (1 y m d)
  show ?case
  proof (cases "d < month_days y m")
    case True
    then show ?thesis using 1(2) by (subst (asm) month_of.simps) simp
  next
    case False
    then have "month_of y (m + 1) (d - month_days y m) = (m', d')" using 1(2) by (subst (asm) month_of.simps) simp
    then have "d' < month_days y m' \<and> m + 1 \<le> m' \<and> days_to_month y m' + d' = days_to_month y (m + 1) + (d - month_days y m)"
      using 1(1)[OF False] by simp
    then show ?thesis using False by simp
  qed
qed

lemma days_to_month_mono: "m \<le> m' \<Longrightarrow> days_to_month y m \<le> days_to_month y m'"
  by (induction rule: dec_induct) auto

text \<open>The fields that \<open>localtime\<close> computes are within their ranges and name the given second.\<close>

lemma localtime_correct:
  assumes "0 \<le> t + zone t"
  shows "valid_tm (localtime zone t) \<and> int (seconds_of (localtime zone t)) = t + zone t"
proof -
  define local where "local = nat (t + zone t)"
  obtain y yday where y: "year_of 1970 (local div 86400) = (y, yday)" by fastforce
  obtain m d where m: "month_of y 0 yday = (m, d)" by fastforce
  have yd: "yday < year_days y" "1970 \<le> y" "days_to_year y + yday = epoch_days + local div 86400"
    using year_of_days[OF _ y] by (simp_all add: epoch_days_1970)
  have md: "d < month_days y m" "days_to_month y m + d = yday" using month_of_days[OF m] by simp_all
  have m12: "m < 12"
  proof (rule ccontr)
    assume "\<not> m < 12"
    then have "year_days y \<le> days_to_month y m" using days_to_month_mono[of 12 m y] by (simp add: days_to_month_year)
    then show False using yd(1) md(2) by simp
  qed
  have lt: "localtime zone t = \<lparr>tm_sec = local mod 86400 mod 60, tm_min = local mod 86400 div 60 mod 60,
      tm_hour = local mod 86400 div 3600, tm_mday = d + 1, tm_mon = m, tm_year = y,
      tm_wday = (local div 86400 + 4) mod 7, tm_yday = yday\<rparr>"
    using y m by (simp add: localtime_def local_def Let_def)
  have "local mod 86400 div 3600 < 24" by (simp add: div_less_iff_less_mult)
  then have "valid_tm (localtime zone t)" using yd md m12 by (simp add: lt valid_tm_def)
  moreover have "seconds_of (localtime zone t) = local div 86400 * 86400 + (local mod 86400 div 3600 * 3600 +
      local mod 86400 div 60 mod 60 * 60 + local mod 86400 mod 60)"
    using yd(3) md(2) by (simp add: lt seconds_of_def)
  moreover have "s div 3600 * 3600 + s div 60 mod 60 * 60 + s mod 60 = s" for s :: nat
  proof -
    have "s div 3600 = s div 60 div 60" by (simp add: div_mult2_eq[symmetric])
    moreover have "s div 60 div 60 * 60 + s div 60 mod 60 = s div 60" "s div 60 * 60 + s mod 60 = s" by simp_all
    ultimately show ?thesis by linarith
  qed
  ultimately show ?thesis using assms by (simp add: local_def)
qed

lemma days_to_year_mono: "y \<le> y' \<Longrightarrow> 1 \<le> y \<Longrightarrow> days_to_year y \<le> days_to_year y'"
  by (induction rule: dec_induct) (simp_all add: days_to_year_Suc[simplified])

text \<open>The year 10000 begins \<open>253402300800\<close> seconds after the epoch.\<close>

lemma localtime_year:
  assumes "0 \<le> t + zone t" and "t + zone t < 253402300800"
  shows "tm_year (localtime zone t) < 10000"
proof (rule ccontr)
  let ?i = "localtime zone t"
  assume "\<not> tm_year ?i < 10000"
  then have "days_to_year 10000 \<le> days_to_year (tm_year ?i)" by (intro days_to_year_mono) simp_all
  moreover have "days_to_year 10000 = epoch_days + 2932897" by (simp add: days_to_year_def epoch_days_def)
  ultimately have "2932897 \<le> days_to_year (tm_year ?i) + days_to_month (tm_year ?i) (tm_mon ?i) + (tm_mday ?i - 1) - epoch_days"
    by linarith
  then have "2932897 * 86400 \<le> seconds_of ?i" unfolding seconds_of_def by linarith
  then show False using localtime_correct[of t zone, OF assms(1)] assms(2) by linarith
qed

text \<open>A date names one second: two valid broken-down times that agree in it are equal.\<close>

lemma two_digits_inj: "a < 100 \<Longrightarrow> b < 100 \<Longrightarrow> two_digits a = two_digits b \<Longrightarrow> a = b"
proof -
  assume ab: "a < 100" "b < 100" "two_digits a = two_digits b"
  have digit: "unat (of_nat (48 + n) :: byte) = 48 + n" if "n < 10" for n using digit_byte[OF that] by blast
  have "of_nat (48 + a div 10) = (of_nat (48 + b div 10) :: byte)" "of_nat (48 + a mod 10) = (of_nat (48 + b mod 10) :: byte)"
    using ab(3) by (simp_all add: two_digits_def)
  moreover have "a div 10 < 10" "b div 10 < 10" using ab by auto
  ultimately have "a div 10 = b div 10" "a mod 10 = b mod 10"
    using digit[of "a div 10"] digit[of "b div 10"] digit[of "a mod 10"] digit[of "b mod 10"] by fastforce+
  then show "a = b" by (metis div_mult_mod_eq)
qed

lemma decimal_inj: "decimal a = decimal b \<Longrightarrow> a = b"
  by (metis decimal_value)

lemma date_text_inj:
  assumes "valid_tm i" and "valid_tm j" and "date_text i = date_text j"
  shows "tm_year i = tm_year j \<and> tm_mon i = tm_mon j \<and> tm_mday i = tm_mday j \<and> tm_hour i = tm_hour j \<and>
    tm_min i = tm_min j \<and> tm_sec i = tm_sec j"
proof -
  have small: "tm_mon k + 1 < 100 \<and> tm_mday k < 100 \<and> tm_hour k < 100 \<and> tm_min k < 100 \<and> tm_sec k < 100"
    if "valid_tm k" for k
    using that by (auto simp: valid_tm_def month_days_def split: if_splits)
  have dash: "\<not> is_digit 45" by (simp add: is_digit_def)
  have tw: "takeWhile is_digit (date_text k) = decimal (tm_year k)" for k
    unfolding date_text_def using dash by (intro takeWhile_decimal) simp
  then have y: "decimal (tm_year i) = decimal (tm_year j)" using assms(3) by metis
  then have "two_digits (tm_mon i + 1) = two_digits (tm_mon j + 1) \<and> two_digits (tm_mday i) = two_digits (tm_mday j) \<and>
      two_digits (tm_hour i) = two_digits (tm_hour j) \<and> two_digits (tm_min i) = two_digits (tm_min j) \<and>
      two_digits (tm_sec i) = two_digits (tm_sec j)"
    using assms(3) by (simp add: date_text_def two_digits_def)
  then show ?thesis
    using decimal_inj[OF y] two_digits_inj small[OF assms(1)] small[OF assms(2)] by (metis add_right_cancel)
qed

lemma seconds_of_fields:
  "tm_year i = tm_year j \<and> tm_mon i = tm_mon j \<and> tm_mday i = tm_mday j \<and> tm_hour i = tm_hour j \<and>
     tm_min i = tm_min j \<and> tm_sec i = tm_sec j \<Longrightarrow> seconds_of i = seconds_of j"
  by (simp add: seconds_of_def)

subsection \<open>Twenty years\<close>

text \<open>
  Between a date and the same date twenty years later there are four or five leap days (four across 2100), which \<open>20 * 365\<close>
  days do not count: the printed date falls short by as many days.
\<close>

lemma twenty_sum:
  fixes a b b' c c' x :: nat
  assumes "c \<le> x" and "b' = b \<and> (c' = c \<or> c' = c + 1) \<or> b' = b + 1 \<and> c' = c + 1"
  shows "365 * (x + 20) + (a + 5 + b') - c' = 365 * x + (a + b) - c + 7304 \<or>
    365 * (x + 20) + (a + 5 + b') - c' = 365 * x + (a + b) - c + 7305"
  using assms by auto

lemma leap_days_in_20_years:
  assumes "1 \<le> y"
  shows "days_to_year (y + 20) = days_to_year y + 20 * 365 + 5 \<or> days_to_year (y + 20) = days_to_year y + 20 * 365 + 4"
proof -
  obtain x where y: "y = Suc x" using assms by (cases y) auto
  have c: "(x + 20) div 100 = x div 100 \<or> (x + 20) div 100 = x div 100 + 1" by linarith
  have "n div 400 = n div 100 div 4" for n :: nat by (simp only: div_mult2_eq[symmetric]) simp
  moreover have "(q + 1) div 4 = q div 4 \<or> (q + 1) div 4 = q div 4 + 1" for q :: nat by linarith
  ultimately have "(x + 20) div 400 = x div 400 \<and>
      ((x + 20) div 100 = x div 100 \<or> (x + 20) div 100 = x div 100 + 1) \<or>
      (x + 20) div 400 = x div 400 + 1 \<and> (x + 20) div 100 = x div 100 + 1"
    using c by metis
  note t = twenty_sum[OF div_le_dividend this, of "x div 4"]
  have a4: "(x + 20) div 4 = x div 4 + 5" by linarith
  have "Suc x + 20 - 1 = x + 20" by simp
  then have d20: "days_to_year (y + 20) = 365 * (x + 20) + (x div 4 + 5 + (x + 20) div 400) - (x + 20) div 100"
    unfolding days_to_year_def y by (simp only: a4)
  have d: "days_to_year y = 365 * x + (x div 4 + x div 400) - x div 100" unfolding days_to_year_def y diff_Suc_1 ..
  have "days_to_year (y + 20) = days_to_year y + 7304 \<or> days_to_year (y + 20) = days_to_year y + 7305"
    using t unfolding d20 d .
  then show ?thesis by auto
qed

lemma strftime_fits:
  assumes "tm_year i < 10000"
  shows "strftime 1023 i = Some (date_text i)"
  using decimal_length[of "tm_year i" 3] assms by (simp add: strftime_def date_text_def two_digits_def)

text \<open>
  C34. What the program prints, in any time zone: the two times it was given, converted to \<open>int\<close>, and then twice the
  local time \<open>20 * 365\<close> days later, in its own format and as \<open>ctime\<close> gives it.  The fields printed are in their ranges and
  name exactly this second, by a closed form that counts leap years, and the date text belongs to this
  second only.  For local times from the epoch to the end of the year 9999, behind which \<open>ctime\<close> is not defined.
\<close>
theorem calendar_roundtrip:
  fixes t :: int
  defines "later \<equiv> t + 20 * 365 * 86400"
  assumes "0 \<le> later + zone later" and "later + zone later < 253402300800"
  shows "\<exists>i. strftime_main zone t (sec, usec) = Inr (signed_text (to_int t) @ [10] @
        signed_text (to_int sec) @ [32, 40] @ signed_text (to_int usec) @ ascii '' usec)'' @ [10] @
        date_text i @ [10] @ ctime_text i @ [10]) \<and>
      valid_tm i \<and> int (seconds_of i) = later + zone later \<and>
      (\<forall>j. valid_tm j \<and> date_text j = date_text i \<longrightarrow> int (seconds_of j) = later + zone later)"
proof -
  let ?i = "localtime zone later"
  have v: "valid_tm ?i" and sec: "int (seconds_of ?i) = later + zone later"
    using localtime_correct[of later zone, OF assms(2)] by simp_all
  have y: "tm_year ?i < 10000" by (rule localtime_year[of later zone, OF assms(2,3)])
  have l: "t + 20 * 365 * 24 * 60 * 60 = later" by (simp add: later_def)
  have "1024 - 1 = (1023 :: nat)" by simp
  then have run: "strftime_main zone t (sec, usec) = Inr (signed_text (to_int t) @ [10] @
        signed_text (to_int sec) @ [32, 40] @ signed_text (to_int usec) @ ascii '' usec)'' @ [10] @
        date_text ?i @ [10] @ ctime_text ?i @ [10])"
    unfolding strftime_main_def l Let_def using y by (simp add: strftime_fits ctime_def)
  have "int (seconds_of j) = later + zone later" if "valid_tm j \<and> date_text j = date_text ?i" for j
    using date_text_inj[of j ?i] that v sec seconds_of_fields[of j ?i] by simp
  then show ?thesis using run v sec by (intro exI[of _ ?i]) blast
qed

lemma year_of_7300: "year_of 1970 7300 = (1989, 360)"
  by (simp add: year_of.simps year_days_def leap_def)

lemma month_of_1989: "month_of 1989 0 360 = (11, 26)"
  by (simp add: month_of.simps month_days_def leap_def)

text \<open>Twenty years after the epoch, five days early: a Wednesday in December.\<close>

lemma localtime_1989:
  "localtime (\<lambda>_. 0) 630720000 = \<lparr>tm_sec = 0, tm_min = 0, tm_hour = 0, tm_mday = 27, tm_mon = 11, tm_year = 1989,
     tm_wday = 3, tm_yday = 360\<rparr>"
  by (simp add: localtime_def year_of_7300 month_of_1989)

theorem calendar_roundtrip_witness:
  "\<exists>i out. strftime_main (\<lambda>t. if t < 1000 then 3600 else 7200) 0 (0, 5) = Inr (out @ date_text i @ [10] @ ctime_text i @ [10]) \<and>
     valid_tm i \<and> seconds_of i = 630727200"
proof -
  let ?z = "\<lambda>t. if t < 1000 then 3600 else 7200"
  obtain i where "strftime_main ?z 0 (0, 5) = Inr (signed_text (to_int 0) @ [10] @
        signed_text (to_int 0) @ [32, 40] @ signed_text (to_int 5) @ ascii '' usec)'' @ [10] @
        date_text i @ [10] @ ctime_text i @ [10])" "valid_tm i" "int (seconds_of i) = 630727200"
    using calendar_roundtrip[of 0 ?z 0 5] by auto
  then have "strftime_main ?z 0 (0, 5) = Inr ((signed_text (to_int 0) @ [10] @ signed_text (to_int 0) @ [32, 40] @
        signed_text (to_int 5) @ ascii '' usec)'' @ [10]) @ date_text i @ [10] @ ctime_text i @ [10]) \<and>
      valid_tm i \<and> seconds_of i = 630727200" by simp
  then show ?thesis by blast
qed

text \<open>The same day, month and time twenty years later is four or five days after what is printed.\<close>

lemma twenty_years_short:
  assumes "0 \<le> t + z" and "0 \<le> t' + z"
    and i: "i = localtime (\<lambda>_. z) t"
    and j: "localtime (\<lambda>_. z) t' = i\<lparr>tm_year := tm_year i + 20, tm_wday := w, tm_yday := n\<rparr>"
    and "leap (tm_year i + 20) = leap (tm_year i)"
  shows "t' = t + 20 * 365 * 86400 + 5 * 86400 \<or> t' = t + 20 * 365 * 86400 + 4 * 86400"
proof -
  have v: "valid_tm i" "int (seconds_of i) = t + z" using localtime_correct[of t "\<lambda>_. z"] assms(1) i by simp_all
  have s': "int (seconds_of (localtime (\<lambda>_. z) t')) = t' + z" using localtime_correct[of t' "\<lambda>_. z"] assms(2) by simp
  have md: "days_to_month (tm_year i + 20) m = days_to_month (tm_year i) m" for m
    by (induction m) (simp_all add: month_days_def assms(5))
  have y: "1970 \<le> tm_year i" using v(1) by (simp add: valid_tm_def)
  then have e: "epoch_days \<le> days_to_year (tm_year i)" using days_to_year_mono[of 1970 "tm_year i"] epoch_days_1970 by simp
  have "seconds_of (localtime (\<lambda>_. z) t') = seconds_of i + 20 * 365 * 86400 + 5 * 86400 \<or>
      seconds_of (localtime (\<lambda>_. z) t') = seconds_of i + 20 * 365 * 86400 + 4 * 86400"
    using leap_days_in_20_years[of "tm_year i"] y e by (auto simp: seconds_of_def j md)
  then show ?thesis using v(2) s' by linarith
qed

end
