(* ===== verification/InlineAsm.thy ===== *)
theory InlineAsm
  imports Prelude
begin

text \<open>
  Inline assembly: \<open>src/asmc/main.c\<close>, \<open>src/asmcwrite/main.c\<close> and the system calls of \<open>src/bufread/main.c\<close>.  The
  last two are built with \<open>-m32\<close>, \<open>asmc\<close> is not; its instructions too work on the 32-bit registers, which are all that
  is modelled.  A block is a list of instructions; what the compiler picks
  for the operands is an argument, as is what the kernel answers.
\<close>

subsection \<open>Operands and instructions\<close>

datatype reg = EAX | EBX | ECX | EDX | ESI | EDI | EBP

datatype operand = Reg reg | Imm uint32 | Slot nat  \<comment> \<open>a cell of the stack frame\<close>

datatype instr =
    MovL operand operand  \<comment> \<open>source and destination\<close>
  | AddL operand operand
  | Int80                 \<comment> \<open>\<open>int $0x80\<close>\<close>

type_synonym call = "uint32 \<times> uint32 \<times> uint32 \<times> uint32"

text \<open>The system calls made so far are part of the state.\<close>

record machine =
  regs :: "reg \<Rightarrow> uint32"
  slots :: "nat \<Rightarrow> uint32"
  calls :: "call list"

fun operand_value :: "machine \<Rightarrow> operand \<Rightarrow> uint32" where
  "operand_value m (Reg r) = regs m r"
| "operand_value m (Imm i) = i"
| "operand_value m (Slot k) = slots m k"

fun set_operand :: "operand \<Rightarrow> uint32 \<Rightarrow> machine \<Rightarrow> machine" where
  "set_operand (Reg r) v m = m\<lparr>regs := (regs m)(r := v)\<rparr>"
| "set_operand (Imm i) v m = m"
| "set_operand (Slot k) v m = m\<lparr>slots := (slots m)(k := v)\<rparr>"

fun exec_instr :: "(call \<Rightarrow> uint32) \<Rightarrow> instr \<Rightarrow> machine \<Rightarrow> machine" where
  "exec_instr sys (MovL a b) m = set_operand b (operand_value m a) m"
| "exec_instr sys (AddL a b) m = set_operand b (operand_value m b + operand_value m a) m"
| "exec_instr sys Int80 m =
     (let c = (regs m EAX, regs m EBX, regs m ECX, regs m EDX)
      in m\<lparr>regs := (regs m)(EAX := sys c), calls := calls m @ [c]\<rparr>)"

definition exec_asm :: "(call \<Rightarrow> uint32) \<Rightarrow> instr list \<Rightarrow> machine \<Rightarrow> machine" where
  "exec_asm sys is m = fold (exec_instr sys) is m"

text \<open>
  What the compiler relies on: only the output operands and the registers named as clobbered
  have changed after the block.
\<close>

definition keeps_others :: "(call \<Rightarrow> uint32) \<Rightarrow> instr list \<Rightarrow> reg set \<Rightarrow> bool" where
  "keeps_others sys is changed \<longleftrightarrow> (\<forall>m r. r \<notin> changed \<longrightarrow> regs (exec_asm sys is m) r = regs m r)"

subsection \<open>\<open>asmc\<close>\<close>

text \<open>\<open>x\<close> is the register of the output operand \<open>%0\<close>; \<open>y\<close> comes in \<open>ecx\<close>, and \<open>eax\<close> is declared as clobbered.\<close>

definition add_code :: "reg \<Rightarrow> instr list" where
  "add_code x = [MovL (Imm 15) (Reg EAX), AddL (Reg EAX) (Reg ECX), MovL (Reg ECX) (Reg x)]"

text \<open>The value that \<open>main\<close> prints.\<close>

definition asmc_main :: "(call \<Rightarrow> uint32) \<Rightarrow> reg \<Rightarrow> machine \<Rightarrow> uint32" where
  "asmc_main sys x m = (let y = 12 in regs (exec_asm sys (add_code x) (set_operand (Reg ECX) y m)) x)"

lemma add_code_result: "x \<noteq> EAX \<Longrightarrow> regs (exec_asm sys (add_code x) m) x = regs m ECX + 15"
  by (simp add: exec_asm_def add_code_def)

lemma asmc_prints: "asmc_main sys x m = 27"
  by (simp add: asmc_main_def exec_asm_def add_code_def)

text \<open>The input register \<open>ecx\<close> is changed without the compiler knowing, unless it is also the output's.\<close>

lemma add_code_clobbers: "keeps_others sys (add_code x) {x, EAX} \<longleftrightarrow> x = ECX"
proof
  assume k: "keeps_others sys (add_code x) {x, EAX}"
  let ?m = "\<lparr>regs = (\<lambda>_. 0), slots = (\<lambda>_. 0), calls = []\<rparr>"
  show "x = ECX"
  proof (rule ccontr)
    assume "x \<noteq> ECX"
    then have "regs (exec_asm sys (add_code x) ?m) ECX = 0" using k unfolding keeps_others_def by auto
    then show False using \<open>x \<noteq> ECX\<close> by (simp add: exec_asm_def add_code_def)
  qed
qed (auto simp: keeps_others_def exec_asm_def add_code_def)

subsection \<open>A system call with three arguments\<close>

text \<open>The block that \<open>asmcwrite\<close> and \<open>bufread\<close> share; \<open>r\<close> is the operand of the result.\<close>

definition syscall_code :: "operand \<Rightarrow> operand \<Rightarrow> operand \<Rightarrow> operand \<Rightarrow> operand \<Rightarrow> instr list" where
  "syscall_code r nr fd buf n =
     [MovL nr (Reg EAX), MovL fd (Reg EBX), MovL buf (Reg ECX), MovL n (Reg EDX), Int80, MovL (Reg EAX) r]"

definition run_call :: "(call \<Rightarrow> uint32) \<Rightarrow> operand \<Rightarrow> instr list \<Rightarrow> machine \<Rightarrow> uint32 \<times> call list" where
  "run_call sys r is m = (let m' = exec_asm sys is (m\<lparr>calls := []\<rparr>) in (operand_value m' r, calls m'))"

subsection \<open>\<open>asmcwrite\<close>\<close>

text \<open>\<open>r\<close>, \<open>fd\<close>, \<open>buf\<close> and \<open>n\<close> are the registers of the operands \<open>%0\<close> to \<open>%3\<close>; nothing is declared as clobbered.\<close>

definition write_code :: "reg \<Rightarrow> reg \<Rightarrow> reg \<Rightarrow> reg \<Rightarrow> instr list" where
  "write_code r fd buf n = syscall_code (Reg r) (Imm 4) (Reg fd) (Reg buf) (Reg n)"

text \<open>The registers at the start hold the arguments; the result is the value returned and the calls made.\<close>

definition call_write :: "(call \<Rightarrow> uint32) \<Rightarrow> reg \<times> reg \<times> reg \<times> reg \<Rightarrow> machine \<Rightarrow> uint32 \<times> call list" where
  "call_write sys = (\<lambda>(r, fd, buf, n). run_call sys (Reg r) (write_code r fd buf n))"

text \<open>No operand sits in a register that is written before the operand is read.\<close>

definition safe_operands :: "reg \<times> reg \<times> reg \<times> reg \<Rightarrow> bool" where
  "safe_operands = (\<lambda>(r, fd, buf, n). fd \<noteq> EAX \<and> buf \<notin> {EAX, EBX} \<and> n \<notin> {EAX, EBX, ECX})"

lemmas asm_defs = call_write_def run_call_def exec_asm_def write_code_def syscall_code_def Let_def

lemma call_write_calls:
  "snd (call_write sys (r, fd, buf, n) m) =
     (let rs1 = (regs m)(EAX := 4); rs2 = rs1(EBX := rs1 fd); rs3 = rs2(ECX := rs2 buf)
      in [(4, rs1 fd, rs2 buf, rs3 n)])"
  by (cases r) (simp_all add: asm_defs)

text \<open>
  C35. With its three inputs in distinct registers \<open>call_write\<close> makes the system call \<open>write\<close> with its three arguments, and returns its result, for all
  values exactly when the compiler happens to keep the operands out of the registers that the block writes
  first; the constraints do not ask it to, so a legal choice of registers calls \<open>write\<close> with wrong arguments.
\<close>
theorem call_write_operands:
  assumes "distinct [fd, buf, n]"
  shows "(\<forall>m. call_write sys (r, fd, buf, n) m =
      (sys (4, regs m fd, regs m buf, regs m n), [(4, regs m fd, regs m buf, regs m n)])) \<longleftrightarrow> safe_operands (r, fd, buf, n)"
proof
  assume all: "\<forall>m. call_write sys (r, fd, buf, n) m =
    (sys (4, regs m fd, regs m buf, regs m n), [(4, regs m fd, regs m buf, regs m n)])"
  let ?m = "\<lparr>regs = (\<lambda>_. 0)(fd := 1, buf := 2, n := 3), slots = (\<lambda>_. 0), calls = []\<rparr>"
  have "snd (call_write sys (r, fd, buf, n) ?m) = [(4, regs ?m fd, regs ?m buf, regs ?m n)]" using all by (metis snd_conv)
  then have "snd (call_write sys (r, fd, buf, n) ?m) = [(4, 1, 2, 3)]" using assms by simp
  then show "safe_operands (r, fd, buf, n)"
    unfolding call_write_calls safe_operands_def using assms by (auto simp: Let_def split: if_splits)
next
  assume safe: "safe_operands (r, fd, buf, n)"
  show "\<forall>m. call_write sys (r, fd, buf, n) m =
    (sys (4, regs m fd, regs m buf, regs m n), [(4, regs m fd, regs m buf, regs m n)])"
    using safe assms by (auto simp: asm_defs safe_operands_def)
qed

theorem call_write_operands_witness:
  "(\<forall>m. call_write (\<lambda>(c, fd, buf, n). n) (EAX, ESI, EDI, EDX) m =
      (regs m EDX, [(4, regs m ESI, regs m EDI, regs m EDX)])) \<and>
   (\<exists>m. call_write (\<lambda>(c, fd, buf, n). n) (EAX, EAX, EDX, ECX) m \<noteq>
      (regs m ECX, [(4, regs m EAX, regs m EDX, regs m ECX)]))"
  using call_write_operands[of ESI EDI EDX "\<lambda>(c, fd, buf, n). n" EAX]
    call_write_operands[of EAX EDX ECX "\<lambda>(c, fd, buf, n). n" EAX]
  by (auto simp: safe_operands_def)

text \<open>The block also leaves \<open>ebx\<close>, \<open>ecx\<close> and \<open>edx\<close> changed behind the compiler's back.\<close>

lemma write_code_clobbers: "\<not> keeps_others sys (write_code EAX ESI EDI EBP) {EAX}"
proof
  assume k: "keeps_others sys (write_code EAX ESI EDI EBP) {EAX}"
  let ?m = "\<lparr>regs = (\<lambda>_. 0)(ESI := 1 :: uint32), slots = (\<lambda>_. 0), calls = []\<rparr>"
  have "regs (exec_asm sys (write_code EAX ESI EDI EBP) ?m) EBX = regs ?m EBX" using k unfolding keeps_others_def by blast
  then show False by (simp add: asm_defs)
qed

text \<open>\<open>main\<close>: five bytes of the string at address \<open>text\<close> to the standard output.\<close>

definition asmcwrite_main :: "(call \<Rightarrow> uint32) \<Rightarrow> reg \<times> reg \<times> reg \<times> reg \<Rightarrow> uint32 \<Rightarrow> machine \<Rightarrow> call list" where
  "asmcwrite_main sys = (\<lambda>(r, fd, buf, n) text m.
     snd (call_write sys (r, fd, buf, n) (m\<lparr>regs := (regs m)(fd := 1, buf := text, n := 5)\<rparr>)))"

lemma asmcwrite_main_writes:
  "safe_operands (r, fd, buf, n) \<Longrightarrow> distinct [fd, buf, n] \<Longrightarrow>
     asmcwrite_main sys (r, fd, buf, n) text m = [(4, 1, text, 5)]"
  by (auto simp: asmcwrite_main_def call_write_calls safe_operands_def Let_def)

subsection \<open>\<open>bufread\<close>\<close>

text \<open>
  Here the four registers are declared as clobbered, so the compiler gives the operands other places: \<open>g\<close> allows another
  register, memory or a constant.
\<close>

definition clobbered :: "reg set" where
  "clobbered = {EAX, EBX, ECX, EDX}"

fun allowed :: "operand \<Rightarrow> bool" where
  "allowed (Reg r) \<longleftrightarrow> r \<notin> clobbered"
| "allowed (Imm i) \<longleftrightarrow> True"
| "allowed (Slot k) \<longleftrightarrow> True"

definition read_call :: "(call \<Rightarrow> uint32) \<Rightarrow> operand \<Rightarrow> operand \<times> operand \<times> operand \<Rightarrow> machine \<Rightarrow> uint32 \<times> call list" where
  "read_call sys readed = (\<lambda>(fd, buf, n). run_call sys readed (syscall_code readed (Imm 3) fd buf n))"

definition write_call :: "(call \<Rightarrow> uint32) \<Rightarrow> operand \<Rightarrow> operand \<times> operand \<times> operand \<Rightarrow> machine \<Rightarrow> uint32 \<times> call list" where
  "write_call sys readed = (\<lambda>(fd, buf, n). run_call sys readed (syscall_code readed (Imm 4) fd buf n))"

definition exit_code :: "operand \<Rightarrow> instr list" where
  "exit_code code = [MovL (Imm 1) (Reg EAX), MovL code (Reg EBX), Int80]"

definition exit_call :: "(call \<Rightarrow> uint32) \<Rightarrow> operand \<Rightarrow> machine \<Rightarrow> call list" where
  "exit_call sys code m = calls (exec_asm sys (exit_code code) (m\<lparr>calls := []\<rparr>))"

lemma allowed_reg: "allowed op \<Longrightarrow> r \<in> clobbered \<Longrightarrow> operand_value (m\<lparr>regs := (regs m)(r := v)\<rparr>) op = operand_value m op"
  by (cases op) auto

text \<open>The calls are the ones asked for, wherever the compiler puts the operands, and no other register changes.\<close>

lemma syscall_code_correct:
  assumes "allowed r" and "\<forall>i. r \<noteq> Imm i" and "allowed fd" and "allowed buf" and "allowed n"
  shows "run_call sys r (syscall_code r (Imm nr) fd buf n) m =
      (let c = (nr, operand_value m fd, operand_value m buf, operand_value m n) in (sys c, [c]))"
    and "x \<notin> clobbered \<Longrightarrow> r \<noteq> Reg x \<Longrightarrow> regs (exec_asm sys (syscall_code r (Imm nr) fd buf n) m) x = regs m x"
  using assms by (cases r; cases fd; cases buf; cases n; auto simp: asm_defs clobbered_def)+

lemma bufread_calls:
  assumes "allowed r" and "\<forall>i. r \<noteq> Imm i" and "allowed fd" and "allowed buf" and "allowed n"
  shows "read_call sys r (fd, buf, n) m =
      (sys (3, operand_value m fd, operand_value m buf, operand_value m n),
       [(3, operand_value m fd, operand_value m buf, operand_value m n)])"
    and "write_call sys r (fd, buf, n) m =
      (sys (4, operand_value m fd, operand_value m buf, operand_value m n),
       [(4, operand_value m fd, operand_value m buf, operand_value m n)])"
  using syscall_code_correct(1)[OF assms] by (simp_all add: read_call_def write_call_def Let_def)

text \<open>\<open>exit_call\<close> passes its code; whatever is in the other two registers goes along.\<close>

lemma exit_call_code: "code \<noteq> Reg EAX \<Longrightarrow> \<exists>c d. exit_call sys code m = [(1, operand_value m code, c, d)]"
  by (cases code) (auto simp: exit_call_def exit_code_def exec_asm_def Let_def)

end
