(* ===== verification/Descriptors.thy ===== *)
theory Descriptors
  imports Decimal
begin

text \<open>
  Descriptor tables across \<open>fork\<close> and \<open>exec\<close>: \<open>src/fork/fd_save/main.c\<close>, which hands an open descriptor to another
  program, and \<open>src/fork/fcntl/main.c\<close>, which keeps one from it.
\<close>

subsection \<open>Descriptor tables\<close>

text \<open>An entry names an open file and says whether it is closed on \<open>exec\<close>.\<close>

record fd_entry =
  open_file :: nat
  close_on_exec :: bool

type_synonym fd_table = "fd_entry option list"

definition fd_lookup :: "fd_table \<Rightarrow> nat \<Rightarrow> nat option" where
  "fd_lookup tab fd = (if fd < length tab then map_option open_file (tab ! fd) else None)"

text \<open>\<open>open\<close> takes the lowest free descriptor; \<open>exec\<close> keeps the entries that are not marked.\<close>

definition open_fd :: "nat \<Rightarrow> fd_table \<Rightarrow> nat \<times> fd_table" where
  "open_fd f tab =
     (let fd = length (takeWhile (\<lambda>e. e \<noteq> None) tab); e = Some \<lparr>open_file = f, close_on_exec = False\<rparr>
      in (fd, if fd < length tab then tab[fd := e] else tab @ [e]))"

definition close_fd :: "nat \<Rightarrow> fd_table \<Rightarrow> fd_table" where
  "close_fd fd tab = tab[fd := None]"

definition exec_table :: "fd_table \<Rightarrow> fd_table" where
  "exec_table tab = map (\<lambda>e. case e of None \<Rightarrow> None | Some e \<Rightarrow> if close_on_exec e then None else Some e) tab"

lemma open_fd_entry:
  assumes "open_fd f tab = (fd, tab')"
  shows "fd < length tab'" and "tab' ! fd = Some \<lparr>open_file = f, close_on_exec = False\<rparr>"
    and "fd_lookup tab fd = None" and "x \<noteq> fd \<Longrightarrow> fd_lookup tab' x = fd_lookup tab x"
proof -
  let ?n = "length (takeWhile (\<lambda>e. e \<noteq> None) tab)"
  have fd: "fd = ?n" using assms by (simp add: open_fd_def Let_def)
  consider "?n < length tab" | "?n = length tab" using length_takeWhile_le[of "\<lambda>e. e \<noteq> None" tab] by linarith
  then have "fd < length tab' \<and> tab' ! fd = Some \<lparr>open_file = f, close_on_exec = False\<rparr> \<and> fd_lookup tab fd = None \<and>
      (\<forall>x. x \<noteq> fd \<longrightarrow> fd_lookup tab' x = fd_lookup tab x)"
  proof cases
    case 1
    then have "tab ! fd = None" using nth_length_takeWhile[of "\<lambda>e. e \<noteq> None" tab] fd by blast
    moreover have "tab' = tab[fd := Some \<lparr>open_file = f, close_on_exec = False\<rparr>]"
      using assms 1 by (simp add: open_fd_def Let_def fd)
    ultimately show ?thesis using 1 fd by (simp add: fd_lookup_def)
  next
    case 2
    then have "tab' = tab @ [Some \<lparr>open_file = f, close_on_exec = False\<rparr>]" "fd = length tab"
      using assms fd by (simp_all add: open_fd_def Let_def)
    then show ?thesis by (simp add: fd_lookup_def nth_append)
  qed
  then show "fd < length tab'" and "tab' ! fd = Some \<lparr>open_file = f, close_on_exec = False\<rparr>"
    and "fd_lookup tab fd = None" and "x \<noteq> fd \<Longrightarrow> fd_lookup tab' x = fd_lookup tab x" by simp_all
qed

lemma exec_lookup: "fd_lookup (exec_table tab) fd =
    (if fd < length tab then (case tab ! fd of None \<Rightarrow> None | Some e \<Rightarrow> if close_on_exec e then None else Some (open_file e))
     else None)"
  by (simp add: fd_lookup_def exec_table_def split: option.split)

lemma close_fd_lookup: "fd_lookup (close_fd fd tab) fd' = (if fd' = fd then None else fd_lookup tab fd')"
  by (auto simp: fd_lookup_def close_fd_def)

subsection \<open>\<open>fd_save\<close>\<close>

text \<open>What becomes of each process: it runs another program, or comes to the end of \<open>main\<close> after reaping its children.\<close>

datatype outcome =
    Executes "byte list list" fd_table
  | Returns nat fd_table  \<comment> \<open>children reaped by the loop of \<open>wait\<close>\<close>
  | ForkFailed fd_table

definition test_path :: "byte list" where
  "test_path = map of_char ''./test''"

text \<open>
  \<open>data\<close> is the open file of \<open>data.txt\<close>, None when it cannot be opened.  The results: the child, if there is one, and the
  process itself.  The 32 bytes for the text of the descriptor are enough for any \<open>int\<close>.
\<close>

definition fd_save_main :: "nat option \<Rightarrow> bool \<Rightarrow> bool \<Rightarrow> fd_table \<Rightarrow> outcome option \<times> outcome" where
  "fd_save_main data forks exec_works tab =
     (let (fd, tab) = (case data of None \<Rightarrow> (-1, tab) | Some f \<Rightarrow> (let (n, t) = open_fd f tab in (int n, t)))
      in if forks
         then (Some (if exec_works then Executes [test_path, signed_text fd] (exec_table tab) else Returns 0 tab),
               Returns 1 (if fd = -1 then tab else close_fd (nat fd) tab))
         else (None, ForkFailed tab))"

text \<open>
  The executed program gets the number of a descriptor that is open on the data, whatever the parent does with its own; the
  parent ends with the table it started with.
\<close>

lemma fd_save_inherits:
  assumes "fd_save_main (Some f) True True tab = (Some (Executes args tab'), Returns k tab'')"
  shows "fd_lookup tab' (digits_value (args ! 1)) = Some f \<and> k = 1 \<and> (\<forall>fd. fd_lookup tab'' fd = fd_lookup tab fd)"
proof -
  obtain fd t where o: "open_fd f tab = (fd, t)" by fastforce
  have r: "args = [test_path, signed_text (int fd)]" "tab' = exec_table t" "k = 1" "tab'' = close_fd fd t"
    using assms o by (auto simp: fd_save_main_def split: if_splits)
  have n: "digits_value (args ! 1) = fd" by (simp add: r signed_text_def decimal_value)
  note e = open_fd_entry[OF o]
  have "fd_lookup tab' fd = Some f" using e(1,2) by (simp add: r(2) exec_lookup)
  moreover have "fd_lookup tab'' x = fd_lookup tab x" for x
    using e(3) e(4)[of x] unfolding r(4) close_fd_lookup by simp
  ultimately show ?thesis using n r(3) by simp
qed

lemma fd_save_no_file:
  "fst (fd_save_main None True True tab) = Some (Executes [test_path, [45, 49]] (exec_table tab))"
proof -
  have "decimal 1 = [49]" by (subst decimal.simps) simp
  then show ?thesis by (simp add: fd_save_main_def signed_text_def)
qed

lemma fd_text_fits: "n < 2 ^ 31 \<Longrightarrow> length (signed_text (int n)) + 1 \<le> 32"
  using decimal_length[of n 9] by (simp add: signed_text_def)

subsection \<open>\<open>fcntl\<close>\<close>

text \<open>\<open>F_GETFD\<close> and \<open>F_SETFD\<close>, with the flags as an \<open>int\<close> and -1 for a descriptor that is not open.\<close>

definition FD_CLOEXEC :: int where "FD_CLOEXEC = 1"

definition getfd :: "nat \<Rightarrow> fd_table \<Rightarrow> int" where
  "getfd fd tab = (if fd < length tab then (case tab ! fd of None \<Rightarrow> -1 | Some e \<Rightarrow> if close_on_exec e then FD_CLOEXEC else 0) else -1)"

definition setfd :: "nat \<Rightarrow> int \<Rightarrow> fd_table \<Rightarrow> fd_table" where
  "setfd fd flags tab = (if fd < length tab
     then tab[fd := map_option (\<lambda>e. e\<lparr>close_on_exec := odd flags\<rparr>) (tab ! fd)] else tab)"

text \<open>The table of \<open>cat\<close>; None when \<open>execle\<close> fails and \<open>main\<close> returns -1.\<close>

definition fcntl_main :: "bool \<Rightarrow> fd_table \<Rightarrow> fd_table option" where
  "fcntl_main exec_works tab =
     (let tab = setfd 1 (or (getfd 1 tab) FD_CLOEXEC) tab in if exec_works then Some (exec_table tab) else None)"

text \<open>\<open>cat\<close> runs without a standard output; its other descriptors are what they would be anyway.\<close>

lemma fcntl_closes_stdout:
  "\<exists>tab'. fcntl_main True tab = Some tab' \<and> fd_lookup tab' 1 = None \<and>
     (\<forall>fd. fd \<noteq> 1 \<longrightarrow> fd_lookup tab' fd = fd_lookup (exec_table tab) fd)"
proof -
  have odd: "odd (or x FD_CLOEXEC)" for x by (simp add: FD_CLOEXEC_def even_or_iff)
  have "fd_lookup (exec_table (setfd 1 (or x FD_CLOEXEC) tab)) 1 = None" for x
    using odd[of x] by (simp add: exec_lookup setfd_def split: option.split)
  moreover have "fd_lookup (exec_table (setfd 1 x tab)) fd = fd_lookup (exec_table tab) fd" if "fd \<noteq> 1" for x fd
    using that by (simp add: exec_lookup setfd_def)
  ultimately show ?thesis by (auto simp: fcntl_main_def Let_def)
qed

end
