(* ===== verification/SmallPrograms.thy ===== *)
theory SmallPrograms
  imports ByteStream "HOL-Library.Signed_Division"
begin

text \<open>
  Programs of one idea each: a signal handler around a division (\<open>src/signal/sigint_handler/main.c\<close>), a thread that returns
  a pointer (\<open>src/pthread/simple/main.c\<close>), the cost of \<open>sched_yield\<close> (\<open>src/pthread/sched-yield/main.c\<close>), a packed
  structure (\<open>src/sample1/main.c\<close>), arrays as arguments (\<open>src/sample3/main.c\<close>), and an interposed \<open>read\<close>
  (\<open>src/inj\<close>).
\<close>

subsection \<open>\<open>sigint_handler\<close>\<close>

datatype sig_line = SignalNumber nat | HandlerLine | Quotient int | Alive

definition SIGTERM :: nat where "SIGTERM = 15"

definition handler :: "nat \<Rightarrow> sig_line list" where
  "handler sig = SignalNumber sig # replicate 10 HandlerLine"

text \<open>The endless loop: for every round, whether the signal comes in its sleep.\<close>

fun alive_loop :: "bool list \<Rightarrow> sig_line list" where
  "alive_loop [] = []"
| "alive_loop (b # bs) = Alive # (if b then handler SIGTERM else []) @ alive_loop bs"

text \<open>
  \<open>early\<close>: the signal comes while \<open>scanf\<close> waits, which then goes on waiting.  None: there is no number, and \<open>main\<close> returns
  after what has been printed.
\<close>

definition sigint_main :: "bool \<Rightarrow> int option \<Rightarrow> bool list \<Rightarrow> c_error + sig_line list" where
  "sigint_main early y rounds =
     (let x = 1; out = (if early then handler SIGTERM else [])
      in case y of
           None \<Rightarrow> Inr out
         | Some y \<Rightarrow> if y = 0 then Inl DivideTrap else Inr (out @ [Quotient (x sdiv y)] @ alive_loop rounds))"

lemma sigint_quotient:
  "y \<noteq> 0 \<Longrightarrow> \<exists>q. sigint_main False (Some y) [] = Inr [Quotient q] \<and> (q = (if y = 1 then 1 else if y = -1 then -1 else 0))"
proof -
  assume "y \<noteq> 0"
  then have "1 sdiv y = (if y = 1 then 1 else if y = -1 then -1 else (0 :: int))"
    by (auto simp: signed_divide_int_def sgn_if)
  then show ?thesis using \<open>y \<noteq> 0\<close> by (simp add: sigint_main_def)
qed

text \<open>The handler does not stop the program: it goes on printing after every signal.\<close>

lemma alive_count: "count_list (alive_loop bs) Alive = length bs"
proof -
  have "count_list (replicate n HandlerLine) Alive = 0" for n by (induction n) simp_all
  then show ?thesis by (induction bs) (simp_all add: handler_def del: replicate.simps)
qed

subsection \<open>\<open>simple\<close>: a thread and its result\<close>

datatype thread_line = MainLine | ThreadLine | MainResult int

text \<open>The static variable outlives the thread, so the pointer that \<open>pthread_join\<close> gives is good.\<close>

definition thread_func :: "thread_line list \<times> int" where
  "thread_func = (let test = 123 in ([ThreadLine], test))"

definition thread_main :: "thread_line list" where
  "thread_main = (let (out, res) = thread_func in [MainLine] @ out @ [MainResult res])"

lemma thread_main_prints: "thread_main = [MainLine, ThreadLine, MainResult 123]"
  by (simp add: thread_main_def thread_func_def)

subsection \<open>\<open>sched-yield\<close>\<close>

text \<open>
  The rounds of a process: the counter before and after \<open>sched_yield\<close>.  The difference wraps, and \<open>(int)\<close> keeps its
  low half.
\<close>

fun yield_loop :: "int \<Rightarrow> (uint64 \<times> uint64) list \<Rightarrow> int list" where
  "yield_loop pid [] = []"
| "yield_loop pid ((ticks, now) # rs) =
     (if pid \<noteq> 0
      then (let delta = now - ticks in if delta > 10000 then sint (ucast delta :: 32 word) # yield_loop pid rs else yield_loop pid rs)
      else yield_loop pid rs)"

lemma yield_child_silent: "yield_loop 0 rs = []"
  by (induction "0 :: int" rs rule: yield_loop.induct) simp_all

text \<open>Delays below \<open>2 ^ 31\<close> ticks are printed as they are, also across a wrap of the counter.\<close>

lemma yield_prints_delays:
  "pid \<noteq> 0 \<Longrightarrow> \<forall>d \<in> set ds. d < 2 ^ 31 \<Longrightarrow>
     yield_loop pid (map (\<lambda>d. (t d, t d + of_nat d)) ds) = map int (filter (\<lambda>d. 10000 < d) ds)"
proof (induction ds)
  case (Cons d ds)
  have u: "unat (of_nat d :: uint64) = d" by (rule unat_of_nat_fits) (use Cons.prems(2) in auto)
  then have "10000 < (of_nat d :: uint64) \<longleftrightarrow> 10000 < d" by (simp add: word_less_nat_alt)
  moreover have "sint (ucast (of_nat d :: uint64) :: 32 word) = int d"
  proof -
    have "unat (ucast (of_nat d :: uint64) :: 32 word) = d"
      using u Cons.prems(2) by (simp add: unsigned_ucast_eq take_bit_nat_eq_self)
    then have "uint (ucast (of_nat d :: uint64) :: 32 word) = int d" by (metis uint_nat)
    then show ?thesis using Cons.prems(2) by (simp add: sint_uint signed_take_bit_int_eq_self)
  qed
  ultimately show ?case using Cons by simp
qed simp

subsection \<open>\<open>sample1\<close>: a packed structure\<close>

text \<open>In a packed structure every member starts where the one before it ends.\<close>

fun packed_offsets :: "nat \<Rightarrow> nat list \<Rightarrow> nat list" where
  "packed_offsets off [] = []"
| "packed_offsets off (s # ss) = off # packed_offsets (off + s) ss"

definition S_sizes :: "nat list" where
  "S_sizes = [1, 1, 4, 8]"  \<comment> \<open>\<open>x1\<close>, \<open>x2\<close>, \<open>ui32\<close>, \<open>ui64\<close>\<close>

text \<open>The addresses of \<open>x1\<close> and \<open>ui32\<close>, and the size, for a structure at address \<open>s\<close>.\<close>

definition sample1_main :: "uint64 \<Rightarrow> uint64 \<times> uint64 \<times> nat" where
  "sample1_main s = (s + of_nat (packed_offsets 0 S_sizes ! 0), s + of_nat (packed_offsets 0 S_sizes ! 2), sum_list S_sizes)"

lemma sample1_prints: "sample1_main s = (s, s + 2, 14)"
  by (simp add: sample1_main_def S_sizes_def)

lemma packed_offsets_sum: "i < length ss \<Longrightarrow> packed_offsets off ss ! i = off + sum_list (take i ss)"
proof (induction ss arbitrary: off i)
  case (Cons s ss)
  then show ?case by (cases i) auto
qed simp

subsection \<open>\<open>sample3\<close>: arrays as arguments\<close>

text \<open>An array of \<open>n\<close> elements with an initializer: the missing elements are 0.\<close>

definition init_array :: "nat \<Rightarrow> int list \<Rightarrow> int list" where
  "init_array n xs = take n (xs @ replicate n 0)"

text \<open>\<open>magic\<close> reads four elements behind the pointer it gets.\<close>

definition magic :: "int list \<Rightarrow> c_error + int list" where
  "magic x = mem_read x 0 4"

text \<open>The array of arrays \<open>y\<close> is stored row by row; \<open>y\<close> and \<open>&y[0][0]\<close> are the same address.\<close>

definition sample3_main :: "c_error + int list list" where
  "sample3_main =
     (let x = init_array 4 [1, 2]; y = concat [init_array 2 [1, 2], init_array 2 [3, 4]]
      in bindE (magic x) (\<lambda>a. bindE (magic y) (\<lambda>b. bindE (magic y) (\<lambda>c. Inr [a, b, c]))))"

lemma sample3_prints: "sample3_main = Inr [[1, 2, 0, 0], [1, 2, 3, 4], [1, 2, 3, 4]]"
  by (simp add: sample3_main_def magic_def init_array_def mem_read_def Let_def numeral_2_eq_2)

lemma magic_short: "length x < 4 \<Longrightarrow> magic x = Inl OutOfBounds"
  by (simp add: magic_def mem_read_def)

subsection \<open>\<open>inj\<close>: an interposed \<open>read\<close>\<close>

text \<open>
  The library's \<open>read\<close>: \<open>real_read\<close> is whether its static pointer has been set, \<open>found\<close> whether \<open>dlsym\<close> finds the next
  \<open>read\<close>, which is that of ByteStream with -1 for an error.
\<close>

datatype inj_line = ReadLine | ResultLine int

record interposer =
  real_read :: bool
  lookups :: nat

definition next_read :: "nat \<Rightarrow> source \<Rightarrow> int \<times> byte list \<times> source" where
  "next_read n src = (case sys_read n src of
       (Inl e, src) \<Rightarrow> (-1, [], src)
     | (Inr xs, src) \<Rightarrow> (int (length xs), xs, src))"

definition read_hook :: "bool \<Rightarrow> nat \<Rightarrow> interposer \<Rightarrow> source \<Rightarrow> c_error + inj_line list \<times> interposer \<times> int \<times> byte list \<times> source" where
  "read_hook found n st src =
     (let st = (if \<not> real_read st then st\<lparr>real_read := found, lookups := lookups st + 1\<rparr> else st)
      in if \<not> real_read st then Inl NullDeref else Inr ([ReadLine], st, next_read n src))"

text \<open>\<open>main\<close> with and without the library loaded before it.\<close>

definition inj_main :: "bool \<Rightarrow> bool \<Rightarrow> source \<Rightarrow> c_error + inj_line list" where
  "inj_main preloaded found src =
     (if preloaded
      then bindE (read_hook found 1 \<lparr>real_read = False, lookups = 0\<rparr> src) (\<lambda>(out, _, res, _). Inr (out @ [ResultLine res]))
      else (let (res, _) = next_read 1 src in Inr [ResultLine res]))"

text \<open>The hook only adds its line: the result, the bytes and the rest of the stream are those of \<open>read\<close>.\<close>

lemma inj_transparent:
  "inj_main True True src = bindE (inj_main False True src) (\<lambda>out. Inr (ReadLine # out))"
  by (simp add: inj_main_def read_hook_def split: prod.splits)

text \<open>A sequence of reads looks the function up once.\<close>

fun hook_reads :: "nat list \<Rightarrow> interposer \<Rightarrow> source \<Rightarrow> c_error + int list \<times> interposer" where
  "hook_reads [] st src = Inr ([], st)"
| "hook_reads (n # ns) st src = bindE (read_hook True n st src) (\<lambda>(out, st, res, xs, src).
     bindE (hook_reads ns st src) (\<lambda>(rs, st). Inr (res # rs, st)))"

lemma hook_looks_up_once:
  "ns \<noteq> [] \<Longrightarrow> \<exists>rs. hook_reads ns \<lparr>real_read = False, lookups = 0\<rparr> src = Inr (rs, \<lparr>real_read = True, lookups = 1\<rparr>)"
proof -
  have later: "\<exists>rs. hook_reads ns \<lparr>real_read = True, lookups = 1\<rparr> src = Inr (rs, \<lparr>real_read = True, lookups = 1\<rparr>)" for ns src
  proof (induction ns arbitrary: src)
    case (Cons n ns)
    obtain res xs src' where "next_read n src = (res, xs, src')" by (metis prod.collapse)
    then show ?case using Cons[of src'] by (auto simp: read_hook_def)
  qed simp
  assume "ns \<noteq> []"
  then obtain n ns' where ns: "ns = n # ns'" by (cases ns) auto
  obtain res xs src' where "next_read n src = (res, xs, src')" by (metis prod.collapse)
  then show ?thesis using later[of ns' src'] by (auto simp: ns read_hook_def)
qed

end
