(* ===== verification/Spec2Isabelle.thy ===== *)
theory Spec2Isabelle
  imports SpscWeak GraphTyping LebReference PipeSend ReadAll BufRead Vector RunBuffer EvfdMissing DivisorsSession Files
    SequencePrint PingPong SocketAddr Polling ThreadLocal Locking AtomicList
    FlexVector DynamicModules SocketPrograms HexCode RelTree Encode16 SharedMemory ForkPrograms Signals
    CppThreads Calendar InlineAsm Descriptors SmallPrograms
begin

text \<open>
  \<^bold>\<open>A model of the hseos programs.\<close>

  The repository is a collection of small C programs on operating-system topics under
  \<open>src/src\<close>.  They share no code; what they share is the kind of thing they
  rely on: the calls \<open>read\<close> and \<open>write\<close>, the allocator, eventfds, signals, threads with shared memory.  The
  library follows this: a few theories model what several programs rely on and state the
  contracts as locales, and one theory per program (or per group of very small ones) holds its state, its operations in
  the order of the source, and the proofs.  Paths below are relative to \<open>src/src\<close>.

  \<^bold>\<open>Conventions.\<close>  Machine integers are words of their width and wrap; a number that is only
  counted is a \<open>nat\<close>.  A run into undefined behaviour or a trap is the value \<open>Inl e\<close>, a defined result
  \<open>Inr x\<close> (theory Prelude).  A C string is a list of bytes without its NUL, a buffer is a list of bytes with it.  The
  target is LP64 and little endian.  Concurrent programs are \<open>inductive\<close> step relations, one access to a shared
  object or one system call per step, interleaved in every order (sequentially consistent memory); a step that is
  not enabled is a call that blocks.  Their invariants go through the locales of Transition.  Everything that
  runs sequentially is an executable function.  A \<open>printf\<close> is a write where the output is a terminal; where the text
  stays in the buffer until the process exits, the buffer is a part of the model (PipeSend, RunBuffer, ForkPrograms).

  \<^bold>\<open>Shared theories.\<close>
  \<^item> Prelude: integer types, errors, bounded reads and writes of a block, ring arithmetic, word facts.
  \<^item> Transition: reachable states; locales \<open>transition_system\<close> (invariants) and \<open>terminating_system\<close> (a measure as well).
  \<^item> Fifo: the contract \<open>bounded_fifo\<close> of a byte channel, interpreted by AtomicQueue.
  \<^item> ByteStream: \<open>read\<close> and \<open>write\<close> over a script of short and failing transfers; locale \<open>byte_source\<close>,
    interpreted by the model of \<open>read\<close> and used by every reading loop.
  \<^item> Memory: \<open>malloc\<close>, \<open>realloc\<close> and \<open>free\<close> with an allocator as an argument, which may refuse any size and of which only
    this is assumed: a block it returns has the size asked for.  Locale \<open>append_buffer\<close>, interpreted by
    Vector, FlexVector and RunBuffer: an append works, or memory has been refused and the code stores through the NULL that it does not check.
  \<^item> Eventfd: the counters behind EvfdSync, Divisors and Polling.  Decimal: decimal text as \<open>printf\<close> writes and \<open>scanf\<close>
    and \<open>atoi\<close> read it, behind the programs that print or read numbers.

  \<^bold>\<open>Data structures.\<close>
  \<^item> AtomicQueue and SpscQueue (\<open>atomic/one-to-one-queue.h\<close>): the ring buffer for one producer and one
    consumer.  Sequentially its operations refine appending to and splitting a bounded list, errors included;
    with the two sides interleaved byte by byte nothing is lost, reordered or read while it is written.  Buffers are
    at most \<open>2 ^ 63\<close> bytes, so that the sums of two offsets do not wrap.  SpscWeak: the same code under release and
    acquire, where a load may return an old offset and the cells are plain memory; there is no data race, and every memory
    that can arise is one of SpscQueue.
  \<^item> AtomicList (\<open>atomic/list/main.c\<close>): concurrent pushes by compare-and-exchange are linearizable.
  \<^item> Vector (\<open>sample2/main.c\<close>) and FlexVector (\<open>sample4/main.c\<close>): growing vectors and the demos of their \<open>main\<close>.  The
    first keeps its elements when it grows (contents up to \<open>2 ^ 62\<close> bytes, so that doubled capacities do not wrap, and as
    long as the allocator refuses nothing); the second cannot grow.
  \<^item> RelTree (\<open>sample5/main.c\<close>): trees with relative links keep their links when they are joined.
  \<^item> NeuralGraph (\<open>nn\<close>): the computation graph over a heap of nodes.  Values are those of the expression a graph stands
    for (over any field, the code's \<open>float\<close> being rounded), reset and recomputation are sound on shared nodes, and
    derivative graphs denote the formal derivative.  The recursion depth is fuel; any fuel above the depth of the graph is enough.
    GraphTyping: a typing of heaps that every operation keeps, and under which only a NULL can make one fail.

  \<^bold>\<open>Files, pipes and text.\<close>
  \<^item> Leb128 (\<open>mmap/sample4/main.c\<close>): the LEB128 decoder over a file mapped block by block; it prints the page size and exactly
    the numbers whose encodings the file concatenates if \<open>mmap\<close> of every length that the probe tries succeeds, and its run is
    not defined otherwise.  LebReference: it agrees with the decoder that the file's comment gives in JavaScript.
  \<^item> ReadAll (\<open>readall/main.c\<close>), BufRead (\<open>bufread/main.c\<close>), PipeSend (\<open>fork/pipe-send/main.c\<close>), RunBuffer
    (\<open>fork/run/main.c\<close>): the loops over \<open>read\<close> and \<open>write\<close>; each delivers exactly the bytes that come, however the calls cut
    them up, and stays in its buffer.  The loops terminate because every call consumes input or an entry of the script.
    RunBuffer's doubling loop has fuel 65, one more than the shifts that make any capacity 0; its theorems are for outputs up
    to \<open>2 ^ 62\<close> bytes and say what happens when memory is refused.
  \<^item> Files (\<open>files/main.c\<close>): generating, merging and seeking in files of integers, up to what \<open>main\<close> prints.  \<open>merge\<close>
    opens its first path twice, so it merges what the two descriptors deliver of one file; failing and short reads are scripted.
  \<^item> Encode16 (\<open>1201/main.c\<close>), HexCode (\<open>mmap/sample2/main.c\<close>): encodings with their round trips, and their \<open>main\<close>s.
  \<^item> SharedMemory (\<open>mmap/sample1/main.c\<close>, \<open>mmap/sample3-fork/main.c\<close>): programs over an integer in a shared mapping.
  \<^item> DynamicModules (\<open>dl_rt\<close>, \<open>dl\<close>): the reloading loop against the reference counts of the dynamic linker, with the
    leak that makes reloads ineffective; the walk over a directory of modules, and what the test modules print.
  \<^item> Calendar (\<open>strftime/main.c\<close>): what the program prints.  The time zone is an argument, its offset at every instant;
    \<open>localtime\<close>, \<open>strftime\<close> and \<open>ctime\<close> are library functions, defined here as C and POSIX describe them, and checked against a
    closed form that counts leap years.  Local times run from the epoch to the end of the year 9999, behind which \<open>ctime\<close> is not defined.

  \<^bold>\<open>Sockets and waiting.\<close>
  \<^item> SocketAddr (\<open>sockets/example/types.c\<close>): parsing and printing of addresses.  \<open>inet_pton\<close> and \<open>inet_ntop\<close> are the record \<open>inet\<close>,
    an argument; the round trip asks of them that the one address in question is printed within its buffer and parsed
    back.  The uninitialised variable of \<open>eo_parse_addr_port\<close> is an argument too; every text is refused unless it happens to be NULL.
  \<^item> EchoServer (\<open>sockets/example/server.c\<close>, \<open>client.c\<close>): the echo loop, the accepting parent, the client, and a session of
    the two.  SocketPrograms: the \<open>main\<close> functions around them and \<open>sockets/example/main.c\<close>, with the answers of
    \<open>getaddrinfo\<close>, \<open>bind\<close>, \<open>connect\<close> and \<open>accept\<close> as data.
  \<^item> Polling (\<open>sockets/primitives/main.c\<close>): semaphore, timer, \<open>poll\<close>, \<open>select\<close> and edge-triggered \<open>epoll\<close> loops; the endless
    ones as functions of the number of rounds; the loop that waits for a signal and a timer; \<open>main\<close>.

  \<^bold>\<open>Processes, threads and signals.\<close>
  \<^item> EvfdSync (\<open>fork/evfd-sync/main.c\<close>): a number passed round eight processes; order, absence of deadlock, at most 67 steps.
    EvfdMissing: the gap at which the number is lost when a \<open>fork\<close> fails.
  \<^item> Divisors (\<open>fork/divisors/main.c\<close>): a request served by eight processes, for all numbers from 1 to \<open>2 ^ 64 - 2\<close>: the
    listing is complete, or there are more than 32 divisor pairs and the array is overrun.  An access behind the array is undefined
    behaviour, so no step follows it.  The rounding of \<open>sqrtl\<close> is a hypothesis, \<open>root_ok\<close>; it lets \<open>root\<close> reach
    \<open>2 ^ 32 + 1\<close>, where the products of the candidates wrap.  DivisorsSession: the loop over
    requests, and the requests that are never answered, 0 and \<open>2 ^ 64 - 1\<close>.
  \<^item> PingPong (\<open>signal/ping-pong/main.c\<close>) and SequencePrint (\<open>signal/sequence_print/main.c\<close>): turns taken by signals, and the
    wake-up that the second can lose.
  \<^item> Signals (\<open>signal/sigreader\<close>, \<open>signal/sigterm_print\<close>, \<open>signal/sigterm_print_naive\<close>): signals taken in \<open>sigsuspend\<close>.
  \<^item> Race (\<open>pthread/race/main.c\<close>), ThreadLocal (\<open>pthread/thread_local/main.c\<close>), Locking (\<open>pthread/race-mutex/main.c\<close>): the
    unsynchronised counter with its exact range of results, an increment being a load and a store (the pinning of the threads to
    one processor is left out), the program that refines it, the guarded counter,
    and the resource container with its condition variable.
  \<^item> Semaphore and CppThreads (\<open>cppthread\<close>): the semaphore made of a mutex and a condition variable for
    any number of threads and any programs, with and without spurious wake-ups (no count is lost or made up, no waiter is
    forgotten); the wait of \<open>run_semaphore\<close> that nobody ends; the counters under a mutex and under a spin lock.
  \<^item> ForkPrograms (\<open>fork/map\<close>, \<open>fork/timer\<close>, \<open>fork/recursive-fork\<close>, \<open>fork/recursive-fork2\<close>, \<open>fork/nonblocking\<close>,
    \<open>fork/simple\<close>): argument substitution, wait statuses, chains of forks, the condition that is always true, buffered
    output.  Descriptors (\<open>fork/fd_save\<close>, \<open>fork/fcntl\<close>): descriptor tables through \<open>fork\<close> and \<open>exec\<close>.
  \<^item> InlineAsm (\<open>asmc\<close>, \<open>asmcwrite\<close>, the system calls of \<open>bufread\<close>): the instructions over a register file, with the
    compiler's choice of operands as an argument, the inputs in distinct registers.
  \<^item> SmallPrograms (\<open>signal/sigint_handler\<close>, \<open>pthread/simple\<close>, \<open>pthread/sched-yield\<close>, \<open>sample1\<close>, \<open>sample3\<close>, \<open>inj\<close>).

  Results of system calls that a program cannot know (the result of \<open>fork\<close>, what \<open>read\<close> transfers, whether \<open>mmap\<close>
  succeeds) are arguments of the model, and the theorems quantify over them.

  \<^bold>\<open>Not modelled.\<close>  Weak memory outside the queue (the list's shared accesses are all
  sequentially consistent ones, the C++ spin lock is taken with acquire and given back with release); rounding of \<open>float\<close>; in the concurrent programs most failing system
  calls behind \<open>check_result\<close>, and the creation of mappings, pipes and signal masks where it is a fixed sequence of
  calls; socket options; terminal output beyond the order of the lines; addresses that are printed only to be looked at.
  \<open>1205\<close> declares a variable and returns; the programs in assembly (\<open>asm\<close>, \<open>nostd\<close>) and the shell scripts and
  templates beside \<open>src/src\<close> are not C.
\<close>

end
